(* ===== verification/Prelude.thy ===== *)
theory Prelude
  imports Complex_Main "HOL-Library.Sublist"
begin

text \<open>
  The vocabulary shared by the component theories: Go's fixed-width integers and clock
  values, the byte strings every component works on, and generic lemmas on lists and maps.

  Go's \<open>string\<close> and \<open>[]byte\<close> are both \<open>string\<close> here: a list of bytes. \<open>len\<close>,
  indexing and slicing in the source count bytes, and so does \<open>length\<close>.

  A \<open>time.Time\<close> is the number of nanoseconds since Go's zero time, so the zero value
  that \<open>IsZero\<close> tests is \<open>0\<close>. A \<open>time.Duration\<close> is an \<open>int64\<close> of nanoseconds;
  \<open>Sub\<close> saturates at its ends and the arithmetic operators wrap.
\<close>

named_theorems status_simps \<open>HTTP status code constants\<close>
named_theorems breaker_defs \<open>operations of the circuit breaker\<close>
named_theorems handler_defs \<open>operations of the request pipeline\<close>

type_synonym bytes = string
type_synonym time = int
type_synonym duration = int

subsection \<open>Machine integers\<close>

definition int64_min :: int where
  "int64_min = - (2 ^ 63)"

definition int64_max :: int where
  "int64_max = 2 ^ 63 - 1"

definition wrap64 :: "int \<Rightarrow> int" where
  "wrap64 x = (x + 2 ^ 63) mod 2 ^ 64 - 2 ^ 63"

definition in_int64 :: "int \<Rightarrow> bool" where
  "in_int64 x \<longleftrightarrow> int64_min \<le> x \<and> x \<le> int64_max"

lemma wrap64_id [simp]: "in_int64 x \<Longrightarrow> wrap64 x = x"
  by (simp add: wrap64_def in_int64_def int64_min_def int64_max_def)

lemma wrap64_range: "in_int64 (wrap64 x)"
proof -
  have "0 \<le> (x + 2 ^ 63) mod 2 ^ 64" and "(x + 2 ^ 63) mod 2 ^ 64 < 2 ^ 64"
    by simp_all
  then show ?thesis
    by (simp add: in_int64_def wrap64_def int64_min_def int64_max_def)
qed

subsection \<open>Clock values\<close>

definition second :: duration where
  "second = 1000000000"

definition zeroTime :: time where
  "zeroTime = 0"

definition time_IsZero :: "time \<Rightarrow> bool" where
  "time_IsZero t \<longleftrightarrow> t = zeroTime"

text \<open>\<open>t.Sub(u)\<close>: the difference, saturated to the range of \<open>time.Duration\<close>.\<close>

definition time_Sub :: "time \<Rightarrow> time \<Rightarrow> duration" where
  "time_Sub t u = max int64_min (min int64_max (t - u))"

text \<open>
  \<open>int(d.Seconds())\<close>: \<open>Seconds\<close> is a \<open>float64\<close> and the conversion truncates towards
  zero. The result is the integral quotient; binary rounding could move it by one only for
  durations of \<open>2 ^ 23\<close> seconds (97 days) and above.
\<close>

definition whole_seconds :: "duration \<Rightarrow> int" where
  "whole_seconds d = (if d < 0 then - ((- d) div second) else d div second)"

lemma second_pos [simp]: "0 < second"
  by (simp add: second_def)

lemma time_Sub_range: "in_int64 (time_Sub t u)"
  by (auto simp: time_Sub_def in_int64_def int64_min_def int64_max_def)

lemma time_Sub_nonneg: "u \<le> t \<Longrightarrow> 0 \<le> time_Sub t u"
  by (simp add: time_Sub_def int64_max_def)

lemma time_Sub_self [simp]: "time_Sub t t = 0"
  by (simp add: time_Sub_def int64_max_def int64_min_def)

lemma time_Sub_less: "in_int64 d \<Longrightarrow> time_Sub t u < d \<longleftrightarrow> t - u < d \<and> int64_min < d"
  by (auto simp: time_Sub_def in_int64_def int64_max_def int64_min_def)

lemma time_Sub_ge: "u + d \<le> t \<Longrightarrow> in_int64 d \<Longrightarrow> d \<le> time_Sub t u"
  by (auto simp: time_Sub_def in_int64_def)

lemma whole_seconds_mono: "0 \<le> c \<Longrightarrow> c \<le> d \<Longrightarrow> whole_seconds c \<le> whole_seconds d"
  by (simp add: whole_seconds_def zdiv_mono1)

subsection \<open>HTTP status codes\<close>

definition StatusOK :: int where [status_simps]: "StatusOK = 200"
definition StatusUnauthorized :: int where [status_simps]: "StatusUnauthorized = 401"
definition StatusNotFound :: int where [status_simps]: "StatusNotFound = 404"
definition StatusRequestEntityTooLarge :: int where
  [status_simps]: "StatusRequestEntityTooLarge = 413"
definition StatusTooManyRequests :: int where [status_simps]: "StatusTooManyRequests = 429"
definition StatusBadGateway :: int where [status_simps]: "StatusBadGateway = 502"
definition StatusServiceUnavailable :: int where
  [status_simps]: "StatusServiceUnavailable = 503"

subsection \<open>Lists and maps\<close>

lemma prefix_snoc_iff: "prefix p (xs @ [x]) \<longleftrightarrow> p = xs @ [x] \<or> prefix p xs"
  by (simp add: prefix_snoc)

lemma foldl_invariant:
  assumes "P s" and "\<And>s x. P s \<Longrightarrow> x \<in> set xs \<Longrightarrow> P (f s x)"
  shows "P (foldl f s xs)"
  using assms by (induction xs arbitrary: s) auto

lemma map_of_rev_distinct: "distinct (map fst xs) \<Longrightarrow> map_of (rev xs) = map_of xs"
  by (intro map_of_inject_set [THEN iffD2]) (auto simp: rev_map [symmetric])

lemma ex_nat_suc_split: "(\<exists>j::nat. P j) \<longleftrightarrow> P 0 \<or> (\<exists>j. P (Suc j))"
  by (metis not0_implies_Suc)

lemma all_less_Suc_split: "(\<forall>k<Suc n. P k) \<longleftrightarrow> P 0 \<and> (\<forall>k<n. P (Suc k))"
  by (metis less_Suc_eq_0_disj)

lemma take_take_append: "take n (take n xs @ ys) = take n (xs @ ys)"
  by (cases "length xs \<le> n") auto

lemma find_append_case: "find P (xs @ ys) = (case find P xs of None \<Rightarrow> find P ys | Some x \<Rightarrow> Some x)"
  by (induction xs) auto

lemma find_SomeD: "find P xs = Some x \<Longrightarrow> x \<in> set xs \<and> P x"
  by (induction xs) (auto split: if_splits)

end
