(* ===== verification/Go_Net.thy ===== *)
theory Go_Net
  imports Go_Strings
begin

text \<open>
  The functions of Go's \<open>net\<close> package the configuration relies on: \<open>SplitHostPort\<close>,
  \<open>ParseIP\<close> (with \<open>netip.ParseAddr\<close> behind it) and the predicates \<open>IsLoopback\<close> and
  \<open>IsPrivate\<close>. An IP address is the list of its 16 bytes, IPv4 in the mapped form.
\<close>

subsection \<open>SplitHostPort\<close>

fun last_colon :: "bytes \<Rightarrow> nat option" where
  "last_colon [] = None"
| "last_colon (c # s) =
     (case last_colon s of
        Some i \<Rightarrow> Some (Suc i)
      | None \<Rightarrow> if c = CHR '':'' then Some 0 else None)"

definition SplitHostPort :: "bytes \<Rightarrow> (bytes \<times> bytes) option" where
  "SplitHostPort hostport =
     (case last_colon hostport of
        None \<Rightarrow> None
      | Some i \<Rightarrow>
          (if has_prefix hostport ''['' then
             (case index_of '']'' hostport of
                None \<Rightarrow> None
              | Some e \<Rightarrow>
                  (if e + 1 \<noteq> i then None
                   else if index_of ''['' (drop 1 hostport) \<noteq> None then None
                   else if index_of '']'' (drop (e + 1) hostport) \<noteq> None then None
                   else Some (take (e - 1) (drop 1 hostport), drop (i + 1) hostport)))
           else
             (let host = take i hostport in
              if index_of '':'' host \<noteq> None then None
              else if index_of ''['' hostport \<noteq> None then None
              else if index_of '']'' hostport \<noteq> None then None
              else Some (host, drop (i + 1) hostport))))"

subsection \<open>ParseIP\<close>

type_synonym ip = "nat list"

definition ipv4_octet :: "bytes \<Rightarrow> nat option" where
  "ipv4_octet f =
     (if f \<noteq> [] \<and> list_all is_digit f \<and> (length f = 1 \<or> hd f \<noteq> CHR ''0'') \<and> digits_val 0 f \<le> 255
      then Some (digits_val 0 f) else None)"

fun all_some :: "'a option list \<Rightarrow> 'a list option" where
  "all_some [] = Some []"
| "all_some (x # xs) =
     (case x of None \<Rightarrow> None | Some v \<Rightarrow> map_option ((#) v) (all_some xs))"

definition parse_ipv4_fields :: "bytes \<Rightarrow> nat list option" where
  "parse_ipv4_fields s =
     (let fs = split_on CHR ''.'' s in
      if length fs \<noteq> 4 then None else all_some (map ipv4_octet fs))"

text \<open>
  One group of an IPv6 address: the value of the leading hexadecimal digits and the rest;
  \<open>None\<close> when there are none, or more than four.
\<close>

fun hex_span :: "bytes \<Rightarrow> nat list \<times> bytes" where
  "hex_span [] = ([], [])"
| "hex_span (c # s) =
     (case hex_val c of
        None \<Rightarrow> ([], c # s)
      | Some d \<Rightarrow> (let (ds, r) = hex_span s in (d # ds, r)))"

definition hex_group :: "bytes \<Rightarrow> (nat \<times> bytes) option" where
  "hex_group s =
     (let (ds, r) = hex_span s in
      if ds = [] \<or> length ds > 4 then None else Some (foldl (\<lambda>a d. a * 16 + d) 0 ds, r))"

text \<open>
  The loop of \<open>parseIPv6\<close>: \<open>acc\<close> holds the bytes parsed so far, \<open>ell\<close> the offset of the
  ellipsis. Each turn adds two bytes, so eight turns fill the address.
\<close>

fun parse_ipv6_loop ::
  "nat \<Rightarrow> nat list \<Rightarrow> nat option \<Rightarrow> bytes \<Rightarrow> (nat list \<times> nat option \<times> bytes) option" where
  "parse_ipv6_loop 0 acc ell s = Some (acc, ell, s)"
| "parse_ipv6_loop (Suc n) acc ell s =
     (case hex_group s of
        None \<Rightarrow> None
      | Some (v, r) \<Rightarrow>
          (if has_prefix r ''.'' then
             (if ell = None \<and> length acc \<noteq> 12 then None
              else if length acc + 4 > 16 then None
              else case parse_ipv4_fields s of
                     None \<Rightarrow> None
                   | Some fs \<Rightarrow> Some (acc @ fs, ell, []))
           else
             (let acc = acc @ [v div 256, v mod 256] in
              if r = [] then Some (acc, ell, [])
              else if hd r \<noteq> CHR '':'' \<or> length r = 1 then None
              else
                (let r = tl r in
                 if hd r = CHR '':'' then
                   (if ell \<noteq> None then None
                    else if tl r = [] then Some (acc, Some (length acc), [])
                    else parse_ipv6_loop n acc (Some (length acc)) (tl r))
                 else parse_ipv6_loop n acc ell r))))"

definition parse_ipv6 :: "bytes \<Rightarrow> ip option" where
  "parse_ipv6 s =
     (if has_prefix s ''::'' \<and> drop 2 s = [] then Some (replicate 16 0)
      else
        (let (ell, s) = (if has_prefix s ''::'' then (Some 0, drop 2 s) else (None, s)) in
         case parse_ipv6_loop 8 [] ell s of
           None \<Rightarrow> None
         | Some (acc, ell, r) \<Rightarrow>
             (if r \<noteq> [] then None
              else if length acc < 16 then
                (case ell of
                   None \<Rightarrow> None
                 | Some e \<Rightarrow> Some (take e acc @ replicate (16 - length acc) 0 @ drop e acc))
              else if ell \<noteq> None then None
              else Some acc)))"

definition v4_prefix :: "nat list" where
  "v4_prefix = replicate 10 0 @ [255, 255]"

text \<open>
  \<open>netip.ParseAddr\<close> looks for the first of the three bytes; an address with a zone is
  refused by \<open>net.ParseIP\<close>.
\<close>

fun first_of :: "char set \<Rightarrow> bytes \<Rightarrow> char option" where
  "first_of cs [] = None"
| "first_of cs (c # s) = (if c \<in> cs then Some c else first_of cs s)"

definition ParseIP :: "bytes \<Rightarrow> ip option" where
  "ParseIP s =
     (case first_of {CHR ''.'', CHR '':'', CHR ''%''} s of
        None \<Rightarrow> None
      | Some c \<Rightarrow>
          (if c = CHR ''.'' then map_option ((@) v4_prefix) (parse_ipv4_fields s)
           else if c = CHR '':'' then
             (if index_of ''%'' s \<noteq> None then None else parse_ipv6 s)
           else None))"

subsection \<open>Address classes\<close>

definition To4 :: "ip \<Rightarrow> nat list option" where
  "To4 a = (if take 12 a = v4_prefix then Some (drop 12 a) else None)"

definition IsLoopback :: "ip \<Rightarrow> bool" where
  "IsLoopback a =
     (case To4 a of
        Some v4 \<Rightarrow> v4 ! 0 = 127
      | None \<Rightarrow> a = replicate 15 0 @ [1])"

definition IsPrivate :: "ip \<Rightarrow> bool" where
  "IsPrivate a =
     (case To4 a of
        Some v4 \<Rightarrow> v4 ! 0 = 10 \<or> (v4 ! 0 = 172 \<and> v4 ! 1 div 16 = 1) \<or> (v4 ! 0 = 192 \<and> v4 ! 1 = 168)
      | None \<Rightarrow> length a = 16 \<and> a ! 0 div 2 = 126)"

subsection \<open>Lemmas\<close>

lemma all_some_length: "all_some xs = Some ys \<Longrightarrow> length ys = length xs"
  by (induction xs arbitrary: ys) (auto split: option.splits)

lemma parse_ipv4_fields_length: "parse_ipv4_fields s = Some fs \<Longrightarrow> length fs = 4"
  by (auto simp: parse_ipv4_fields_def Let_def dest: all_some_length split: if_splits)

definition ell_ok :: "nat option \<Rightarrow> nat list \<Rightarrow> bool" where
  "ell_ok ell acc \<longleftrightarrow> (case ell of None \<Rightarrow> True | Some e \<Rightarrow> e \<le> length acc)"

lemma ell_ok_mono: "ell_ok ell acc \<Longrightarrow> ell_ok ell (acc @ bs)"
  by (simp add: ell_ok_def split: option.splits)

lemma parse_ipv6_loop_wf:
  "parse_ipv6_loop n acc ell s = Some (acc', ell', r) \<Longrightarrow> length acc + 2 * n \<le> 16 \<Longrightarrow>
   ell_ok ell acc \<Longrightarrow> length acc' \<le> 16 \<and> ell_ok ell' acc'"
proof (induction n arbitrary: acc ell s)
  case (Suc n)
  obtain v r' where g: "hex_group s = Some (v, r')"
    using Suc.prems(1) by (auto split: option.splits)
  let ?acc = "acc @ [v div 256, v mod 256]"
  have ell: "ell_ok ell ?acc" "ell_ok (Some (length ?acc)) ?acc"
    using Suc.prems(3) by (simp_all add: ell_ok_mono) (simp add: ell_ok_def)
  consider (v4) fs where "has_prefix r' ''.''" "parse_ipv4_fields s = Some fs"
      "length acc + 4 \<le> 16" "acc' = acc @ fs" "ell' = ell"
    | (stop) "acc' = ?acc" "ell' = ell \<or> ell' = Some (length ?acc)"
    | (go) ell1 s1 where "parse_ipv6_loop n ?acc ell1 s1 = Some (acc', ell', r)"
      "ell1 = ell \<or> ell1 = Some (length ?acc)"
    using Suc.prems(1) by (auto simp: g Let_def split: if_splits option.splits)
  then show ?case
  proof cases
    case v4
    with Suc.prems(3) show ?thesis by (auto simp: ell_ok_mono dest: parse_ipv4_fields_length)
  next
    case stop
    with ell Suc.prems(2) show ?thesis by auto
  next
    case go
    with ell have "ell_ok ell1 ?acc" by auto
    with Suc.IH [OF go(1)] Suc.prems(2) show ?thesis by simp
  qed
qed auto

lemma parse_ipv6_length:
  assumes "parse_ipv6 s = Some a"
  shows "length a = 16"
proof (cases "has_prefix s ''::'' \<and> drop 2 s = []")
  case True
  with assms show ?thesis by (auto simp: parse_ipv6_def)
next
  case False
  then obtain e0 s0 acc ell where l: "parse_ipv6_loop 8 [] e0 s0 = Some (acc, ell, [])"
    and e0: "e0 = None \<or> e0 = Some 0"
    and a: "a = (if length acc < 16 then take (the ell) acc @ replicate (16 - length acc) 0
                   @ drop (the ell) acc else acc)"
    using assms by (auto simp: parse_ipv6_def Let_def split: if_splits option.splits)
  have "length acc \<le> 16 \<and> ell_ok ell acc"
    using parse_ipv6_loop_wf [OF l] e0 by (auto simp: ell_ok_def)
  then show ?thesis by (auto simp: a)
qed

lemma ParseIP_length: "ParseIP s = Some a \<Longrightarrow> length a = 16"
  by (auto simp: ParseIP_def v4_prefix_def dest: parse_ipv4_fields_length parse_ipv6_length
      split: option.splits if_splits)

end
