(* ===== verification/Breaker.thy ===== *)
theory Breaker
  imports Prelude
begin

text \<open>
  The per-upstream circuit breaker of \<open>src/internal/proxy/breaker.go\<close>.

  \<open>breaker\<close> is the Go struct without its mutex and clock: every method runs under
  \<open>b.mu\<close> from its first statement to its return, so a method call is one step of the
  state machine. The clock \<open>b.now\<close> is an argument; a method that can read it twice
  takes two readings \<open>t1\<close> and \<open>t2\<close>, in the order of the calls.
\<close>

subsection \<open>State and operations\<close>

datatype breakerState = breakerClosed | breakerOpen | breakerHalfOpen

record BreakerConfig =
  Failures :: int
  Window :: duration
  RecoveryWindow :: duration

record breaker =
  br_cfg :: BreakerConfig
  br_state :: breakerState
  consecutive :: int
  lastFailure :: time
  openedAt :: time
  probeInFlight :: bool

definition newBreaker :: "BreakerConfig \<Rightarrow> breaker" where
  "newBreaker cfg =
     (let cfg' =
        (if RecoveryWindow cfg \<le> 0 then
           (if Window cfg > 0 then cfg\<lparr>RecoveryWindow := Window cfg\<rparr>
            else cfg\<lparr>RecoveryWindow := 15 * second\<rparr>)
         else cfg)
      in \<lparr>br_cfg = cfg', br_state = breakerClosed, consecutive = 0,
          lastFailure = zeroTime, openedAt = zeroTime, probeInFlight = False\<rparr>)"

definition breaker_admit :: "time \<Rightarrow> time \<Rightarrow> breaker \<Rightarrow> (bool \<times> int) \<times> breaker" where
  [breaker_defs]: "breaker_admit t1 t2 b =
     (case br_state b of
        breakerClosed \<Rightarrow> ((True, 0), b)
      | breakerOpen \<Rightarrow>
          (if time_Sub t1 (openedAt b) \<ge> RecoveryWindow (br_cfg b) then
             ((True, 0), b\<lparr>br_state := breakerHalfOpen, probeInFlight := True\<rparr>)
           else
             (let retry = wrap64 (RecoveryWindow (br_cfg b) - time_Sub t2 (openedAt b));
                  secs = whole_seconds retry;
                  secs = (if secs < 1 then 1 else secs)
              in ((False, secs), b)))
      | breakerHalfOpen \<Rightarrow>
          (if \<not> probeInFlight b then ((True, 0), b\<lparr>probeInFlight := True\<rparr>)
           else
             (let secs = whole_seconds (RecoveryWindow (br_cfg b));
                  secs = (if secs < 1 then 1 else secs)
              in ((False, secs), b))))"

definition trip :: "time \<Rightarrow> breaker \<Rightarrow> breaker" where
  [breaker_defs]: "trip t b =
     b\<lparr>br_state := breakerOpen, openedAt := t, probeInFlight := False, consecutive := 0\<rparr>"

definition is_failure :: "int \<Rightarrow> bool" where
  "is_failure statusCode \<longleftrightarrow> statusCode \<ge> 500 \<and> statusCode \<le> 599"

definition breaker_report :: "int \<Rightarrow> time \<Rightarrow> time \<Rightarrow> breaker \<Rightarrow> breaker" where
  [breaker_defs]: "breaker_report statusCode t1 t2 b =
     (let failure = is_failure statusCode in
      case br_state b of
        breakerHalfOpen \<Rightarrow>
          (let b = b\<lparr>probeInFlight := False\<rparr> in
           if failure then trip t1 b
           else b\<lparr>br_state := breakerClosed, consecutive := 0, lastFailure := zeroTime\<rparr>)
      | breakerClosed \<Rightarrow>
          (if failure then
             (let b = (if Window (br_cfg b) > 0 \<and> \<not> time_IsZero (lastFailure b)
                          \<and> time_Sub t1 (lastFailure b) > Window (br_cfg b)
                       then b\<lparr>consecutive := 0\<rparr> else b);
                  b = b\<lparr>consecutive := consecutive b + 1\<rparr>;
                  b = b\<lparr>lastFailure := t1\<rparr>
              in if consecutive b \<ge> Failures (br_cfg b) then trip t2 b else b)
           else b\<lparr>consecutive := 0, lastFailure := zeroTime\<rparr>)
      | breakerOpen \<Rightarrow> (if failure then b\<lparr>openedAt := t1\<rparr> else b))"

text \<open>One call of either method, with the clock readings it makes.\<close>

datatype breaker_event = Admit time time | Report int time time

fun breaker_step :: "breaker \<Rightarrow> breaker_event \<Rightarrow> breaker" where
  "breaker_step b (Admit t1 t2) = snd (breaker_admit t1 t2 b)"
| "breaker_step b (Report c t1 t2) = breaker_report c t1 t2 b"

inductive breaker_reach :: "BreakerConfig \<Rightarrow> breaker \<Rightarrow> bool" for cfg where
  start: "breaker_reach cfg (newBreaker cfg)"
| step: "breaker_reach cfg b \<Longrightarrow> breaker_reach cfg (breaker_step b e)"

subsection \<open>The invariant\<close>

text \<open>
  The trip threshold is never reached without tripping, a half-open breaker always has its
  probe slot taken, and an open or half-open breaker carries no failure count.
\<close>

fun breaker_wf :: "breaker \<Rightarrow> bool" where
  "breaker_wf b \<longleftrightarrow>
     0 < Failures (br_cfg b) \<and> 0 < RecoveryWindow (br_cfg b) \<and>
     (case br_state b of
        breakerClosed \<Rightarrow> 0 \<le> consecutive b \<and> consecutive b < Failures (br_cfg b) \<and> \<not> probeInFlight b
      | breakerOpen \<Rightarrow> consecutive b = 0 \<and> \<not> probeInFlight b
      | breakerHalfOpen \<Rightarrow> consecutive b = 0 \<and> probeInFlight b)"

lemma newBreaker_wf: "0 < Failures cfg \<Longrightarrow> breaker_wf (newBreaker cfg)"
  by (auto simp: newBreaker_def Let_def)

lemma breaker_admit_cfg [simp]: "br_cfg (snd (breaker_admit t1 t2 b)) = br_cfg b"
  by (simp add: breaker_admit_def Let_def split: breakerState.split)

lemma breaker_report_cfg [simp]: "br_cfg (breaker_report c t1 t2 b) = br_cfg b"
  by (simp add: breaker_report_def trip_def Let_def split: breakerState.split)

lemma breaker_admit_wf: "breaker_wf b \<Longrightarrow> breaker_wf (snd (breaker_admit t1 t2 b))"
  by (auto simp: breaker_admit_def Let_def split: breakerState.splits)

lemma breaker_report_wf: "breaker_wf b \<Longrightarrow> breaker_wf (breaker_report c t1 t2 b)"
  by (auto simp: breaker_report_def trip_def Let_def split: breakerState.splits)

declare breaker_wf.simps [simp del]

lemma breaker_step_wf: "breaker_wf b \<Longrightarrow> breaker_wf (breaker_step b e)"
  by (cases e) (simp_all add: breaker_admit_wf breaker_report_wf)

lemma breaker_reach_wf: "breaker_reach cfg b \<Longrightarrow> 0 < Failures cfg \<Longrightarrow> breaker_wf b"
  by (induction rule: breaker_reach.induct) (simp_all add: newBreaker_wf breaker_step_wf)

text \<open>
  While half-open, \<open>admit\<close> rejects and changes nothing; a report always leaves half-open.
\<close>

lemma half_open_admit:
  assumes "breaker_wf b" and "br_state b = breakerHalfOpen"
  shows "\<not> fst (fst (breaker_admit t1 t2 b)) \<and> snd (breaker_admit t1 t2 b) = b"
  using assms by (simp add: breaker_wf.simps breaker_admit_def Let_def)

lemma report_not_half_open: "br_state (breaker_report c t1 t2 b) \<noteq> breakerHalfOpen"
  by (simp add: breaker_report_def trip_def Let_def split: breakerState.split)

subsection \<open>What trips the breaker\<close>

text \<open>
  The specification counts on the history instead of a counter: \<open>failure_run W h\<close> is the
  length of the run of 5xx outcomes at the head of the history \<open>h\<close> (newest first) in which
  consecutive outcomes are no more than \<open>W\<close> apart (any distance when \<open>W\<close> is not positive).
\<close>

type_synonym outcome = "int \<times> time \<times> time"

fun failure_run :: "duration \<Rightarrow> outcome list \<Rightarrow> int" where
  "failure_run W [] = 0"
| "failure_run W [(c, t, u)] = (if is_failure c then 1 else 0)"
| "failure_run W ((c, t, u) # (c', t', u') # older) =
     (if \<not> is_failure c then 0
      else if \<not> is_failure c' \<or> (W > 0 \<and> time_Sub t t' > W) then 1
      else failure_run W ((c', t', u') # older) + 1)"

definition run_reports :: "breaker \<Rightarrow> outcome list \<Rightarrow> breaker" where
  "run_reports b rs = foldl (\<lambda>b (c, t1, t2). breaker_report c t1 t2 b) b rs"

lemma run_reports_snoc:
  "run_reports b (rs @ [(c, t1, t2)]) = breaker_report c t1 t2 (run_reports b rs)"
  by (simp add: run_reports_def)

fun last_failure :: "outcome list \<Rightarrow> time" where
  "last_failure [] = zeroTime"
| "last_failure ((c, t, u) # _) = (if is_failure c then t else zeroTime)"

lemma failure_run_Cons:
  assumes "\<forall>(c, t, u) \<in> set hs. t \<noteq> zeroTime"
  shows "failure_run W ((c, t, u) # hs) =
     (if \<not> is_failure c then 0
      else if W > 0 \<and> \<not> time_IsZero (last_failure hs) \<and> time_Sub t (last_failure hs) > W then 1
      else failure_run W hs + 1)"
  using assms
  by (cases "(W, hs)" rule: failure_run.cases) (auto simp: time_IsZero_def zeroTime_def)

lemma run_reports_open:
  "br_state b = breakerOpen \<Longrightarrow> br_state (run_reports b rs) = breakerOpen"
  unfolding run_reports_def
  by (rule foldl_invariant) (auto simp: breaker_report_def Let_def)

lemma run_reports_cfg [simp]: "br_cfg (run_reports b rs) = br_cfg b"
  unfolding run_reports_def by (rule foldl_invariant) auto

lemma newBreaker_simps [simp]:
  "br_state (newBreaker cfg) = breakerClosed" "consecutive (newBreaker cfg) = 0"
  "lastFailure (newBreaker cfg) = zeroTime" "openedAt (newBreaker cfg) = zeroTime"
  "Failures (br_cfg (newBreaker cfg)) = Failures cfg"
  "Window (br_cfg (newBreaker cfg)) = Window cfg"
  by (simp_all add: newBreaker_def Let_def)

lemma run_reports_closed:
  assumes "\<forall>(c, t, u) \<in> set rs. t \<noteq> zeroTime"
    and "\<forall>p. prefix p rs \<longrightarrow> failure_run (Window cfg) (rev p) < Failures cfg"
  shows "br_state (run_reports (newBreaker cfg) rs) = breakerClosed
     \<and> consecutive (run_reports (newBreaker cfg) rs) = failure_run (Window cfg) (rev rs)
     \<and> lastFailure (run_reports (newBreaker cfg) rs) = last_failure (rev rs)"
  using assms
proof (induction rs rule: rev_induct)
  case Nil
  then show ?case by (simp add: run_reports_def)
next
  case (snoc r rs)
  obtain c t u where r: "r = (c, t, u)" by (cases r) auto
  have nz: "\<forall>(c, t, u) \<in> set (rev rs). t \<noteq> zeroTime" using snoc.prems(1) by auto
  have "failure_run (Window cfg) (rev (rs @ [r])) < Failures cfg"
    using snoc.prems(2) by blast
  then have "failure_run (Window cfg) ((c, t, u) # rev rs) < Failures cfg" by (simp add: r)
  with snoc.IH snoc.prems show ?case
    by (auto simp: r run_reports_snoc breaker_report_def Let_def failure_run_Cons [OF nz]
        split: if_splits)
qed

lemma run_reports_trip:
  assumes nz: "\<forall>(c, t, u) \<in> set (rs @ [r]). t \<noteq> zeroTime"
    and low: "\<forall>p. prefix p rs \<longrightarrow> failure_run (Window cfg) (rev p) < Failures cfg"
    and high: "Failures cfg \<le> failure_run (Window cfg) (rev (rs @ [r]))" and "0 < Failures cfg"
  shows "br_state (run_reports (newBreaker cfg) (rs @ [r])) = breakerOpen"
proof -
  obtain c t u where r: "r = (c, t, u)" by (cases r) auto
  have nz': "\<forall>(c, t, u) \<in> set (rev rs). t \<noteq> zeroTime" using nz by auto
  have "\<forall>(c, t, u) \<in> set rs. t \<noteq> zeroTime" using nz by auto
  note closed = run_reports_closed [OF this low]
  show ?thesis
    using closed high \<open>0 < Failures cfg\<close>
    by (auto simp: r run_reports_snoc breaker_report_def trip_def Let_def
        failure_run_Cons [OF nz'] split: if_splits)
qed

lemma run_reports_state:
  assumes "0 < Failures cfg" and "\<forall>(c, t, u) \<in> set rs. t \<noteq> zeroTime"
  shows "br_state (run_reports (newBreaker cfg) rs) =
     (if \<exists>p. prefix p rs \<and> Failures cfg \<le> failure_run (Window cfg) (rev p)
      then breakerOpen else breakerClosed)"
  using assms(2)
proof (induction rs rule: rev_induct)
  case Nil
  then show ?case using assms(1) by (simp add: run_reports_def)
next
  case (snoc r rs)
  let ?tripped = "\<lambda>rs. \<exists>p. prefix p rs \<and> Failures cfg \<le> failure_run (Window cfg) (rev p)"
  show ?case
  proof (cases "?tripped rs")
    case True
    then have "br_state (run_reports (newBreaker cfg) rs) = breakerOpen"
      using snoc by auto
    then have "br_state (run_reports (newBreaker cfg) (rs @ [r])) = breakerOpen"
      using run_reports_open [of "run_reports (newBreaker cfg) rs" "[r]"]
      by (simp add: run_reports_def)
    with True show ?thesis by (auto simp: prefix_snoc_iff)
  next
    case False
    then have low: "\<forall>p. prefix p rs \<longrightarrow> failure_run (Window cfg) (rev p) < Failures cfg"
      by (simp add: not_le)
    show ?thesis
    proof (cases "Failures cfg \<le> failure_run (Window cfg) (rev (rs @ [r]))")
      case True
      then show ?thesis
        using run_reports_trip [OF snoc.prems low True assms(1)] by auto
    next
      case False
      with low have "\<forall>p. prefix p (rs @ [r]) \<longrightarrow> failure_run (Window cfg) (rev p) < Failures cfg"
        by (auto simp: prefix_snoc_iff not_le)
      then show ?thesis
        using run_reports_closed [OF snoc.prems] by (auto simp: not_le)
    qed
  qed
qed

text \<open>
  In terms of the reports themselves: \<open>failure_block W run\<close> holds of reports, oldest first, that are
  all failures and whose neighbours are at most \<open>W\<close> apart. The run counted at the end of a history
  has length \<open>n\<close> or more exactly when the history ends with such a block of length \<open>n\<close>.
\<close>

definition failure_block :: "duration \<Rightarrow> outcome list \<Rightarrow> bool" where
  "failure_block W run \<longleftrightarrow> (\<forall>(c, t, u) \<in> set run. is_failure c) \<and>
     (W > 0 \<longrightarrow> successively (\<lambda>(c, t, u) (c', t', u'). time_Sub t' t \<le> W) run)"

lemma failure_block_Nil [simp]: "failure_block W []"
  by (simp add: failure_block_def)

lemma failure_block_snoc2:
  "failure_block W (run @ [(c', t', u'), (c, t, u)]) \<longleftrightarrow>
     is_failure c \<and> (W > 0 \<longrightarrow> time_Sub t t' \<le> W) \<and> failure_block W (run @ [(c', t', u')])"
  by (auto simp: failure_block_def successively_append_iff)

lemma failure_block_suffix: "failure_block W (xs @ ys) \<Longrightarrow> failure_block W ys"
  by (auto simp: failure_block_def successively_append_iff)

lemma failure_block_single [simp]: "failure_block W [(c, t, u)] \<longleftrightarrow> is_failure c"
  by (simp add: failure_block_def)

lemma failure_run_nonneg: "0 \<le> failure_run W h"
  by (induction W h rule: failure_run.induct) auto

lemma failure_run_take:
  "int (Suc n) \<le> failure_run W h \<longleftrightarrow> n < length h \<and> failure_block W (rev (take (Suc n) h))"
proof (induction W h arbitrary: n rule: failure_run.induct)
  case (3 W c t u c' t' u' older)
  let ?h = "(c', t', u') # older"
  show ?case
  proof (cases n)
    case 0
    then show ?thesis using failure_run_nonneg [of W ?h] by auto
  next
    case (Suc m)
    have hd: "failure_block W (rev (take (Suc m) ?h)) \<Longrightarrow> is_failure c'"
      by (simp add: failure_block_def)
    have "int (Suc n) \<le> failure_run W ((c, t, u) # ?h) \<longleftrightarrow>
        is_failure c \<and> is_failure c' \<and> (W > 0 \<longrightarrow> time_Sub t t' \<le> W) \<and> int (Suc m) \<le> failure_run W ?h"
      using Suc by auto
    also have "\<dots> \<longleftrightarrow> n < length ((c, t, u) # ?h) \<and> failure_block W (rev (take (Suc n) ((c, t, u) # ?h)))"
      using "3.IH" [of m] hd failure_block_snoc2 [of W "rev (take m older)" c' t' u' c t u]
      by (cases "is_failure c \<and> is_failure c' \<and> (W > 0 \<longrightarrow> time_Sub t t' \<le> W)") (auto simp: Suc)
    finally show ?thesis .
  qed
qed auto

lemma failure_run_block:
  assumes "n \<le> failure_run W (rev p)" and "0 < n"
  shows "\<exists>pre run. p = pre @ run \<and> int (length run) = n \<and> failure_block W run"
proof -
  obtain m where m: "n = int (Suc m)" using assms(2) by (metis Suc_pred pos_int_cases)
  then have "m < length p" "failure_block W (drop (length p - Suc m) p)"
    using assms(1) failure_run_take [of m W "rev p"] by (simp_all add: take_rev)
  then show ?thesis
    by (intro exI [of _ "take (length p - Suc m) p"] exI [of _ "drop (length p - Suc m) p"])
      (simp add: m)
qed

lemma failure_run_ge:
  "failure_block W (run @ [r]) \<Longrightarrow> int (length run) + 1 \<le> failure_run W (rev (pre @ run @ [r]))"
  using failure_run_take [of "length run" W "rev (pre @ run @ [r])"] by simp

lemma time_Sub_mono: "t \<le> t' \<Longrightarrow> time_Sub t u \<le> time_Sub t' u"
  by (auto simp: time_Sub_def)

lemma successively_all: "\<forall>x \<in> set xs. \<forall>y \<in> set xs. P x y \<Longrightarrow> successively P xs"
  by (simp add: successively_conv_nth)

lemma failure_block_within:
  assumes "sorted (map (\<lambda>(c, t, u). t) (run @ [(c', t', u')]))"
    and "\<forall>(c, t, u) \<in> set (run @ [(c', t', u')]). is_failure c \<and> (W > 0 \<longrightarrow> time_Sub t' t \<le> W)"
  shows "failure_block W (run @ [(c', t', u')])"
proof -
  have "time_Sub t2 t1 \<le> W"
    if "0 < W" "(c1, t1, u1) \<in> set (run @ [(c', t', u')])" "(c2, t2, u2) \<in> set (run @ [(c', t', u')])"
    for c1 t1 u1 c2 t2 u2
  proof -
    have "t2 \<le> t'" using that(3) assms(1) by (force simp: sorted_append)
    then have "time_Sub t2 t1 \<le> time_Sub t' t1" by (rule time_Sub_mono)
    also have "\<dots> \<le> W" using that assms(2) by blast
    finally show ?thesis .
  qed
  then have "W > 0 \<longrightarrow> successively (\<lambda>(c, t, u) (c', t', u'). time_Sub t' t \<le> W) (run @ [(c', t', u')])"
    by (intro impI successively_all) (auto simp del: set_append)
  then show ?thesis using assms(2) by (auto simp: failure_block_def)
qed

subsection \<open>Admission\<close>

fun admit_verdicts :: "breaker \<Rightarrow> (time \<times> time) list \<Rightarrow> bool list" where
  "admit_verdicts b [] = []"
| "admit_verdicts b ((t1, t2) # ts) =
     fst (fst (breaker_admit t1 t2 b)) # admit_verdicts (snd (breaker_admit t1 t2 b)) ts"

lemma half_open_verdicts:
  assumes "breaker_wf b" and "br_state b = breakerHalfOpen"
  shows "admit_verdicts b ts = replicate (length ts) False"
  using half_open_admit [OF assms] by (induction ts) auto

definition recovery_due :: "time \<Rightarrow> breaker \<Rightarrow> bool" where
  "recovery_due t b \<longleftrightarrow> RecoveryWindow (br_cfg b) \<le> time_Sub t (openedAt b)"

lemma open_admit_due:
  "br_state b = breakerOpen \<Longrightarrow> recovery_due t1 b \<Longrightarrow>
   breaker_admit t1 t2 b = ((True, 0), b\<lparr>br_state := breakerHalfOpen, probeInFlight := True\<rparr>)"
  by (simp add: breaker_admit_def recovery_due_def)

lemma open_admit_early:
  assumes "br_state b = breakerOpen" and "\<not> recovery_due t1 b"
  obtains n where "breaker_admit t1 t2 b = ((False, n), b)" "1 \<le> n"
  using assms by (auto simp: breaker_admit_def recovery_due_def Let_def)

lemma breaker_reach_cfg: "breaker_reach cfg b \<Longrightarrow> br_cfg b = br_cfg (newBreaker cfg)"
proof (induction rule: breaker_reach.induct)
  case (step b e)
  then show ?case by (cases e) simp_all
qed simp

lemma newBreaker_int64:
  "in_int64 (Window cfg) \<Longrightarrow> in_int64 (RecoveryWindow cfg) \<Longrightarrow>
   in_int64 (RecoveryWindow (br_cfg (newBreaker cfg)))"
  by (auto simp: newBreaker_def Let_def in_int64_def int64_min_def int64_max_def second_def)

subsection \<open>Properties\<close>

definition example_cfg :: BreakerConfig where
  "example_cfg = \<lparr>Failures = 2, Window = 30 * second, RecoveryWindow = 0\<rparr>"

definition example_open :: breaker where
  "example_open = run_reports (newBreaker example_cfg) [(500, 1, 1), (503, 2, 3)]"

lemma example_open_reach: "breaker_reach example_cfg example_open"
  using breaker_reach.step [OF breaker_reach.step [OF breaker_reach.start], of example_cfg
      "Report 500 1 1" "Report 503 2 3"]
  by (simp add: example_open_def run_reports_def)

lemmas example_simps = example_cfg_def example_open_def run_reports_def newBreaker_def
  breaker_report_def trip_def Let_def is_failure_def time_Sub_def time_IsZero_def zeroTime_def
  int64_min_def int64_max_def second_def

text \<open>
  C11: In every state a breaker can reach by any sequence of \<open>admit\<close> and \<open>report\<close> calls,
  at any clock readings, the failure count stays below the threshold while closed, open and
  half-open states carry a zero count, and half-open has its probe slot taken.
\<close>

theorem breaker_invariant:
  assumes "0 < Failures cfg" and "breaker_reach cfg b"
  shows "breaker_wf b"
  using assms breaker_reach_wf by blast

theorem breaker_invariant_witness: "breaker_wf example_open"
proof -
  have "0 < Failures example_cfg" by (simp add: example_cfg_def)
  from breaker_invariant [OF this example_open_reach] show ?thesis .
qed

text \<open>
  C10: What trips a breaker that has seen only reports. It is closed or open; when it is open the
  reports contain \<open>Failures\<close> consecutive 5xx outcomes, no two neighbours of which are more than
  \<open>Window\<close> apart when \<open>Window\<close> is set; and as soon as the reports contain \<open>Failures\<close> consecutive 5xx
  outcomes that, when \<open>Window\<close> is set, are all within \<open>Window\<close> of the last of them, it is open.
\<close>

theorem breaker_trips:
  assumes "0 < Failures cfg" and "\<forall>(c, t, u) \<in> set rs. t \<noteq> zeroTime"
    and "sorted (map (\<lambda>(c, t, u). t) rs)"
  shows "br_state (run_reports (newBreaker cfg) rs) \<in> {breakerClosed, breakerOpen}
     \<and> (br_state (run_reports (newBreaker cfg) rs) = breakerOpen \<longrightarrow>
          (\<exists>pre run post. rs = pre @ run @ post \<and> int (length run) = Failures cfg
             \<and> (\<forall>(c, t, u) \<in> set run. is_failure c)
             \<and> (Window cfg > 0 \<longrightarrow>
                  successively (\<lambda>(c, t, u) (c', t', u'). time_Sub t' t \<le> Window cfg) run)))
     \<and> (\<forall>pre run c' t' u' post.
          rs = pre @ (run @ [(c', t', u')]) @ post \<and> int (length run) + 1 = Failures cfg
          \<and> (\<forall>(c, t, u) \<in> set (run @ [(c', t', u')]).
               is_failure c \<and> (Window cfg > 0 \<longrightarrow> time_Sub t' t \<le> Window cfg))
          \<longrightarrow> br_state (run_reports (newBreaker cfg) rs) = breakerOpen)"
proof (intro conjI impI allI)
  note state = run_reports_state [OF assms(1,2)]
  show "br_state (run_reports (newBreaker cfg) rs) \<in> {breakerClosed, breakerOpen}"
    by (simp add: state)
  show "\<exists>pre run post. rs = pre @ run @ post \<and> int (length run) = Failures cfg
      \<and> (\<forall>(c, t, u) \<in> set run. is_failure c)
      \<and> (Window cfg > 0 \<longrightarrow>
           successively (\<lambda>(c, t, u) (c', t', u'). time_Sub t' t \<le> Window cfg) run)"
    if tripped: "br_state (run_reports (newBreaker cfg) rs) = breakerOpen"
  proof -
    obtain p where p: "prefix p rs" "Failures cfg \<le> failure_run (Window cfg) (rev p)"
      using tripped state by (metis (no_types, lifting) breakerState.distinct(1))
    from failure_run_block [OF p(2) assms(1)] obtain pre run
      where "p = pre @ run" "int (length run) = Failures cfg" "failure_block (Window cfg) run" by auto
    moreover obtain post where "rs = p @ post" using p(1) by (auto simp: prefix_def)
    ultimately show ?thesis
      unfolding failure_block_def by (intro exI [of _ pre] exI [of _ run] exI [of _ post]) simp
  qed
  fix pre run c' t' u' post
  assume r: "rs = pre @ (run @ [(c', t', u')]) @ post \<and> int (length run) + 1 = Failures cfg
      \<and> (\<forall>(c, t, u) \<in> set (run @ [(c', t', u')]).
           is_failure c \<and> (Window cfg > 0 \<longrightarrow> time_Sub t' t \<le> Window cfg))"
  have "failure_block (Window cfg) (run @ [(c', t', u')])"
    by (rule failure_block_within) (use r assms(3) in \<open>auto simp: sorted_append\<close>)
  then have "Failures cfg \<le> failure_run (Window cfg) (rev (pre @ run @ [(c', t', u')]))"
    using failure_run_ge [of "Window cfg" run "(c', t', u')" pre] r by simp
  moreover have "prefix (pre @ run @ [(c', t', u')]) rs" using r by simp
  ultimately show "br_state (run_reports (newBreaker cfg) rs) = breakerOpen"
    using state by (metis (no_types, lifting))
qed

theorem breaker_trips_witness:
  "br_state (run_reports (newBreaker example_cfg) [(500, 1, 1), (503, 2, 3)]) = breakerOpen"
proof -
  let ?rs = "[(500, 1, 1), (503, 2, 3)] :: outcome list"
  have F: "0 < Failures example_cfg" by (simp add: example_cfg_def)
  have nz: "\<forall>(c, t, u) \<in> set ?rs. t \<noteq> zeroTime" by (simp add: zeroTime_def)
  have so: "sorted (map (\<lambda>(c, t, u). t) ?rs)" by simp
  have "?rs = [] @ ([(500, 1, 1)] @ [(503, 2, 3)]) @ []
      \<and> int (length ([(500, 1, 1)] :: outcome list)) + 1 = Failures example_cfg
      \<and> (\<forall>(c, t, u) \<in> set ([(500, 1, 1)] @ [(503, 2, 3)] :: outcome list).
           is_failure c \<and> (Window example_cfg > 0 \<longrightarrow> time_Sub 2 t \<le> Window example_cfg))"
    by (simp add: example_simps)
  then show ?thesis using breaker_trips [OF F nz so] by blast
qed

text \<open>
  The window bounds the gap between neighbouring failures, not the span of the run: five failures
  20 seconds apart trip a breaker with \<open>Failures\<close> 5 and a \<open>Window\<close> of 30 seconds, although the first
  three are older than \<open>Window\<close> when the last one is reported.
\<close>

lemma breaker_window_is_gap:
  "br_state (run_reports (newBreaker \<lparr>Failures = 5, Window = 30 * second, RecoveryWindow = 0\<rparr>)
     (map (\<lambda>i. (500, i * 20 * second, i * 20 * second)) [1, 2, 3, 4, 5])) = breakerOpen"
  by (simp add: example_simps)

text \<open>
  When the recovery window has elapsed, an open breaker admits the first request and,
  until some request reports its outcome, rejects every other one: exactly one probe.
\<close>

lemma breaker_single_probe:
  assumes "0 < Failures cfg" and "breaker_reach cfg b"
    and "br_state b = breakerOpen" and "recovery_due t1 b"
  shows "admit_verdicts b ((t1, t2) # ts) = True # replicate (length ts) False"
proof -
  let ?b' = "b\<lparr>br_state := breakerHalfOpen, probeInFlight := True\<rparr>"
  have adm: "breaker_admit t1 t2 b = ((True, 0), ?b')"
    using assms(3,4) by (rule open_admit_due)
  have "breaker_wf ?b'"
    using breaker_admit_wf [OF breaker_reach_wf [OF assms(2,1)], of t1 t2] by (simp add: adm)
  then show ?thesis by (simp add: adm half_open_verdicts)
qed

text \<open>
  C12: Life cycle of an open breaker. Before the recovery window has elapsed it rejects and
  does not move. Afterwards it admits a probe: a 5xx outcome re-opens it at that moment, any
  other outcome closes it with its failure history cleared.
\<close>

theorem breaker_recovery:
  assumes "0 < Failures cfg" and "breaker_reach cfg b" and "br_state b = breakerOpen"
  shows "(\<not> recovery_due t1 b \<longrightarrow> (\<exists>n \<ge> 1. breaker_admit t1 t2 b = ((False, n), b)))
     \<and> (recovery_due t1 b \<longrightarrow>
          (\<exists>b'. breaker_admit t1 t2 b = ((True, 0), b') \<and>
             breaker_report c t3 t4 b' =
               (if is_failure c then b\<lparr>openedAt := t3\<rparr>
                else b\<lparr>br_state := breakerClosed, lastFailure := zeroTime\<rparr>)))"
proof -
  have wf: "breaker_wf b" using breaker_reach_wf assms(1,2) by blast
  then have "consecutive b = 0" "\<not> probeInFlight b"
    using assms(3) by (auto simp: breaker_wf.simps)
  then show ?thesis
    using assms(3) open_admit_due [OF assms(3)]
    by (auto elim: open_admit_early [OF assms(3)] simp: breaker_report_def trip_def)
qed

theorem breaker_recovery_witness:
  "breaker_report 200 (32 * second) (32 * second)
     (snd (breaker_admit (31 * second) (31 * second) example_open))
   = example_open\<lparr>br_state := breakerClosed, lastFailure := zeroTime\<rparr>"
proof -
  have F: "0 < Failures example_cfg" by (simp add: example_cfg_def)
  have st: "br_state example_open = breakerOpen" and due: "recovery_due (31 * second) example_open"
    by (simp_all add: example_simps recovery_due_def)
  show ?thesis
    using breaker_recovery [OF F example_open_reach st, of "31 * second" "31 * second" 200
        "32 * second" "32 * second"] due
    by (auto simp: is_failure_def)
qed

text \<open>
  The \<open>Retry-After\<close> value of a rejection is at least one second and, when the clock has
  not run backwards since the breaker opened, at most the recovery window (or one second).
\<close>

lemma breaker_retry_after_bounds:
  assumes "0 < Failures cfg" and "breaker_reach cfg b"
    and "in_int64 (Window cfg)" and "in_int64 (RecoveryWindow cfg)" and "openedAt b \<le> t2"
    and "breaker_admit t1 t2 b = ((False, n), b')"
  shows "b' = b \<and> 1 \<le> n \<and> n \<le> max 1 (whole_seconds (RecoveryWindow (br_cfg b)))"
proof -
  have rw: "0 < RecoveryWindow (br_cfg b)"
    using breaker_reach_wf [OF assms(2,1)] by (simp add: breaker_wf.simps)
  have w64: "in_int64 (RecoveryWindow (br_cfg b))"
    using assms(3,4) breaker_reach_cfg [OF assms(2)] newBreaker_int64 by simp
  let ?e = "time_Sub t2 (openedAt b)"
  have e: "0 \<le> ?e" "in_int64 ?e" using assms(5) by (simp_all add: time_Sub_nonneg time_Sub_range)
  then have "in_int64 (RecoveryWindow (br_cfg b) - ?e)"
    using w64 rw by (simp add: in_int64_def int64_min_def int64_max_def)
  then have wr: "wrap64 (RecoveryWindow (br_cfg b) - ?e) = RecoveryWindow (br_cfg b) - ?e"
    by simp
  have le: "whole_seconds (RecoveryWindow (br_cfg b) - ?e) \<le> max 1 (whole_seconds (RecoveryWindow (br_cfg b)))"
  proof (cases "0 \<le> RecoveryWindow (br_cfg b) - ?e")
    case True
    then show ?thesis using e by (intro max.coboundedI2 whole_seconds_mono) auto
  next
    case False
    then have "whole_seconds (RecoveryWindow (br_cfg b) - ?e) \<le> 0"
      by (simp add: whole_seconds_def pos_imp_zdiv_nonneg_iff)
    then show ?thesis by simp
  qed
  show ?thesis
    using assms(6) le
    by (auto simp: breaker_admit_def wr Let_def split: breakerState.splits if_splits)
qed

end
