(* ===== verification/Config.thy ===== *)
theory Config
  imports Go_Net Breaker
begin

text \<open>
  The configuration of \<open>src/internal/config/config.go\<close>: its data, the built-in defaults, the
  environment overrides, validation and the longest-prefix routing of \<open>Match\<close>.

  What comes from outside the package is an argument: \<open>url_ok\<close> (whether \<open>url.Parse\<close> succeeds),
  \<open>parse_float\<close> (\<open>strconv.ParseFloat\<close>), \<open>env\<close> (\<open>os.LookupEnv\<close>), \<open>read_file\<close> (\<open>os.ReadFile\<close>)
  and \<open>yaml\<close> (\<open>yaml.Unmarshal\<close> into a configuration). The text of an error message is a value
  of \<open>config_error\<close>.
\<close>

subsection \<open>Data\<close>

text \<open>A \<open>float64\<close> as far as comparisons see it.\<close>

datatype float64 = NaN | PosInf | NegInf | Fin rat

fun float_less :: "float64 \<Rightarrow> float64 \<Rightarrow> bool" where
  "float_less NaN _ \<longleftrightarrow> False"
| "float_less _ NaN \<longleftrightarrow> False"
| "float_less NegInf y \<longleftrightarrow> y \<noteq> NegInf"
| "float_less PosInf _ \<longleftrightarrow> False"
| "float_less (Fin _) PosInf \<longleftrightarrow> True"
| "float_less (Fin _) NegInf \<longleftrightarrow> False"
| "float_less (Fin x) (Fin y) \<longleftrightarrow> x < y"

record Auth =
  Tokens :: "bytes list"
  Header :: bytes

record Pricing =
  pr_Path :: bytes
  FailOpen :: bool

record Request =
  MaxBodyBytes :: int

record TLS =
  CertFile :: bytes
  KeyFile :: bytes
  ClientCAFile :: bytes

record Upstream =
  u_Name :: bytes
  u_Prefix :: bytes
  u_Target :: bytes
  u_Provider :: bytes
  MaxInFlight :: int
  PinSHA256 :: "bytes list"
  u_Breaker :: BreakerConfig

type_synonym Headers = "(bytes \<times> bytes) list"

record Telemetry =
  Endpoint :: bytes
  Protocol :: bytes
  Insecure :: bool
  t_Headers :: Headers
  SampleRatio :: float64
  t_Timeout :: duration
  AcknowledgeInsecure :: bool

record ContentCapture =
  c_Mode :: bytes
  c_Redact :: bytes

record HTTPTimeouts =
  ReadHeaderTimeout :: duration
  IdleTimeout :: duration
  ShutdownTimeout :: duration
  BodyReadTimeout :: duration
  CertReloadInterval :: duration

record Service =
  s_Name :: bytes
  s_Namespace :: bytes
  s_Env :: bytes

record Config =
  Listen :: bytes
  AllowInsecure :: bool
  cfg_TLS :: TLS
  Upstreams :: "Upstream list"
  cfg_Telemetry :: Telemetry
  cfg_Content :: ContentCapture
  cfg_HTTP :: HTTPTimeouts
  cfg_Service :: Service
  cfg_Request :: Request
  cfg_Pricing :: Pricing
  cfg_Auth :: Auth

definition Auth_Enabled :: "Auth \<Rightarrow> bool" where
  "Auth_Enabled a \<longleftrightarrow> length (Tokens a) > 0"

definition HeaderName :: "Auth \<Rightarrow> bytes" where
  "HeaderName a = (if Header a = [] then ''X-LLMTAP-Token'' else Header a)"

definition TLS_Enabled :: "TLS \<Rightarrow> bool" where
  "TLS_Enabled t \<longleftrightarrow> CertFile t \<noteq> [] \<or> KeyFile t \<noteq> []"

definition MTLS :: "TLS \<Rightarrow> bool" where
  "MTLS t \<longleftrightarrow> ClientCAFile t \<noteq> []"

definition ProtoGRPC :: bytes where "ProtoGRPC = ''grpc''"
definition ProtoHTTP :: bytes where "ProtoHTTP = ''http''"
definition CaptureOff :: bytes where "CaptureOff = ''off''"
definition CaptureEvents :: bytes where "CaptureEvents = ''events''"
definition CaptureLogs :: bytes where "CaptureLogs = ''logs''"
definition ProviderOpenAI :: bytes where "ProviderOpenAI = ''openai''"
definition ProviderAnthropic :: bytes where "ProviderAnthropic = ''anthropic''"

lemmas config_consts = ProtoGRPC_def ProtoHTTP_def CaptureOff_def CaptureEvents_def
  CaptureLogs_def ProviderOpenAI_def ProviderAnthropic_def

subsection \<open>Defaults\<close>

definition zero_breaker_cfg :: BreakerConfig where
  "zero_breaker_cfg = \<lparr>Failures = 0, Window = 0, RecoveryWindow = 0\<rparr>"

definition zero_Upstream :: Upstream where
  "zero_Upstream = \<lparr>u_Name = [], u_Prefix = [], u_Target = [], u_Provider = [],
     MaxInFlight = 0, PinSHA256 = [], u_Breaker = zero_breaker_cfg\<rparr>"

definition Default :: Config where
  "Default =
     \<lparr>Listen = ''127.0.0.1:4000'',
      AllowInsecure = False,
      cfg_TLS = \<lparr>CertFile = [], KeyFile = [], ClientCAFile = []\<rparr>,
      Upstreams =
        [zero_Upstream\<lparr>u_Name := ''openai'', u_Prefix := ''/v1'',
           u_Target := ''https://api.openai.com'', u_Provider := ProviderOpenAI\<rparr>,
         zero_Upstream\<lparr>u_Name := ''anthropic'', u_Prefix := ''/anthropic'',
           u_Target := ''https://api.anthropic.com'', u_Provider := ProviderAnthropic\<rparr>],
      cfg_Telemetry =
        \<lparr>Endpoint = ''localhost:4317'', Protocol = ProtoGRPC, Insecure = True, t_Headers = [],
         SampleRatio = Fin 1, t_Timeout = 10 * second, AcknowledgeInsecure = False\<rparr>,
      cfg_Content = \<lparr>c_Mode = CaptureOff, c_Redact = ''default''\<rparr>,
      cfg_HTTP =
        \<lparr>ReadHeaderTimeout = 30 * second, IdleTimeout = 120 * second,
         ShutdownTimeout = 30 * second, BodyReadTimeout = 30 * second,
         CertReloadInterval = 30 * second\<rparr>,
      cfg_Service = \<lparr>s_Name = ''llmtap'', s_Namespace = ''observability'', s_Env = ''dev''\<rparr>,
      cfg_Request = \<lparr>MaxBodyBytes = 32 * 1024 * 1024\<rparr>,
      cfg_Pricing = \<lparr>pr_Path = [], FailOpen = False\<rparr>,
      cfg_Auth = \<lparr>Tokens = [], Header = []\<rparr>\<rparr>"

subsection \<open>Environment overrides\<close>

type_synonym environment = "bytes \<Rightarrow> bytes option"

definition env_apply :: "environment \<Rightarrow> bytes \<Rightarrow> (bytes \<Rightarrow> 'a \<Rightarrow> 'a) \<Rightarrow> 'a \<Rightarrow> 'a" where
  "env_apply env k f c = (case env k of None \<Rightarrow> c | Some v \<Rightarrow> f v c)"

definition header_put :: "bytes \<Rightarrow> bytes \<Rightarrow> Headers \<Rightarrow> Headers" where
  "header_put k v hs = (k, v) # filter (\<lambda>p. fst p \<noteq> k) hs"

fun parse_headers :: "bytes list \<Rightarrow> Headers \<Rightarrow> Headers" where
  "parse_headers [] hs = hs"
| "parse_headers (p # ps) hs =
     (let pair = trim_space p in
      if pair = [] then parse_headers ps hs
      else case cut_on CHR ''='' pair of
             None \<Rightarrow> parse_headers ps hs
           | Some (k, val) \<Rightarrow> parse_headers ps (header_put (trim_space k) (trim_space val) hs))"

definition clamp_ratio :: "float64 \<Rightarrow> float64" where
  "clamp_ratio f =
     (if float_less f (Fin 0) then Fin 0 else if float_less (Fin 1) f then Fin 1 else f)"

definition upd_TLS :: "(TLS \<Rightarrow> TLS) \<Rightarrow> Config \<Rightarrow> Config" where
  "upd_TLS f c = c\<lparr>cfg_TLS := f (cfg_TLS c)\<rparr>"

definition upd_Telemetry :: "(Telemetry \<Rightarrow> Telemetry) \<Rightarrow> Config \<Rightarrow> Config" where
  "upd_Telemetry f c = c\<lparr>cfg_Telemetry := f (cfg_Telemetry c)\<rparr>"

definition upd_Service :: "(Service \<Rightarrow> Service) \<Rightarrow> Config \<Rightarrow> Config" where
  "upd_Service f c = c\<lparr>cfg_Service := f (cfg_Service c)\<rparr>"

text \<open>\<open>applyEnv\<close>: one clause per variable, in the order of the source.\<close>

definition applyEnv :: "(bytes \<Rightarrow> float64 option) \<Rightarrow> environment \<Rightarrow> Config \<Rightarrow> Config" where
  "applyEnv parse_float env c =
     (let c = env_apply env ''LLMTAP_LISTEN'' (\<lambda>v c. c\<lparr>Listen := v\<rparr>) c;
          c = env_apply env ''LLMTAP_ALLOW_INSECURE'' (\<lambda>v c.
                case parse_bool v of None \<Rightarrow> c | Some b \<Rightarrow> c\<lparr>AllowInsecure := b\<rparr>) c;
          c = env_apply env ''LLMTAP_TLS_CERT_FILE'' (\<lambda>v. upd_TLS (\<lambda>t. t\<lparr>CertFile := v\<rparr>)) c;
          c = env_apply env ''LLMTAP_TLS_KEY_FILE'' (\<lambda>v. upd_TLS (\<lambda>t. t\<lparr>KeyFile := v\<rparr>)) c;
          c = env_apply env ''LLMTAP_TLS_CLIENT_CA_FILE''
                (\<lambda>v. upd_TLS (\<lambda>t. t\<lparr>ClientCAFile := v\<rparr>)) c;
          c = env_apply env ''LLMTAP_OTLP_ENDPOINT''
                (\<lambda>v. upd_Telemetry (\<lambda>t. t\<lparr>Endpoint := v\<rparr>)) c;
          c = env_apply env ''LLMTAP_OTLP_PROTOCOL''
                (\<lambda>v. upd_Telemetry (\<lambda>t. t\<lparr>Protocol := v\<rparr>)) c;
          c = env_apply env ''LLMTAP_OTLP_INSECURE'' (\<lambda>v c.
                case parse_bool v of
                  None \<Rightarrow> c
                | Some b \<Rightarrow> upd_Telemetry (\<lambda>t. t\<lparr>Insecure := b\<rparr>) c) c;
          c = env_apply env ''LLMTAP_OTLP_HEADERS'' (\<lambda>v c.
                let headers = parse_headers (split_on CHR '','' v) [] in
                if length headers > 0 then upd_Telemetry (\<lambda>t. t\<lparr>t_Headers := headers\<rparr>) c
                else c) c;
          c = env_apply env ''LLMTAP_SAMPLE_RATIO'' (\<lambda>v c.
                case parse_float v of
                  None \<Rightarrow> c
                | Some f \<Rightarrow> upd_Telemetry (\<lambda>t. t\<lparr>SampleRatio := clamp_ratio f\<rparr>) c) c;
          c = env_apply env ''LLMTAP_CAPTURE'' (\<lambda>v c.
                c\<lparr>cfg_Content := (cfg_Content c)\<lparr>c_Mode := v\<rparr>\<rparr>) c;
          c = env_apply env ''LLMTAP_SERVICE_NAME''
                (\<lambda>v. upd_Service (\<lambda>s. s\<lparr>s_Name := v\<rparr>)) c;
          c = env_apply env ''LLMTAP_SERVICE_NAMESPACE''
                (\<lambda>v. upd_Service (\<lambda>s. s\<lparr>s_Namespace := v\<rparr>)) c;
          c = env_apply env ''LLMTAP_ENV'' (\<lambda>v. upd_Service (\<lambda>s. s\<lparr>s_Env := v\<rparr>)) c
      in c)"

subsection \<open>Address and prefix predicates\<close>

definition isLocalEndpoint :: "bytes \<Rightarrow> bool" where
  "isLocalEndpoint endpoint =
     (let s = (case index_of ''://'' endpoint of
                 Some idx \<Rightarrow> drop (idx + 3) endpoint | None \<Rightarrow> endpoint);
          host = (case SplitHostPort s of Some (h, _) \<Rightarrow> h | None \<Rightarrow> s)
      in if host = [] then False
         else if equal_fold host ''localhost'' then True
         else case ParseIP host of None \<Rightarrow> False | Some a \<Rightarrow> IsLoopback a \<or> IsPrivate a)"

definition isLoopbackAddr :: "bytes \<Rightarrow> bool" where
  "isLoopbackAddr listen =
     (case SplitHostPort listen of
        None \<Rightarrow> False
      | Some (host, _) \<Rightarrow>
          (if host = [] then False
           else if equal_fold host ''localhost'' then True
           else case ParseIP host of None \<Rightarrow> False | Some a \<Rightarrow> IsLoopback a))"

definition reserved_prefixes :: "bytes list" where
  "reserved_prefixes = [''/healthz'', ''/readyz'']"

definition isReservedPrefix :: "bytes \<Rightarrow> bool" where
  "isReservedPrefix p \<longleftrightarrow>
     list_ex (\<lambda>r. p = r \<or> has_prefix p (r @ ''/'')) reserved_prefixes"

definition isHex64 :: "bytes \<Rightarrow> bool" where
  "isHex64 s \<longleftrightarrow> length s = 64 \<and> list_all (\<lambda>c. hex_val c \<noteq> None) s"

subsection \<open>Validation\<close>

datatype config_error =
    ListenEmpty
  | KeyFileRequired
  | CertFileRequired
  | ClientCARequiresTLS
  | PlaintextListen bytes
  | NoUpstreams
  | NameRequired nat
  | PrefixSlash nat
  | PrefixReserved nat bytes
  | PrefixDuplicate nat bytes bytes
  | TargetInvalid nat bytes
  | ProviderUnsupported nat bytes
  | PinNotHex nat nat bytes
  | BreakerFailures nat int
  | BreakerWindow nat duration
  | BreakerRecovery nat duration
  | ProtocolUnknown bytes
  | SampleRatioRange float64
  | PlaintextEndpoint bytes
  | ModeUnknown bytes
  | RedactUnknown bytes

definition err_if :: "bool \<Rightarrow> config_error \<Rightarrow> config_error list" where
  "err_if b e = (if b then [e] else [])"

fun pin_errors :: "nat \<Rightarrow> nat \<Rightarrow> bytes list \<Rightarrow> config_error list" where
  "pin_errors i j [] = []"
| "pin_errors i j (p # ps) = err_if (\<not> isHex64 p) (PinNotHex i j p) @ pin_errors i (Suc j) ps"

text \<open>One turn of the loop over the upstreams; \<open>seen\<close> is the map \<open>seenPrefix\<close>.\<close>

definition upstream_errors ::
  "(bytes \<Rightarrow> bool) \<Rightarrow> nat \<Rightarrow> (bytes \<rightharpoonup> bytes) \<Rightarrow> Upstream \<Rightarrow> config_error list" where
  "upstream_errors url_ok i seen u =
     err_if (u_Name u = []) (NameRequired i)
     @ err_if (\<not> has_prefix (u_Prefix u) ''/'') (PrefixSlash i)
     @ err_if (isReservedPrefix (u_Prefix u)) (PrefixReserved i (u_Prefix u))
     @ (case seen (u_Prefix u) of
          Some other \<Rightarrow> [PrefixDuplicate i (u_Prefix u) other] | None \<Rightarrow> [])
     @ err_if (\<not> url_ok (u_Target u) \<or> u_Target u = []) (TargetInvalid i (u_Target u))
     @ err_if (u_Provider u \<noteq> ProviderOpenAI \<and> u_Provider u \<noteq> ProviderAnthropic)
         (ProviderUnsupported i (u_Provider u))
     @ pin_errors i 0 (PinSHA256 u)
     @ err_if (Failures (u_Breaker u) < 0) (BreakerFailures i (Failures (u_Breaker u)))
     @ err_if (Window (u_Breaker u) < 0) (BreakerWindow i (Window (u_Breaker u)))
     @ err_if (RecoveryWindow (u_Breaker u) < 0) (BreakerRecovery i (RecoveryWindow (u_Breaker u)))"

fun upstreams_errors ::
  "(bytes \<Rightarrow> bool) \<Rightarrow> nat \<Rightarrow> (bytes \<rightharpoonup> bytes) \<Rightarrow> Upstream list \<Rightarrow> config_error list" where
  "upstreams_errors url_ok i seen [] = []"
| "upstreams_errors url_ok i seen (u # us) =
     upstream_errors url_ok i seen u
     @ upstreams_errors url_ok (Suc i)
         (case seen (u_Prefix u) of Some _ \<Rightarrow> seen | None \<Rightarrow> seen(u_Prefix u \<mapsto> u_Name u)) us"

definition tls_errors :: "Config \<Rightarrow> config_error list" where
  "tls_errors c =
     (let t = cfg_TLS c in
      (if CertFile t \<noteq> [] \<and> KeyFile t = [] then [KeyFileRequired]
       else if KeyFile t \<noteq> [] \<and> CertFile t = [] then [CertFileRequired]
       else [])
      @ err_if (MTLS t \<and> \<not> TLS_Enabled t) ClientCARequiresTLS
      @ err_if (\<not> TLS_Enabled t \<and> \<not> AllowInsecure c \<and> \<not> isLoopbackAddr (Listen c))
          (PlaintextListen (Listen c)))"

definition telemetry_errors :: "Telemetry \<Rightarrow> config_error list" where
  "telemetry_errors t =
     err_if (Protocol t \<noteq> ProtoGRPC \<and> Protocol t \<noteq> ProtoHTTP) (ProtocolUnknown (Protocol t))
     @ err_if (float_less (SampleRatio t) (Fin 0) \<or> float_less (Fin 1) (SampleRatio t))
         (SampleRatioRange (SampleRatio t))
     @ err_if (Insecure t \<and> \<not> AcknowledgeInsecure t \<and> \<not> isLocalEndpoint (Endpoint t))
         (PlaintextEndpoint (Endpoint t))"

definition content_errors :: "ContentCapture \<Rightarrow> config_error list" where
  "content_errors cc =
     err_if (c_Mode cc \<notin> {CaptureOff, CaptureEvents, CaptureLogs, []}) (ModeUnknown (c_Mode cc))
     @ err_if (c_Redact cc \<notin> {''off'', ''default'', ''strict'', []}) (RedactUnknown (c_Redact cc))"

definition normalize_content :: "ContentCapture \<Rightarrow> ContentCapture" where
  "normalize_content cc =
     cc\<lparr>c_Mode := (if c_Mode cc = [] then CaptureOff else c_Mode cc),
        c_Redact := (if c_Redact cc = [] then ''default'' else c_Redact cc)\<rparr>"

text \<open>\<open>Validate\<close>: the joined errors and the configuration it leaves behind.\<close>

definition Validate :: "(bytes \<Rightarrow> bool) \<Rightarrow> Config \<Rightarrow> config_error list \<times> Config" where
  "Validate url_ok c =
     (err_if (trim_space (Listen c) = []) ListenEmpty
      @ tls_errors c
      @ err_if (length (Upstreams c) = 0) NoUpstreams
      @ upstreams_errors url_ok 0 Map.empty (Upstreams c)
      @ telemetry_errors (cfg_Telemetry c)
      @ content_errors (cfg_Content c),
      c\<lparr>cfg_Content := normalize_content (cfg_Content c)\<rparr>)"

datatype load_error = ReadConfig bytes | ParseConfig bytes | Invalid "config_error list"

definition Load ::
  "(bytes \<Rightarrow> bytes option) \<Rightarrow> (bytes \<Rightarrow> Config \<Rightarrow> Config option) \<Rightarrow> (bytes \<Rightarrow> float64 option) \<Rightarrow>
   (bytes \<Rightarrow> bool) \<Rightarrow> environment \<Rightarrow> bytes \<Rightarrow> load_error + Config" where
  "Load read_file yaml parse_float url_ok env path =
     (case (if path = [] then Inr Default
            else case read_file path of
                   None \<Rightarrow> Inl (ReadConfig path)
                 | Some raw \<Rightarrow>
                     (case yaml raw Default of
                        None \<Rightarrow> Inl (ParseConfig path) | Some c \<Rightarrow> Inr c)) of
        Inl e \<Rightarrow> Inl e
      | Inr c \<Rightarrow>
          (case Validate url_ok (applyEnv parse_float env c) of
             ([], c') \<Rightarrow> Inr c'
           | (errs, _) \<Rightarrow> Inl (Invalid errs)))"

subsection \<open>Routing\<close>

fun match_loop :: "bytes \<Rightarrow> Upstream list \<Rightarrow> Upstream \<Rightarrow> int \<Rightarrow> Upstream \<times> int" where
  "match_loop urlPath [] best bestLen = (best, bestLen)"
| "match_loop urlPath (u # us) best bestLen =
     (if \<not> has_prefix urlPath (u_Prefix u) then match_loop urlPath us best bestLen
      else if int (length (u_Prefix u)) > bestLen
        then match_loop urlPath us u (int (length (u_Prefix u)))
      else match_loop urlPath us best bestLen)"

definition Match :: "Config \<Rightarrow> bytes \<Rightarrow> Upstream \<times> bool" where
  "Match c urlPath =
     (let (best, bestLen) = match_loop urlPath (Upstreams c) zero_Upstream (- 1)
      in (best, bestLen \<ge> 0))"

subsection \<open>What validation accepts\<close>

definition upstream_ok :: "(bytes \<Rightarrow> bool) \<Rightarrow> Upstream \<Rightarrow> bool" where
  "upstream_ok url_ok u \<longleftrightarrow>
     u_Name u \<noteq> [] \<and> prefix ''/'' (u_Prefix u) \<and> \<not> isReservedPrefix (u_Prefix u)
     \<and> url_ok (u_Target u) \<and> u_Target u \<noteq> []
     \<and> u_Provider u \<in> {ProviderOpenAI, ProviderAnthropic}
     \<and> (\<forall>p \<in> set (PinSHA256 u). isHex64 p)
     \<and> 0 \<le> Failures (u_Breaker u) \<and> 0 \<le> Window (u_Breaker u) \<and> 0 \<le> RecoveryWindow (u_Breaker u)"

definition listener_ok :: "Config \<Rightarrow> bool" where
  "listener_ok c \<longleftrightarrow>
     trim_space (Listen c) \<noteq> []
     \<and> (CertFile (cfg_TLS c) = [] \<longleftrightarrow> KeyFile (cfg_TLS c) = [])
     \<and> (MTLS (cfg_TLS c) \<longrightarrow> TLS_Enabled (cfg_TLS c))
     \<and> (TLS_Enabled (cfg_TLS c) \<or> AllowInsecure c \<or> isLoopbackAddr (Listen c))"

definition telemetry_ok :: "Telemetry \<Rightarrow> bool" where
  "telemetry_ok t \<longleftrightarrow>
     Protocol t \<in> {ProtoGRPC, ProtoHTTP}
     \<and> \<not> float_less (SampleRatio t) (Fin 0) \<and> \<not> float_less (Fin 1) (SampleRatio t)
     \<and> (Insecure t \<longrightarrow> AcknowledgeInsecure t \<or> isLocalEndpoint (Endpoint t))"

lemma err_if_Nil [simp]: "err_if b e = [] \<longleftrightarrow> \<not> b"
  by (simp add: err_if_def)

lemma pin_errors_Nil: "pin_errors i j ps = [] \<longleftrightarrow> (\<forall>p \<in> set ps. isHex64 p)"
  by (induction i j ps rule: pin_errors.induct) auto

lemma upstream_errors_Nil:
  "upstream_errors url_ok i seen u = [] \<longleftrightarrow> upstream_ok url_ok u \<and> seen (u_Prefix u) = None"
  by (auto simp: upstream_errors_def upstream_ok_def pin_errors_Nil has_prefix_def
      split: option.splits)

lemma upstreams_errors_Nil:
  "upstreams_errors url_ok i seen us = [] \<longleftrightarrow>
     (\<forall>u \<in> set us. upstream_ok url_ok u \<and> seen (u_Prefix u) = None) \<and> distinct (map u_Prefix us)"
  by (induction us arbitrary: i seen) (auto simp: upstream_errors_Nil image_iff split: option.splits)

lemma tls_errors_Nil:
  "trim_space (Listen c) \<noteq> [] \<and> tls_errors c = [] \<longleftrightarrow> listener_ok c"
  by (auto simp: tls_errors_def listener_ok_def TLS_Enabled_def Let_def split: if_splits)

lemma telemetry_errors_Nil: "telemetry_errors t = [] \<longleftrightarrow> telemetry_ok t"
  by (auto simp: telemetry_errors_def telemetry_ok_def)

definition config_ok :: "(bytes \<Rightarrow> bool) \<Rightarrow> Config \<Rightarrow> bool" where
  "config_ok url_ok c \<longleftrightarrow>
     listener_ok c
     \<and> Upstreams c \<noteq> [] \<and> (\<forall>u \<in> set (Upstreams c). upstream_ok url_ok u)
     \<and> distinct (map u_Prefix (Upstreams c))
     \<and> telemetry_ok (cfg_Telemetry c)
     \<and> c_Mode (cfg_Content c) \<in> {CaptureOff, CaptureEvents, CaptureLogs, []}
     \<and> c_Redact (cfg_Content c) \<in> {''off'', ''default'', ''strict'', []}"

lemma Validate_Nil: "fst (Validate url_ok c) = [] \<longleftrightarrow> config_ok url_ok c"
  using tls_errors_Nil [of c]
  by (auto simp: Validate_def config_ok_def upstreams_errors_Nil telemetry_errors_Nil content_errors_def)

lemma Validate_cong:
  "Validate url_ok c = (errs, c') \<Longrightarrow> errs = [] \<longleftrightarrow> config_ok url_ok c"
  using Validate_Nil [of url_ok c] by simp

lemma Load_ok:
  assumes "Load read_file yaml parse_float url_ok env path = Inr c"
  obtains base where
    "path = [] \<and> base = Default \<or> (\<exists>raw. read_file path = Some raw \<and> yaml raw Default = Some base)"
    "config_ok url_ok (applyEnv parse_float env base)"
    "c = (applyEnv parse_float env base)
           \<lparr>cfg_Content := normalize_content (cfg_Content (applyEnv parse_float env base))\<rparr>"
proof -
  obtain base where
    b: "path = [] \<and> base = Default \<or> (\<exists>raw. read_file path = Some raw \<and> yaml raw Default = Some base)"
    and v: "Validate url_ok (applyEnv parse_float env base) = ([], c)"
    using assms
    by (auto simp: Load_def split: if_splits option.splits sum.splits prod.splits list.splits)
  show thesis
    using that [OF b] Validate_cong [OF v] v by (auto simp: Validate_def)
qed

subsection \<open>Longest-prefix match\<close>

definition longest_match :: "bytes \<Rightarrow> Upstream list \<Rightarrow> Upstream \<Rightarrow> bool" where
  "longest_match p us u \<longleftrightarrow>
     u \<in> set us \<and> prefix (u_Prefix u) p
     \<and> (\<forall>v \<in> set us. prefix (u_Prefix v) p \<longrightarrow> length (u_Prefix v) \<le> length (u_Prefix u))"

lemma match_loop_spec:
  assumes "match_loop p us best n = (u, m)" and "- 1 \<le> n"
    and "0 \<le> n \<Longrightarrow> n = int (length (u_Prefix best)) \<and> prefix (u_Prefix best) p"
  shows "n \<le> m
     \<and> (m = n \<longrightarrow> u = best) \<and> (n < m \<longrightarrow> u \<in> set us \<and> prefix (u_Prefix u) p \<and> m = int (length (u_Prefix u)))
     \<and> (\<forall>v \<in> set us. prefix (u_Prefix v) p \<longrightarrow> int (length (u_Prefix v)) \<le> m)"
  using assms
proof (induction us arbitrary: best n)
  case (Cons v us)
  show ?case
  proof (cases "prefix (u_Prefix v) p \<and> n < int (length (u_Prefix v))")
    case True
    then have "match_loop p us v (int (length (u_Prefix v))) = (u, m)"
      using Cons.prems(1) by (simp add: has_prefix_def)
    from Cons.IH [OF this] True show ?thesis by auto
  next
    case False
    then have "match_loop p us best n = (u, m)"
      using Cons.prems(1) by (auto simp: has_prefix_def split: if_splits)
    from Cons.IH [OF this Cons.prems(2,3)] False show ?thesis by auto
  qed
qed auto

lemma Match_found:
  assumes "Match c p = (u, True)"
  shows "longest_match p (Upstreams c) u"
proof -
  obtain m where "match_loop p (Upstreams c) zero_Upstream (- 1) = (u, m)" "0 \<le> m"
    using assms by (auto simp: Match_def split: prod.splits)
  from match_loop_spec [OF this(1)] this(2) show ?thesis
    by (auto simp: longest_match_def)
qed

lemma Match_not_found:
  assumes "Match c p = (u, False)"
  shows "u = zero_Upstream \<and> (\<forall>v \<in> set (Upstreams c). \<not> prefix (u_Prefix v) p)"
proof -
  obtain m where "match_loop p (Upstreams c) zero_Upstream (- 1) = (u, m)" "m < 0"
    using assms by (auto simp: Match_def split: prod.splits)
  from match_loop_spec [OF this(1)] this(2) show ?thesis by force
qed

lemma longest_match_unique:
  assumes "distinct (map u_Prefix us)" and "longest_match p us u" and "longest_match p us v"
  shows "u = v"
proof -
  have l: "length (u_Prefix u) = length (u_Prefix v)" "prefix (u_Prefix u) p" "prefix (u_Prefix v) p"
    and m: "u \<in> set us" "v \<in> set us"
    using assms(2,3) by (auto simp: longest_match_def intro: le_antisym)
  then have "u_Prefix u = u_Prefix v" by (metis prefix_length_prefix prefix_order.antisym order_refl)
  with m assms(1) show ?thesis by (auto simp: distinct_map dest: inj_onD)
qed

subsection \<open>Environment\<close>

text \<open>A projection that no clause for a variable touches passes through that clause.\<close>

lemma env_apply_frame:
  "(\<And>v c. g (f v c) = g c) \<Longrightarrow> g (env_apply env k f c) = g c"
  by (simp add: env_apply_def split: option.split)

lemma env_apply_set:
  "(\<And>v c. g (f v c) = h v c) \<Longrightarrow>
   g (env_apply env k f c) = (case env k of None \<Rightarrow> g c | Some v \<Rightarrow> h v c)"
  by (simp add: env_apply_def split: option.split)

lemmas upd_defs = upd_TLS_def upd_Telemetry_def upd_Service_def

lemmas env_frames =
  env_apply_frame [of Upstreams] env_apply_frame [of cfg_HTTP] env_apply_frame [of cfg_Request]
  env_apply_frame [of cfg_Pricing] env_apply_frame [of cfg_Auth] env_apply_frame [of Listen]
  env_apply_frame [of "\<lambda>c. CertFile (cfg_TLS c)"]
  env_apply_frame [of "\<lambda>c. SampleRatio (cfg_Telemetry c)"]
  env_apply_frame [of "\<lambda>c. c_Redact (cfg_Content c)"]

lemma applyEnv_structural:
  "Upstreams (applyEnv pf env c) = Upstreams c" "cfg_HTTP (applyEnv pf env c) = cfg_HTTP c"
  "cfg_Request (applyEnv pf env c) = cfg_Request c" "cfg_Pricing (applyEnv pf env c) = cfg_Pricing c"
  "cfg_Auth (applyEnv pf env c) = cfg_Auth c"
  by (simp_all add: applyEnv_def Let_def env_frames upd_defs split: option.split)

lemma applyEnv_Listen:
  "Listen (applyEnv pf env c) = (case env ''LLMTAP_LISTEN'' of None \<Rightarrow> Listen c | Some v \<Rightarrow> v)"
  by (simp add: applyEnv_def Let_def env_frames upd_defs env_apply_set [of Listen _ "\<lambda>v c. v"]
      split: option.split)

lemma applyEnv_SampleRatio:
  "SampleRatio (cfg_Telemetry (applyEnv pf env c)) =
     (case env ''LLMTAP_SAMPLE_RATIO'' of
        None \<Rightarrow> SampleRatio (cfg_Telemetry c)
      | Some v \<Rightarrow> (case pf v of None \<Rightarrow> SampleRatio (cfg_Telemetry c) | Some f \<Rightarrow> clamp_ratio f))"
  by (simp add: applyEnv_def Let_def env_frames upd_defs
      env_apply_set [of "\<lambda>c. SampleRatio (cfg_Telemetry c)" _
        "\<lambda>v c. case pf v of None \<Rightarrow> SampleRatio (cfg_Telemetry c) | Some f \<Rightarrow> clamp_ratio f"]
      split: option.split)

lemma applyEnv_CertFile:
  "CertFile (cfg_TLS (applyEnv pf env c)) =
     (case env ''LLMTAP_TLS_CERT_FILE'' of None \<Rightarrow> CertFile (cfg_TLS c) | Some v \<Rightarrow> v)"
  by (simp add: applyEnv_def Let_def env_frames upd_defs
      env_apply_set [of "\<lambda>c. CertFile (cfg_TLS c)" _ "\<lambda>v c. v"] split: option.split)

lemma clamp_ratio_range:
  "clamp_ratio f = NaN \<and> f = NaN \<or> (\<exists>x. clamp_ratio f = Fin x \<and> 0 \<le> x \<and> x \<le> 1)"
  by (cases f) (auto simp: clamp_ratio_def)

definition no_env :: environment where
  "no_env = (\<lambda>_. None)"

lemma applyEnv_no_env [simp]: "applyEnv pf no_env c = c"
  by (simp add: applyEnv_def env_apply_def no_env_def Let_def)

lemma Default_ok: "config_ok (\<lambda>_. True) Default"
proof -
  have "isLoopbackAddr ''127.0.0.1:4000''" by code_simp
  moreover have "isLocalEndpoint ''localhost:4317''" by code_simp
  moreover have "trim_space ''127.0.0.1:4000'' \<noteq> []" by code_simp
  moreover have "\<not> isReservedPrefix ''/v1''" "\<not> isReservedPrefix ''/anthropic''" by code_simp+
  ultimately show ?thesis
    by (simp add: config_ok_def Default_def listener_ok_def telemetry_ok_def upstream_ok_def
        config_consts MTLS_def TLS_Enabled_def zero_Upstream_def zero_breaker_cfg_def)
qed

lemma Load_Default:
  "Load rf y pf (\<lambda>_. True) no_env [] = Inr Default"
proof -
  have "fst (Validate (\<lambda>_. True) Default) = []" using Default_ok by (simp add: Validate_Nil)
  moreover have "snd (Validate (\<lambda>_. True) Default) = Default"
    by (simp add: Validate_def normalize_content_def Default_def config_consts)
  ultimately have "Validate (\<lambda>_. True) Default = ([], Default)" by (metis prod.collapse)
  then show ?thesis by (simp add: Load_def)
qed

subsection \<open>Properties\<close>

text \<open>
  A sample ratio that is not a number compares false both ways and so passes the check that it
  lies in \<open>[0, 1]\<close>.
\<close>

lemma nan_ratio_passes:
  "fst (Validate (\<lambda>_. True) (Default\<lparr>cfg_Telemetry := (cfg_Telemetry Default)\<lparr>SampleRatio := NaN\<rparr>\<rparr>)) = []"
  using Default_ok by (simp add: Validate_Nil config_ok_def listener_ok_def telemetry_ok_def)

text \<open>
  A configuration that \<open>Load\<close> returns without TLS and without \<open>allow_insecure\<close> listens on
  \<open>localhost\<close> or on a loopback IP address, whatever the file and the environment said.
\<close>

lemma Load_plaintext_only_on_loopback:
  assumes "Load read_file yaml parse_float url_ok env path = Inr c"
    and "\<not> TLS_Enabled (cfg_TLS c)" and "\<not> AllowInsecure c"
  shows "\<exists>host port. SplitHostPort (Listen c) = Some (host, port) \<and>
     (equal_fold host ''localhost'' \<or> (\<exists>a. ParseIP host = Some a \<and> IsLoopback a))"
proof -
  obtain base where "config_ok url_ok (applyEnv parse_float env base)"
    and c: "c = (applyEnv parse_float env base)
       \<lparr>cfg_Content := normalize_content (cfg_Content (applyEnv parse_float env base))\<rparr>"
    using Load_ok [OF assms(1)] by blast
  then have "isLoopbackAddr (Listen c)"
    using assms(2,3) by (simp add: config_ok_def listener_ok_def)
  then show ?thesis
    by (auto simp: isLoopbackAddr_def split: option.splits if_splits)
qed

text \<open>
  C20: Under a validated configuration, \<open>Match\<close> finds an upstream exactly when some configured
  prefix is a prefix of the path, and what it finds is the one upstream whose prefix is the
  longest of them; configuration order never matters.
\<close>

theorem Match_validated:
  assumes "fst (Validate url_ok c) = []"
  shows "(Match c p = (u, True) \<longleftrightarrow> longest_match p (Upstreams c) u)
     \<and> (snd (Match c p) \<longleftrightarrow> (\<exists>v \<in> set (Upstreams c). prefix (u_Prefix v) p))"
proof -
  have d: "distinct (map u_Prefix (Upstreams c))"
    using assms by (simp add: Validate_Nil config_ok_def)
  obtain w b where w: "Match c p = (w, b)" by fastforce
  show ?thesis
  proof (cases b)
    case True
    then have "longest_match p (Upstreams c) w" using Match_found w by simp
    then show ?thesis
      using longest_match_unique [OF d] w True by (auto simp: longest_match_def)
  next
    case False
    then show ?thesis using Match_not_found [of c p w] w by (auto simp: longest_match_def)
  qed
qed

theorem Match_validated_witness:
  "snd (Match Default ''/v1/chat/completions'') \<and> \<not> snd (Match Default ''/v2/models'')"
proof -
  have v: "fst (Validate (\<lambda>_. True) Default) = []" using Default_ok by (simp add: Validate_Nil)
  show ?thesis
    using Match_validated [OF v, of "''/v1/chat/completions''"] Match_validated [OF v, of "''/v2/models''"]
    by (simp add: Default_def zero_Upstream_def)
qed

text \<open>
  Precedence of the three layers. What \<open>Load\<close> returns takes its upstreams, timeouts,
  limits, pricing and auth settings from the file (or the defaults) alone, its listen address
  and TLS files from the environment where that sets them, and a sample ratio set by the
  environment is clamped into \<open>[0, 1]\<close> (unless it is not a number).
\<close>

lemma Load_precedence:
  assumes "Load read_file yaml parse_float url_ok env path = Inr c"
  shows "\<exists>base. (path = [] \<and> base = Default \<or>
               (\<exists>raw. read_file path = Some raw \<and> yaml raw Default = Some base))
     \<and> Upstreams c = Upstreams base \<and> cfg_HTTP c = cfg_HTTP base \<and> cfg_Request c = cfg_Request base
     \<and> cfg_Pricing c = cfg_Pricing base \<and> cfg_Auth c = cfg_Auth base
     \<and> Listen c = (case env ''LLMTAP_LISTEN'' of None \<Rightarrow> Listen base | Some v \<Rightarrow> v)
     \<and> CertFile (cfg_TLS c) =
         (case env ''LLMTAP_TLS_CERT_FILE'' of None \<Rightarrow> CertFile (cfg_TLS base) | Some v \<Rightarrow> v)
     \<and> (\<forall>v f. env ''LLMTAP_SAMPLE_RATIO'' = Some v \<longrightarrow> parse_float v = Some f \<longrightarrow> f \<noteq> NaN \<longrightarrow>
          (\<exists>x. SampleRatio (cfg_Telemetry c) = Fin x \<and> 0 \<le> x \<and> x \<le> 1))
     \<and> c_Mode (cfg_Content c) \<in> {CaptureOff, CaptureEvents, CaptureLogs}
     \<and> c_Redact (cfg_Content c) \<in> {''off'', ''default'', ''strict''}"
proof -
  obtain base where
    b: "path = [] \<and> base = Default \<or> (\<exists>raw. read_file path = Some raw \<and> yaml raw Default = Some base)"
    and ok: "config_ok url_ok (applyEnv parse_float env base)"
    and c: "c = (applyEnv parse_float env base)
       \<lparr>cfg_Content := normalize_content (cfg_Content (applyEnv parse_float env base))\<rparr>"
    using Load_ok [OF assms] by blast
  have m: "c_Mode (cfg_Content c) \<in> {CaptureOff, CaptureEvents, CaptureLogs}
     \<and> c_Redact (cfg_Content c) \<in> {''off'', ''default'', ''strict''}"
    using ok by (auto simp: c config_ok_def normalize_content_def config_consts)
  have r: "\<forall>v f. env ''LLMTAP_SAMPLE_RATIO'' = Some v \<longrightarrow> parse_float v = Some f \<longrightarrow> f \<noteq> NaN \<longrightarrow>
          (\<exists>x. SampleRatio (cfg_Telemetry c) = Fin x \<and> 0 \<le> x \<and> x \<le> 1)"
    using clamp_ratio_range by (simp add: c applyEnv_SampleRatio) blast
  show ?thesis
    using b m r by (intro exI [of _ base]) (simp add: c applyEnv_structural applyEnv_Listen applyEnv_CertFile)
qed

end
