(* ===== verification/Pins.thy ===== *)
theory Pins
  imports Config
begin

text \<open>
  Certificate pinning of upstream connections (\<open>proxy.go\<close>): decoding of the configured pins and
  the two TLS callbacks. A certificate is whatever \<open>crypto/x509\<close> parses; \<open>parse_cert\<close> and \<open>spki\<close>
  (its raw subject public key info) are arguments, as is SHA-256.
\<close>

datatype pin_error =
    InvalidPin bytes
  | PinLength bytes nat
  | NoCertificate
  | ParseLeaf
  | PinMismatch

fun hex_decode :: "bytes \<Rightarrow> bytes option" where
  "hex_decode [] = Some []"
| "hex_decode [c] = None"
| "hex_decode (a # b # s) =
     (case (hex_val a, hex_val b) of
        (Some x, Some y) \<Rightarrow> map_option ((#) (char_of (x * 16 + y))) (hex_decode s)
      | _ \<Rightarrow> None)"

fun parsePins :: "bytes list \<Rightarrow> pin_error + bytes list" where
  "parsePins [] = Inr []"
| "parsePins (p # ps) =
     (case hex_decode p of
        None \<Rightarrow> Inl (InvalidPin p)
      | Some b \<Rightarrow>
          if length b \<noteq> 32 then Inl (PinLength p (length b))
          else (case parsePins ps of Inl e \<Rightarrow> Inl e | Inr bs \<Rightarrow> Inr (b # bs)))"

fun matchPin :: "(bytes \<Rightarrow> bytes) \<Rightarrow> bytes \<Rightarrow> bytes list \<Rightarrow> pin_error option" where
  "matchPin sha spki [] = Some PinMismatch"
| "matchPin sha spki (p # ps) = (if p = sha spki then None else matchPin sha spki ps)"

definition makePinVerifier ::
  "(bytes \<Rightarrow> bytes) \<Rightarrow> (bytes \<Rightarrow> 'cert option) \<Rightarrow> ('cert \<Rightarrow> bytes) \<Rightarrow> bytes list \<Rightarrow> bytes list \<Rightarrow> pin_error option"
  where
  "makePinVerifier sha parse_cert spki pins rawCerts =
     (case rawCerts of
        [] \<Rightarrow> Some NoCertificate
      | raw # _ \<Rightarrow>
          (case parse_cert raw of None \<Rightarrow> Some ParseLeaf | Some leaf \<Rightarrow> matchPin sha (spki leaf) pins))"

definition makeConnVerifier ::
  "(bytes \<Rightarrow> bytes) \<Rightarrow> ('cert \<Rightarrow> bytes) \<Rightarrow> bytes list \<Rightarrow> 'cert list \<Rightarrow> pin_error option" where
  "makeConnVerifier sha spki pins peerCerts =
     (case peerCerts of [] \<Rightarrow> Some NoCertificate | leaf # _ \<Rightarrow> matchPin sha (spki leaf) pins)"

text \<open>
  \<open>buildUpstreamTransport\<close>. The server name is set unless the target host is an IP literal; the two
  verifiers are kept as the pins they close over.
\<close>

definition VersionTLS12 :: nat where
  "VersionTLS12 = 0x0303"

record transport =
  tr_MaxIdleConns :: int
  tr_MaxIdleConnsPerHost :: int
  tr_IdleConnTimeout :: duration
  tr_TLSHandshakeTimeout :: duration
  tr_ResponseHeaderTimeout :: duration
  tr_ExpectContinueTimeout :: duration
  tr_ForceAttemptHTTP2 :: bool
  tr_MinVersion :: nat
  tr_ServerName :: bytes
  tr_VerifyPeerCertificate :: "bytes list option"
  tr_VerifyConnection :: "bytes list option"

definition buildUpstreamTransport :: "bytes \<Rightarrow> Upstream \<Rightarrow> pin_error + transport" where
  "buildUpstreamTransport host u =
     (let t = \<lparr>tr_MaxIdleConns = 256, tr_MaxIdleConnsPerHost = 64, tr_IdleConnTimeout = 90 * second,
               tr_TLSHandshakeTimeout = 10 * second, tr_ResponseHeaderTimeout = 60 * second,
               tr_ExpectContinueTimeout = 1 * second, tr_ForceAttemptHTTP2 = True, tr_MinVersion = VersionTLS12,
               tr_ServerName = (if ParseIP host = None then host else []),
               tr_VerifyPeerCertificate = None, tr_VerifyConnection = None\<rparr> in
      if length (PinSHA256 u) > 0 then
        (case parsePins (PinSHA256 u) of
           Inl e \<Rightarrow> Inl e
         | Inr pins \<Rightarrow> Inr (t\<lparr>tr_VerifyPeerCertificate := Some pins, tr_VerifyConnection := Some pins\<rparr>))
      else Inr t)"

text \<open>
  Both callbacks, as the TLS stack runs them: the first on a full handshake only, the second on
  a resumed one too.
\<close>

definition accepts_connection ::
  "(bytes \<Rightarrow> bytes) \<Rightarrow> (bytes \<Rightarrow> 'cert option) \<Rightarrow> ('cert \<Rightarrow> bytes) \<Rightarrow> transport \<Rightarrow> bool \<Rightarrow> bytes list \<Rightarrow> 'cert list \<Rightarrow> bool"
  where
  "accepts_connection sha parse_cert spki tr resumed rawCerts peerCerts \<longleftrightarrow>
     (case tr_VerifyPeerCertificate tr of
        None \<Rightarrow> True
      | Some pins \<Rightarrow> resumed \<or> makePinVerifier sha parse_cert spki pins rawCerts = None)
     \<and> (case tr_VerifyConnection tr of
          None \<Rightarrow> True | Some pins \<Rightarrow> makeConnVerifier sha spki pins peerCerts = None)"

lemma matchPin_None: "matchPin sha spki pins = None \<longleftrightarrow> sha spki \<in> set pins"
  by (induction pins) auto

lemma hex_decode_iff:
  "(\<exists>b. hex_decode s = Some b \<and> length b = n) \<longleftrightarrow> length s = 2 * n \<and> list_all (\<lambda>c. hex_val c \<noteq> None) s"
proof (induction s arbitrary: n rule: hex_decode.induct)
  case (3 a b s)
  show ?case
  proof (cases "hex_val a = None \<or> hex_val b = None")
    case True
    then show ?thesis by (auto split: option.splits)
  next
    case False
    then obtain x y where xy: "hex_val a = Some x" "hex_val b = Some y" by auto
    show ?thesis
    proof (cases n)
      case 0
      then show ?thesis using xy by auto
    next
      case (Suc m)
      then show ?thesis using xy "3.IH" [OF refl xy, of m] by auto
    qed
  qed
qed auto

lemma isHex64_decode: "isHex64 p \<longleftrightarrow> (\<exists>b. hex_decode p = Some b \<and> length b = 32)"
  using hex_decode_iff [of p 32] by (simp add: isHex64_def)

lemma parsePins_ok: "(\<exists>bs. parsePins ps = Inr bs) \<longleftrightarrow> (\<forall>p \<in> set ps. isHex64 p)"
  by (induction ps) (auto simp: isHex64_decode split: option.splits sum.splits)

lemma parsePins_map: "parsePins ps = Inr bs \<Longrightarrow> map hex_decode ps = map Some bs"
  by (induction ps arbitrary: bs) (auto split: option.splits if_splits sum.splits)

text \<open>
  C24: Pinning. A transport can be built for every upstream that validation accepts, and never
  speaks less than TLS 1.2. With pins configured, a connection is accepted, resumed or not, only if the certificate the connection
  reports first has a public key whose digest is one of the configured pins, and never without a
  certificate; without pins the callbacks add nothing.
\<close>

theorem pinned_connections:
  assumes "upstream_ok url_ok u"
  shows "\<exists>tr. buildUpstreamTransport host u = Inr tr \<and> tr_MinVersion tr = VersionTLS12
     \<and> (PinSHA256 u = [] \<longrightarrow> accepts_connection sha parse_cert spki tr resumed raws peers)
     \<and> (PinSHA256 u \<noteq> [] \<longrightarrow> accepts_connection sha parse_cert spki tr resumed raws peers \<longrightarrow>
          (\<exists>leaf rest p. peers = leaf # rest \<and> p \<in> set (PinSHA256 u) \<and> hex_decode p = Some (sha (spki leaf))))"
proof (cases "PinSHA256 u = []")
  case True
  then show ?thesis by (simp add: buildUpstreamTransport_def accepts_connection_def)
next
  case False
  obtain bs where bs: "parsePins (PinSHA256 u) = Inr bs"
    using assms parsePins_ok [of "PinSHA256 u"] by (auto simp: upstream_ok_def)
  have "\<exists>p \<in> set (PinSHA256 u). hex_decode p = Some b" if "b \<in> set bs" for b
    using that parsePins_map [OF bs] by (metis image_eqI image_set imageE)
  with False bs show ?thesis
    by (auto simp: buildUpstreamTransport_def accepts_connection_def makeConnVerifier_def matchPin_None
        split: list.splits)
qed

definition zero_pinned :: Upstream where
  "zero_pinned = (hd (Upstreams Default))\<lparr>PinSHA256 := [replicate 64 CHR ''0'']\<rparr>"

theorem pinned_connections_witness:
  "\<exists>tr. buildUpstreamTransport ''h'' zero_pinned = Inr tr
     \<and> \<not> accepts_connection (\<lambda>_. ''other'') Some id tr True [] [''leaf'']"
proof -
  have h: "isHex64 (replicate 64 CHR ''0'')" by code_simp
  have "upstream_ok (\<lambda>_. True) (hd (Upstreams Default))"
    using Default_ok by (simp add: config_ok_def)
  with h have "upstream_ok (\<lambda>_. True) zero_pinned"
    by (simp add: upstream_ok_def zero_pinned_def)
  moreover have "hex_decode (replicate 64 CHR ''0'') \<noteq> Some ''other''" by code_simp
  ultimately show ?thesis
    using pinned_connections [of "\<lambda>_. True" zero_pinned "''h''" "\<lambda>_. ''other''" Some id True "[]" "[''leaf'']"]
    by (auto simp: zero_pinned_def)
qed

end
