(* ===== verification/Go_Encoding.thy ===== *)
theory Go_Encoding
  imports Go_Strings
begin

text \<open>
  The parts of Go's \<open>encoding/base64\<close> and \<open>fmt\<close> that the token hashes go through:
  \<open>RawStdEncoding\<close> with and without \<open>Strict\<close>, and \<open>Sscanf\<close> with literals and \<open>%d\<close> verbs.
\<close>

subsection \<open>Unpadded standard base64\<close>

text \<open>The alphabet: \<open>A\<close> to \<open>Z\<close>, \<open>a\<close> to \<open>z\<close>, \<open>0\<close> to \<open>9\<close>, \<open>+\<close>, \<open>/\<close>.\<close>

definition b64_char :: "nat \<Rightarrow> char" where
  "b64_char n =
     (let m = n mod 64 in
      if m < 26 then char_of (m + 65)
      else if m < 52 then char_of (m + 71)
      else if m < 62 then char_of (m - 4)
      else if m = 62 then CHR ''+'' else CHR ''/'')"

text \<open>The decode map: \<open>None\<close> for a byte outside the alphabet, padding included.\<close>

definition b64_val :: "char \<Rightarrow> nat option" where
  "b64_val c =
     (let n = (of_char c :: nat) in
      if 65 \<le> n \<and> n \<le> 90 then Some (n - 65)
      else if 97 \<le> n \<and> n \<le> 122 then Some (n - 71)
      else if 48 \<le> n \<and> n \<le> 57 then Some (n + 4)
      else if c = CHR ''+'' then Some 62
      else if c = CHR ''/'' then Some 63
      else None)"

text \<open>\<open>RawStdEncoding.EncodeToString\<close>.\<close>

fun b64_encode :: "bytes \<Rightarrow> bytes" where
  "b64_encode (a # b # c # s) =
     (let v = of_char a * 65536 + of_char b * 256 + of_char c in
      b64_char (v div 262144) # b64_char (v div 4096) # b64_char (v div 64) # b64_char v # b64_encode s)"
| "b64_encode [a, b] =
     (let v = of_char a * 65536 + of_char b * 256 in
      [b64_char (v div 262144), b64_char (v div 4096), b64_char (v div 64)])"
| "b64_encode [a] =
     (let v = of_char a * 65536 in [b64_char (v div 262144), b64_char (v div 4096)])"
| "b64_encode [] = []"

text \<open>
  The decoder on the sextets. In a last group of two or three, \<open>Strict\<close> demands that the bits
  beyond the last whole byte are zero; a last group of one is an error.
\<close>

fun b64_groups :: "nat list \<Rightarrow> bytes option" where
  "b64_groups (a # b # c # d # s) =
     (let v = a * 262144 + b * 4096 + c * 64 + d in
      map_option (\<lambda>r. char_of (v div 65536) # char_of (v div 256 mod 256) # char_of (v mod 256) # r)
        (b64_groups s))"
| "b64_groups [a, b, c] =
     (let v = a * 262144 + b * 4096 + c * 64 in
      if v mod 256 = 0 then Some [char_of (v div 65536), char_of (v div 256 mod 256)] else None)"
| "b64_groups [a, b] =
     (let v = a * 262144 + b * 4096 in
      if v mod 65536 = 0 then Some [char_of (v div 65536)] else None)"
| "b64_groups [a] = None"
| "b64_groups [] = Some []"

fun all_some :: "'a option list \<Rightarrow> 'a list option" where
  "all_some [] = Some []"
| "all_some (None # xs) = None"
| "all_some (Some x # xs) = map_option ((#) x) (all_some xs)"

text \<open>\<open>RawStdEncoding.Strict().DecodeString\<close>: line breaks are skipped wherever they occur.\<close>

definition b64_decode :: "bytes \<Rightarrow> bytes option" where
  "b64_decode s =
     (case all_some (map b64_val (filter (\<lambda>c. c \<notin> {CHR 0x0A, CHR 0x0D}) s)) of
        None \<Rightarrow> None
      | Some vs \<Rightarrow> b64_groups vs)"

subsection \<open>Sscanf\<close>

text \<open>
  The state of a scan is the unread input; \<open>None\<close> is a scan error. Input left over at the end of
  the format is ignored.
\<close>

fun scan_literal :: "bytes \<Rightarrow> bytes \<Rightarrow> bytes option" where
  "scan_literal [] s = Some s"
| "scan_literal (c # f) s =
     (case s of [] \<Rightarrow> None | x # s' \<Rightarrow> if x = c then scan_literal f s' else None)"

text \<open>\<open>SkipSpace\<close> for \<open>Sscanf\<close>: a newline is an error. One step per byte is enough fuel.\<close>

fun skip_space :: "nat \<Rightarrow> bytes \<Rightarrow> bytes option" where
  "skip_space 0 s = Some s"
| "skip_space (Suc n) s =
     (if prefix [CHR 0x0A] s then None
      else case find (\<lambda>p. prefix p s) space_seqs of
             None \<Rightarrow> Some s
           | Some p \<Rightarrow> skip_space n (drop (length p) s))"

definition scan_digits :: "bytes \<Rightarrow> (nat \<times> bytes) option" where
  "scan_digits s =
     (let ds = takeWhile is_digit s in
      if ds = [] then None else Some (digits_val 0 ds, dropWhile is_digit s))"

text \<open>\<open>%d\<close> into an unsigned integer of the given width.\<close>

definition scan_uint :: "nat \<Rightarrow> bytes \<Rightarrow> (nat \<times> bytes) option" where
  "scan_uint w s =
     (case skip_space (length s) s of
        None \<Rightarrow> None
      | Some s \<Rightarrow>
          (case scan_digits s of
             None \<Rightarrow> None
           | Some (n, r) \<Rightarrow> if n < 2 ^ w then Some (n, r) else None))"

text \<open>\<open>%d\<close> into an \<open>int\<close>: an optional sign, then digits.\<close>

definition scan_int :: "bytes \<Rightarrow> (int \<times> bytes) option" where
  "scan_int s =
     (case skip_space (length s) s of
        None \<Rightarrow> None
      | Some s \<Rightarrow>
          (let neg = prefix ''-'' s;
               s = (if neg \<or> prefix ''+'' s then tl s else s) in
           case scan_digits s of
             None \<Rightarrow> None
           | Some (n, r) \<Rightarrow>
               (let i = (if neg then - int n else int n) in
                if in_int64 i then Some (i, r) else None)))"

subsection \<open>Lemmas\<close>

lemma b64_char_mod [simp]: "b64_val (b64_char n) = Some (n mod 64)"
proof -
  define m where "m = n mod 64"
  have "m < 64" by (simp add: m_def)
  then have "(m - 4) mod 256 = m - 4" by simp
  moreover from \<open>m < 64\<close> have "m < 26 \<or> 26 \<le> m \<and> m < 52 \<or> 52 \<le> m \<and> m < 62 \<or> m = 62 \<or> m = 63" by linarith
  ultimately show ?thesis
    unfolding b64_char_def b64_val_def Let_def m_def [symmetric] by (elim disjE) auto
qed

lemma b64_val_LF_CR: "b64_val c \<noteq> None \<Longrightarrow> c \<noteq> CHR 0x0A \<and> c \<noteq> CHR 0x0D \<and> c \<noteq> CHR ''$''"
  by (auto simp: b64_val_def Let_def)

lemma b64_char_plain [simp]: "b64_char n \<noteq> CHR 0x0A" "b64_char n \<noteq> CHR 0x0D" "b64_char n \<noteq> CHR ''$''"
  using b64_val_LF_CR [of "b64_char n"] by auto

lemma b64_encode_plain: "c \<in> set (b64_encode s) \<Longrightarrow> c \<noteq> CHR 0x0A \<and> c \<noteq> CHR 0x0D \<and> c \<noteq> CHR ''$''"
  by (induction s rule: b64_encode.induct) (auto simp: Let_def)

lemma sextets_sum:
  fixes v :: nat
  assumes "v < 16777216"
  shows "v div 262144 mod 64 * 262144 + v div 4096 mod 64 * 4096 + v div 64 mod 64 * 64 + v mod 64 = v"
proof -
  have 1: "v div 64 * 64 + v mod 64 = v" by (rule div_mult_mod_eq)
  have 2: "v div 4096 * 64 + v div 64 mod 64 = v div 64"
    using div_mult_mod_eq [of "v div 64" 64] by (simp add: div_mult2_eq [symmetric])
  have 3: "v div 262144 * 64 + v div 4096 mod 64 = v div 4096"
    using div_mult_mod_eq [of "v div 4096" 64] by (simp add: div_mult2_eq [symmetric])
  have 4: "v div 262144 mod 64 = v div 262144"
    using assms less_mult_imp_div_less [of v 64 262144] by simp
  from 1 2 3 4 show ?thesis by linarith
qed

lemma byte_lt: "(of_char c :: nat) < 256"
proof -
  have "(of_char c :: nat) = of_char c mod 256"
    by (metis char_of_char of_char_of)
  then show ?thesis by (metis mod_less_divisor zero_less_numeral)
qed

lemma three_bytes:
  fixes a b c :: nat
  assumes "a < 256" and "b < 256" and "c < 256"
  defines "v \<equiv> a * 65536 + b * 256 + c"
  shows "v < 16777216" "v div 65536 = a" "v div 256 mod 256 = b" "v mod 256 = c"
proof -
  show "v < 16777216" using assms by (simp add: v_def)
  show "v div 65536 = a" using assms by (intro div_nat_eqI) (simp_all add: v_def)
  have "v div 256 = a * 256 + b" using assms by (intro div_nat_eqI) (simp_all add: v_def)
  then show "v div 256 mod 256 = b" using assms by simp
  have "v = (a * 256 + b) * 256 + c" by (simp add: v_def)
  then show "v mod 256 = c" using assms by (simp only: mod_mult_self3 mod_less)
qed

lemma b64_groups_encode:
  "\<exists>vs. all_some (map b64_val (b64_encode s)) = Some vs \<and> b64_groups vs = Some s"
proof (induction s rule: b64_encode.induct)
  case (1 a b c s)
  then obtain vs where vs: "all_some (map b64_val (b64_encode s)) = Some vs" "b64_groups vs = Some s" by blast
  let ?v = "(of_char a :: nat) * 65536 + of_char b * 256 + of_char c"
  note v = three_bytes [OF byte_lt [of a] byte_lt [of b] byte_lt [of c]]
  from vs show ?case
    using sextets_sum [OF v(1)] v(2-4)
    by (simp only: b64_encode.simps Let_def list.map b64_char_mod all_some.simps option.map
        b64_groups.simps char_of_char option.inject ex_simps simp_thms)
next
  case (2 a b)
  let ?v = "(of_char a :: nat) * 65536 + of_char b * 256"
  note v = three_bytes [OF byte_lt [of a] byte_lt [of b], of 0, unfolded add_0_right, OF zero_less_numeral]
  have "?v mod 64 = 0" by (simp add: mod_eq_0_iff_dvd)
  with v(4) show ?case
    using sextets_sum [OF v(1)] v(2-3)
    by (simp only: b64_encode.simps Let_def list.map b64_char_mod all_some.simps option.map
        b64_groups.simps char_of_char option.inject ex_simps simp_thms if_True add_0_right)
next
  case (3 a)
  let ?v = "(of_char a :: nat) * 65536"
  note v = three_bytes [OF byte_lt [of a], of 0 0, unfolded add_0_right mult_zero_left, OF zero_less_numeral zero_less_numeral]
  have "?v mod 64 = 0" "?v div 64 mod 64 = 0" by (simp_all add: mod_eq_0_iff_dvd div_mult2_eq)
  then show ?case
    using sextets_sum [OF v(1)] v(2)
    by (simp only: b64_encode.simps Let_def list.map b64_char_mod all_some.simps option.map
        b64_groups.simps char_of_char option.inject ex_simps simp_thms if_True add_0_right mult_zero_left mod_mult_self2_is_0)
qed simp

lemma b64_roundtrip: "b64_decode (b64_encode s) = Some s"
proof -
  have "filter (\<lambda>c. c \<notin> {CHR 0x0A, CHR 0x0D}) (b64_encode s) = b64_encode s"
    by (auto simp: filter_id_conv dest: b64_encode_plain)
  then show ?thesis
    using b64_groups_encode [of s] by (auto simp: b64_decode_def)
qed

lemma scan_literal_append [simp]: "scan_literal f (f @ s) = Some s"
  by (induction f) auto

lemma digit_not_space:
  assumes "is_digit c"
  shows "skip_space n (c # s) = Some (c # s)"
proof -
  have "\<forall>p \<in> set space_seqs. \<not> prefix p (c # s)"
    using assms by (auto simp: space_seqs_def is_digit_def)
  then have "find (\<lambda>p. prefix p (c # s)) space_seqs = None" by (simp add: find_None_iff)
  moreover have "c \<noteq> CHR 0x0A" using assms by (auto simp: is_digit_def)
  ultimately show ?thesis by (cases n) simp_all
qed

lemma scan_digits_show:
  assumes "\<And>c r. s = c # r \<Longrightarrow> \<not> is_digit c"
  shows "scan_digits (show_nat n @ s) = Some (n, s)"
proof -
  have d: "takeWhile is_digit (show_nat n @ s) = show_nat n"
    using assms show_nat_digits [of n] by (cases s) (auto simp: takeWhile_append)
  moreover have "dropWhile is_digit (show_nat n @ s) = s"
    using assms show_nat_digits [of n] by (cases s) (auto simp: dropWhile_append)
  ultimately show ?thesis by (simp add: scan_digits_def digits_val_show_nat)
qed

lemma show_nat_hd: obtains c r where "show_nat n = c # r" "is_digit c"
  using show_nat_not_Nil [of n] show_nat_digits [of n] by (cases "show_nat n") auto

lemma skip_space_show [simp]: "skip_space k (show_nat n @ s) = Some (show_nat n @ s)"
  by (rule show_nat_hd [of n]) (simp add: digit_not_space)

lemma scan_uint_show:
  "n < 2 ^ w \<Longrightarrow> (\<And>c r. s = c # r \<Longrightarrow> \<not> is_digit c) \<Longrightarrow> scan_uint w (show_nat n @ s) = Some (n, s)"
  by (simp add: scan_uint_def scan_digits_show)

lemma scan_int_show:
  assumes "in_int64 (int n)" and "\<And>c r. s = c # r \<Longrightarrow> \<not> is_digit c"
  shows "scan_int (show_nat n @ s) = Some (int n, s)"
proof -
  have "\<not> prefix ''-'' (show_nat n @ s)" "\<not> prefix ''+'' (show_nat n @ s)"
    by (rule show_nat_hd [of n], auto simp: is_digit_def)+
  then show ?thesis
    using assms by (simp add: scan_int_def scan_digits_show)
qed

lemma scan_uint_less: "scan_uint w s = Some (n, r) \<Longrightarrow> n < 2 ^ w"
  by (auto simp: scan_uint_def split: option.splits if_splits)

end
