(* ===== verification/Token_Cache.thy ===== *)
theory Token_Cache
  imports Prelude
begin

text \<open>
  The contract of a cache of recently verified credentials with a time to live, as the token
  verifier relies on it: a lookup hits exactly on a present entry that has not expired, a store
  makes its key present until its expiry, and no operation makes up an entry. What follows for
  any sequence of lookups and stores, with any eviction policy and any clock readings: a hit
  proves a store of the same key at most one time to live ago.
\<close>

datatype 'h cache_op = Lookup time 'h | Store time 'h

locale token_cache =
  fixes invar :: "'c \<Rightarrow> bool"
    and entry :: "'c \<Rightarrow> 'h \<Rightarrow> time option"
    and lookup :: "time \<Rightarrow> 'h \<Rightarrow> 'c \<Rightarrow> bool \<times> 'c"
    and store :: "time \<Rightarrow> 'h \<Rightarrow> 'c \<Rightarrow> 'c"
    and ttl :: duration
  assumes lookup_hit: "invar c \<Longrightarrow> fst (lookup now h c) \<longleftrightarrow> (\<exists>e. entry c h = Some e \<and> now \<le> e)"
    and lookup_entry: "invar c \<Longrightarrow> entry (snd (lookup now h c)) k = Some e \<Longrightarrow> entry c k = Some e"
    and lookup_invar: "invar c \<Longrightarrow> invar (snd (lookup now h c))"
    and store_same: "invar c \<Longrightarrow> entry (store now h c) h = Some (now + ttl)"
    and store_other: "invar c \<Longrightarrow> k \<noteq> h \<Longrightarrow> entry (store now h c) k = Some e \<Longrightarrow> entry c k = Some e"
    and store_invar: "invar c \<Longrightarrow> invar (store now h c)"
begin

fun apply_op :: "'c \<Rightarrow> 'h cache_op \<Rightarrow> 'c" where
  "apply_op c (Lookup now h) = snd (lookup now h c)"
| "apply_op c (Store now h) = store now h c"

lemma apply_invar: "invar c \<Longrightarrow> invar (apply_op c x)"
  by (cases x) (simp_all add: lookup_invar store_invar)

lemma run_invar: "invar c \<Longrightarrow> invar (foldl apply_op c xs)"
  by (induction xs arbitrary: c) (simp_all add: apply_invar)

lemma entry_stored:
  assumes "invar c" and "\<And>k. entry c k = None" and "entry (foldl apply_op c xs) k = Some e"
  shows "\<exists>t. Store t k \<in> set xs \<and> e = t + ttl"
  using assms(3)
proof (induction xs arbitrary: e rule: rev_induct)
  case Nil
  then show ?case using assms(2) by simp
next
  case (snoc x xs)
  have i: "invar (foldl apply_op c xs)" using assms(1) by (rule run_invar)
  show ?case
  proof (cases x)
    case (Lookup now h)
    then have "entry (foldl apply_op c xs) k = Some e"
      using snoc.prems lookup_entry [OF i] by simp
    from snoc.IH [OF this] show ?thesis by auto
  next
    case (Store now h)
    show ?thesis
    proof (cases "k = h")
      case True
      then show ?thesis using snoc.prems Store store_same [OF i, of now h] by auto
    next
      case False
      then have "entry (foldl apply_op c xs) k = Some e"
        using snoc.prems Store store_other [OF i] by simp
      from snoc.IH [OF this] show ?thesis by auto
    qed
  qed
qed

lemma hit_recent:
  assumes "invar c" and "\<And>k. entry c k = None" and "fst (lookup now h (foldl apply_op c xs))"
  shows "\<exists>t. Store t h \<in> set xs \<and> now \<le> t + ttl"
proof -
  from assms(3) obtain e where e: "entry (foldl apply_op c xs) h = Some e" "now \<le> e"
    using lookup_hit [OF run_invar [OF assms(1)]] by blast
  with entry_stored [OF assms(1,2) e(1)] show ?thesis by blast
qed

lemma store_hit: "invar c \<Longrightarrow> fst (lookup now h (store t h c)) \<longleftrightarrow> now \<le> t + ttl"
  using lookup_hit [OF store_invar] store_same by simp

end

end
