(* ===== verification/Auth.thy ===== *)
theory Auth
  imports Go_Encoding Token_Cache "HOL-Library.AList" "HOL-Library.Multiset" "HOL-Library.Monad_Syntax"
begin

text \<open>
  Bearer-token authentication (\<open>internal/auth\<close>): PHC strings, the verifier with its cache of
  verified tokens and its semaphore, and the interleavings of concurrent \<open>Verify\<close> calls.

  \<open>golang.org/x/crypto/argon2\<close> is not part of the source: \<open>IDKey\<close> is the argument
  \<open>idkey password salt time memory threads keyLen\<close> and its \<open>Version\<close> constant the argument
  \<open>version\<close>. SHA-256 and the random source are arguments \<open>sha\<close> and \<open>rand\<close>. Clock readings are
  arguments of the operations that take them.
\<close>

definition argonTime :: nat where "argonTime = 3"
definition argonMemory :: nat where "argonMemory = 64 * 1024"
definition argonThreads :: nat where "argonThreads = 2"
definition argonKeyLen :: nat where "argonKeyLen = 32"
definition argonSaltLen :: nat where "argonSaltLen = 16"

definition cacheMaxEntries :: nat where "cacheMaxEntries = 1024"
definition cacheTTL :: duration where "cacheTTL = 60 * second"
definition tokenMaxLen :: nat where "tokenMaxLen = 512"

datatype auth_error =
    ReadSalt
  | NotPHC
  | UnsupportedAlgorithm bytes
  | ParseVersion
  | UnsupportedVersion int
  | ParseParams
  | ZeroParam
  | DecodeSalt
  | DecodeKey
  | TokenError nat auth_error

type_synonym idkey = "bytes \<Rightarrow> bytes \<Rightarrow> nat \<Rightarrow> nat \<Rightarrow> nat \<Rightarrow> nat \<Rightarrow> bytes"

subsection \<open>PHC strings\<close>

definition phc_string :: "int \<Rightarrow> nat \<Rightarrow> nat \<Rightarrow> nat \<Rightarrow> bytes \<Rightarrow> bytes \<Rightarrow> bytes" where
  "phc_string version mem t par salt key =
     ''$argon2id$v='' @ itoa version @ ''$m='' @ show_nat mem @ '',t='' @ show_nat t @ '',p='' @ show_nat par
       @ ''$'' @ b64_encode salt @ ''$'' @ b64_encode key"

definition Hash :: "idkey \<Rightarrow> int \<Rightarrow> (nat \<Rightarrow> bytes option) \<Rightarrow> bytes \<Rightarrow> auth_error + bytes" where
  "Hash idkey version rand plain =
     (case rand argonSaltLen of
        None \<Rightarrow> Inl ReadSalt
      | Some salt \<Rightarrow>
          Inr (phc_string version argonMemory argonTime argonThreads salt
                 (idkey plain salt argonTime argonMemory argonThreads argonKeyLen)))"

record parsed =
  p_time :: nat
  p_memory :: nat
  p_threads :: nat
  p_salt :: bytes
  p_key :: bytes

text \<open>\<open>Sscanf(s, "v=%d", \<dots>)\<close> and \<open>Sscanf(s, "m=%d,t=%d,p=%d", \<dots>)\<close>.\<close>

definition scan_version :: "bytes \<Rightarrow> int option" where
  "scan_version s =
     do { s \<leftarrow> scan_literal ''v='' s; (i, _) \<leftarrow> scan_int s; Some i }"

definition scan_params :: "bytes \<Rightarrow> (nat \<times> nat \<times> nat) option" where
  "scan_params s =
     do { s \<leftarrow> scan_literal ''m='' s; (mem, s) \<leftarrow> scan_uint 32 s;
          s \<leftarrow> scan_literal '',t='' s; (t, s) \<leftarrow> scan_uint 32 s;
          s \<leftarrow> scan_literal '',p='' s; (par, _) \<leftarrow> scan_uint 8 s;
          Some (mem, t, par) }"

definition parseEncoded :: "int \<Rightarrow> bytes \<Rightarrow> auth_error + parsed" where
  "parseEncoded version s =
     (let parts = split_on CHR ''$'' s in
      if length parts \<noteq> 6 \<or> parts ! 0 \<noteq> [] then Inl NotPHC
      else if parts ! 1 \<noteq> ''argon2id'' then Inl (UnsupportedAlgorithm (parts ! 1))
      else case scan_version (parts ! 2) of
        None \<Rightarrow> Inl ParseVersion
      | Some v \<Rightarrow>
          if v \<noteq> version then Inl (UnsupportedVersion v)
          else case scan_params (parts ! 3) of
            None \<Rightarrow> Inl ParseParams
          | Some (mem, t, par) \<Rightarrow>
              if mem = 0 \<or> t = 0 \<or> par = 0 then Inl ZeroParam
              else case b64_decode (parts ! 4) of
                None \<Rightarrow> Inl DecodeSalt
              | Some salt \<Rightarrow>
                  (case b64_decode (parts ! 5) of
                     None \<Rightarrow> Inl DecodeKey
                   | Some key \<Rightarrow>
                       Inr \<lparr>p_time = t, p_memory = mem, p_threads = par, p_salt = salt, p_key = key\<rparr>))"

text \<open>One evaluation: the candidate key compared with the stored one.\<close>

definition matches :: "idkey \<Rightarrow> bytes \<Rightarrow> parsed \<Rightarrow> bool" where
  "matches idkey plain p \<longleftrightarrow>
     idkey plain (p_salt p) (p_time p) (p_memory p) (p_threads p) (length (p_key p) mod 2 ^ 32) = p_key p"

text \<open>The package-level \<open>Verify\<close>.\<close>

definition Verify_encoded :: "idkey \<Rightarrow> int \<Rightarrow> bytes \<Rightarrow> bytes \<Rightarrow> auth_error + bool" where
  "Verify_encoded idkey version plain encoded =
     (case parseEncoded version encoded of
        Inl e \<Rightarrow> Inl e
      | Inr p \<Rightarrow> Inr (matches idkey plain p))"

subsection \<open>The verifier\<close>

text \<open>
  \<open>sem\<close> is the number of slots of the semaphore channel in use, \<open>sem_cap\<close> its capacity
  (\<open>runtime.NumCPU()\<close>). The cache map is kept as an association list with distinct keys.
\<close>

record Verifier =
  allow :: "parsed list"
  sem_cap :: nat
  sem :: nat
  cache :: "(bytes \<times> time) list"
  cacheOrder :: "bytes list"

fun parse_all :: "int \<Rightarrow> nat \<Rightarrow> bytes list \<Rightarrow> auth_error + parsed list" where
  "parse_all version i [] = Inr []"
| "parse_all version i (e # es) =
     (case parseEncoded version e of
        Inl err \<Rightarrow> Inl (TokenError i err)
      | Inr p \<Rightarrow>
          (case parse_all version (Suc i) es of Inl err \<Rightarrow> Inl err | Inr ps \<Rightarrow> Inr (p # ps)))"

definition NewVerifier :: "int \<Rightarrow> nat \<Rightarrow> bytes list \<Rightarrow> auth_error + Verifier" where
  "NewVerifier version numCPU encoded =
     (case parse_all version 0 encoded of
        Inl e \<Rightarrow> Inl e
      | Inr ps \<Rightarrow> Inr \<lparr>allow = ps, sem_cap = numCPU, sem = 0, cache = [], cacheOrder = []\<rparr>)"

text \<open>\<open>Enabled\<close> is called on a possibly nil verifier.\<close>

definition Verifier_Enabled :: "Verifier option \<Rightarrow> bool" where
  "Verifier_Enabled v = (case v of None \<Rightarrow> False | Some v \<Rightarrow> allow v \<noteq> [])"

definition shape_ok :: "char \<Rightarrow> bool" where
  "shape_ok c \<longleftrightarrow>
     (let n = (of_char c :: nat) in
      65 \<le> n \<and> n \<le> 90 \<or> 97 \<le> n \<and> n \<le> 122 \<or> 48 \<le> n \<and> n \<le> 57
      \<or> c \<in> {CHR ''+'', CHR ''/'', CHR ''='', CHR ''.'', CHR ''_'', CHR ''-''})"

definition hasValidShape :: "bytes \<Rightarrow> bool" where
  "hasValidShape plain \<longleftrightarrow>
     (if length plain > tokenMaxLen then False
      else foldl (\<lambda>bad c. if \<not> shape_ok c then bad + 1 else bad) (0::nat) plain = 0)"

definition cacheLookup :: "time \<Rightarrow> bytes \<Rightarrow> Verifier \<Rightarrow> bool \<times> Verifier" where
  "cacheLookup now h v =
     (case map_of (cache v) h of
        None \<Rightarrow> (False, v)
      | Some expiresAt \<Rightarrow>
          if now > expiresAt then (False, v\<lparr>cache := AList.delete h (cache v)\<rparr>) else (True, v))"

text \<open>The eviction loop: ids no longer in the cache are dropped, the first one present is evicted.\<close>

fun evict_oldest :: "(bytes \<times> time) list \<Rightarrow> bytes list \<Rightarrow> (bytes \<times> time) list \<times> bytes list" where
  "evict_oldest c [] = (c, [])"
| "evict_oldest c (oldest # order) =
     (if map_of c oldest \<noteq> None then (AList.delete oldest c, order) else evict_oldest c order)"

definition cacheStore :: "time \<Rightarrow> bytes \<Rightarrow> Verifier \<Rightarrow> Verifier" where
  "cacheStore now h v =
     (if map_of (cache v) h \<noteq> None then v\<lparr>cache := AList.update h (now + cacheTTL) (cache v)\<rparr>
      else
        let (c, order) = (if length (cache v) \<ge> cacheMaxEntries then evict_oldest (cache v) (cacheOrder v)
                          else (cache v, cacheOrder v))
        in v\<lparr>cache := AList.update h (now + cacheTTL) c, cacheOrder := order @ [h]\<rparr>)"

text \<open>The loop over every stored hash, accumulating the match bit.\<close>

definition matched :: "idkey \<Rightarrow> Verifier \<Rightarrow> bytes \<Rightarrow> bool" where
  "matched idkey v plain = foldl (\<lambda>m p. m \<or> matches idkey plain p) False (allow v)"

text \<open>
  \<open>Verify\<close> run on its own: the result is \<open>(ok, busy)\<close>. The clock is read at the lookup (\<open>now\<close>)
  and, after the argon2 work, at the store (\<open>now'\<close>). The deferred release returns the slot.
\<close>

definition Verify ::
  "idkey \<Rightarrow> (bytes \<Rightarrow> bytes) \<Rightarrow> time \<Rightarrow> time \<Rightarrow> bytes \<Rightarrow> Verifier \<Rightarrow> (bool \<times> bool) \<times> Verifier" where
  "Verify idkey sha now now' plain v =
     (if \<not> Verifier_Enabled (Some v) \<or> plain = [] then ((False, False), v)
      else if \<not> hasValidShape plain then ((False, False), v)
      else
        let h = sha plain; (hit, v) = cacheLookup now h v in
        if hit then ((True, False), v)
        else if \<not> sem v < sem_cap v then ((False, True), v)
        else
          let v = v\<lparr>sem := sem v + 1\<rparr> in
          if matched idkey v plain
          then let v = cacheStore now' h v in ((True, False), v\<lparr>sem := sem v - 1\<rparr>)
          else ((False, False), v\<lparr>sem := sem v - 1\<rparr>))"

subsection \<open>Concurrent calls\<close>

text \<open>
  The points at which a call touches shared state. The cache operations hold the mutex, the
  semaphore operations are channel operations: each is one step.
\<close>

datatype verify_pc = VStart | VLookup | VAcquire | VArgon | VStore | VRelease bool | VDone bool bool

fun verify_step ::
  "idkey \<Rightarrow> (bytes \<Rightarrow> bytes) \<Rightarrow> time \<Rightarrow> bytes \<Rightarrow> Verifier \<times> verify_pc \<Rightarrow> Verifier \<times> verify_pc" where
  "verify_step idkey sha now plain (v, VStart) =
     (if \<not> Verifier_Enabled (Some v) \<or> plain = [] then (v, VDone False False)
      else if \<not> hasValidShape plain then (v, VDone False False)
      else (v, VLookup))"
| "verify_step idkey sha now plain (v, VLookup) =
     (let (hit, v) = cacheLookup now (sha plain) v in
      (v, if hit then VDone True False else VAcquire))"
| "verify_step idkey sha now plain (v, VAcquire) =
     (if sem v < sem_cap v then (v\<lparr>sem := sem v + 1\<rparr>, VArgon) else (v, VDone False True))"
| "verify_step idkey sha now plain (v, VArgon) =
     (v, if matched idkey v plain then VStore else VRelease False)"
| "verify_step idkey sha now plain (v, VStore) = (cacheStore now (sha plain) v, VRelease True)"
| "verify_step idkey sha now plain (v, VRelease ok) = (v\<lparr>sem := sem v - 1\<rparr>, VDone ok False)"
| "verify_step idkey sha now plain (v, VDone ok busy) = (v, VDone ok busy)"

text \<open>
  A run interleaves any number of calls, each step at its own clock reading. The trace records
  when a token was stored and when a call was granted from the cache.
\<close>

datatype auth_event = Stored time bytes | CacheHit time bytes

type_synonym call = "bytes \<times> verify_pc"
type_synonym auth_sys = "Verifier \<times> call multiset \<times> auth_event list"

definition event_of :: "time \<Rightarrow> bytes \<Rightarrow> verify_pc \<Rightarrow> verify_pc \<Rightarrow> auth_event list" where
  "event_of now plain pc pc' =
     (if pc = VStore then [Stored now plain]
      else if pc = VLookup \<and> pc' = VDone True False then [CacheHit now plain] else [])"

inductive auth_step :: "idkey \<Rightarrow> (bytes \<Rightarrow> bytes) \<Rightarrow> auth_sys \<Rightarrow> auth_sys \<Rightarrow> bool" for idkey sha where
  call: "auth_step idkey sha (v, G, tr) (v, add_mset (plain, VStart) G, tr)"
| move: "verify_step idkey sha now plain (v, pc) = (v', pc') \<Longrightarrow>
     auth_step idkey sha (v, add_mset (plain, pc) G, tr)
       (v', add_mset (plain, pc') G, tr @ event_of now plain pc pc')"

inductive auth_reach ::
  "idkey \<Rightarrow> (bytes \<Rightarrow> bytes) \<Rightarrow> int \<Rightarrow> nat \<Rightarrow> bytes list \<Rightarrow> auth_sys \<Rightarrow> bool"
  for idkey sha version numCPU encoded where
  start: "NewVerifier version numCPU encoded = Inr v \<Longrightarrow>
     auth_reach idkey sha version numCPU encoded (v, {#}, [])"
| step: "auth_reach idkey sha version numCPU encoded s \<Longrightarrow> auth_step idkey sha s t \<Longrightarrow>
     auth_reach idkey sha version numCPU encoded t"

subsection \<open>The cache\<close>

definition cache_wf :: "Verifier \<Rightarrow> bool" where
  "cache_wf v \<longleftrightarrow>
     distinct (map fst (cache v)) \<and> fst ` set (cache v) \<subseteq> set (cacheOrder v)
     \<and> length (cache v) \<le> cacheMaxEntries"

lemma length_alist_update:
  "length (AList.update k e c) = (if k \<in> fst ` set c then length c else Suc (length c))"
  by (induction c) auto

lemma length_alist_delete: "length (AList.delete k c) \<le> length c"
  by (simp add: AList.delete_eq)

lemma length_alist_delete_less: "k \<in> fst ` set c \<Longrightarrow> length (AList.delete k c) < length c"
  by (auto simp: AList.delete_eq intro!: length_filter_less)

lemma keys_alist_delete: "fst ` set (AList.delete k c) = fst ` set c - {k}"
  by (auto simp: AList.delete_eq)

lemma map_of_delete_Some: "map_of (AList.delete k c) x = Some e \<Longrightarrow> map_of c x = Some e"
  by (simp add: AList.delete_conv' split: if_splits)

lemma evict_oldest_spec:
  assumes "evict_oldest c order = (c', order')" and "distinct (map fst c)" and "fst ` set c \<subseteq> set order"
  shows "distinct (map fst c') \<and> fst ` set c' \<subseteq> set order' \<and> set order' \<subseteq> set order
     \<and> (\<forall>k e. map_of c' k = Some e \<longrightarrow> map_of c k = Some e) \<and> (c \<noteq> [] \<longrightarrow> length c' < length c)"
  using assms
proof (induction c order rule: evict_oldest.induct)
  case (2 c oldest order)
  show ?case
  proof (cases "map_of c oldest = None")
    case True
    then have "oldest \<notin> fst ` set c" by (simp add: map_of_eq_None_iff)
    then have "fst ` set c \<subseteq> set order" using "2.prems"(3) by auto
    with 2 True show ?thesis by auto
  next
    case False
    then have "oldest \<in> fst ` set c" by (metis map_of_eq_None_iff)
    then have "length (AList.delete oldest c) < length c" by (rule length_alist_delete_less)
    moreover have "c' = AList.delete oldest c" "order' = order" using "2.prems"(1) False by auto
    moreover have "fst ` set (AList.delete oldest c) \<subseteq> set order"
      using "2.prems"(3) unfolding keys_alist_delete by auto
    ultimately show ?thesis
      using "2.prems"(2) map_of_delete_Some [of oldest c] by (simp add: distinct_delete subset_insertI)
  qed
qed auto

lemma cacheLookup_frame:
  "cacheLookup now h v = (hit, v') \<Longrightarrow>
   allow v' = allow v \<and> sem_cap v' = sem_cap v \<and> sem v' = sem v \<and> cacheOrder v' = cacheOrder v"
  by (auto simp: cacheLookup_def split: option.splits if_splits)

lemma cacheStore_frame [simp]:
  "allow (cacheStore now h v) = allow v" "sem_cap (cacheStore now h v) = sem_cap v"
  "sem (cacheStore now h v) = sem v"
  by (simp_all add: cacheStore_def split: prod.split)

lemma cacheLookup_wf: "cache_wf v \<Longrightarrow> cache_wf (snd (cacheLookup now h v))"
  using length_alist_delete [of h "cache v"]
  by (simp add: cache_wf_def cacheLookup_def keys_alist_delete distinct_delete split: option.split) blast

lemma cacheStore_wf:
  assumes "cache_wf v"
  shows "cache_wf (cacheStore now h v)"
proof (cases "map_of (cache v) h = None")
  case False
  then have "h \<in> fst ` set (cache v)" by (metis map_of_eq_None_iff)
  then show ?thesis
    using assms False by (auto simp: cache_wf_def cacheStore_def dom_update distinct_update length_alist_update)
next
  case True
  obtain c order where co: "(if length (cache v) \<ge> cacheMaxEntries
      then evict_oldest (cache v) (cacheOrder v) else (cache v, cacheOrder v)) = (c, order)"
    by fastforce
  have "distinct (map fst c) \<and> fst ` set c \<subseteq> set order \<and> length c < cacheMaxEntries"
  proof (cases "length (cache v) \<ge> cacheMaxEntries")
    case False
    then show ?thesis using co assms by (auto simp: cache_wf_def)
  next
    case True
    then have "cache v \<noteq> []" by (auto simp: cacheMaxEntries_def)
    then show ?thesis
      using evict_oldest_spec [of "cache v" "cacheOrder v" c order] co assms True
      by (auto simp: cache_wf_def)
  qed
  then show ?thesis
    using co True by (auto simp: cacheStore_def cache_wf_def dom_update distinct_update length_alist_update)
qed

lemma cacheStore_other:
  assumes "cache_wf v" and "k \<noteq> h" and "map_of (cache (cacheStore now h v)) k = Some e"
  shows "map_of (cache v) k = Some e"
proof -
  have "map_of (fst (evict_oldest (cache v) (cacheOrder v))) k = Some e \<Longrightarrow> map_of (cache v) k = Some e"
    using evict_oldest_spec [of "cache v" "cacheOrder v"] assms(1)
    by (cases "evict_oldest (cache v) (cacheOrder v)") (auto simp: cache_wf_def)
  with assms(2,3) show ?thesis
    by (auto simp: cacheStore_def update_conv' split: if_splits prod.splits)
qed

interpretation tokens: token_cache cache_wf "\<lambda>v. map_of (cache v)" cacheLookup cacheStore cacheTTL
proof unfold_locales
  fix v now h
  show "fst (cacheLookup now h v) \<longleftrightarrow> (\<exists>e. map_of (cache v) h = Some e \<and> now \<le> e)"
    by (auto simp: cacheLookup_def split: option.split)
  show "map_of (cache (cacheStore now h v)) h = Some (now + cacheTTL)"
    by (simp add: cacheStore_def update_conv' split: prod.split)
next
  fix v now h k e
  assume "map_of (cache (snd (cacheLookup now h v))) k = Some e"
  then show "map_of (cache v) k = Some e"
    by (auto simp: cacheLookup_def dest: map_of_delete_Some split: option.splits if_splits)
qed (blast intro: cacheLookup_wf cacheStore_wf cacheStore_other)+

subsection \<open>PHC strings: lemmas\<close>

lemma show_nat_no_dollar [simp]: "CHR ''$'' \<notin> set (show_nat n)"
  using show_nat_digits [of n] by (auto simp: is_digit_def)

lemma b64_encode_no_dollar [simp]: "CHR ''$'' \<notin> set (b64_encode s)"
  using b64_encode_plain by blast

lemma split_phc_string:
  assumes "0 \<le> version"
  shows "split_on CHR ''$'' (phc_string version mem t par salt key) =
     [[], ''argon2id'', ''v='' @ show_nat (nat version),
      ''m='' @ show_nat mem @ '',t='' @ show_nat t @ '',p='' @ show_nat par, b64_encode salt, b64_encode key]"
proof -
  let ?d = "CHR ''$''"
  let ?params = "''m='' @ show_nat mem @ '',t='' @ show_nat t @ '',p='' @ show_nat par"
  have "phc_string version mem t par salt key =
      [] @ ?d # ''argon2id'' @ ?d # (''v='' @ show_nat (nat version)) @ ?d # ?params
        @ ?d # b64_encode salt @ ?d # b64_encode key"
    using assms by (simp add: phc_string_def itoa_def)
  moreover have "?d \<notin> set ''argon2id''" "?d \<notin> set (''v='' @ show_nat (nat version))" "?d \<notin> set ?params"
    by simp_all
  ultimately show ?thesis
    by (simp only: split_on_append split_on_no_sep b64_encode_no_dollar list.set empty_iff
        simp_thms)
qed

lemma scan_version_show:
  "0 \<le> version \<Longrightarrow> in_int64 version \<Longrightarrow> scan_version (''v='' @ show_nat (nat version)) = Some version"
  using scan_int_show [of "nat version" "[]"] scan_literal_append [of "''v=''"]
  by (simp add: scan_version_def)

lemma scan_params_show:
  assumes "mem < 2 ^ 32" and "t < 2 ^ 32" and "par < 2 ^ 8"
  shows "scan_params (''m='' @ show_nat mem @ '',t='' @ show_nat t @ '',p='' @ show_nat par) = Some (mem, t, par)"
proof -
  have 1: "scan_uint 32 (show_nat mem @ '',t='' @ show_nat t @ '',p='' @ show_nat par)
      = Some (mem, '',t='' @ show_nat t @ '',p='' @ show_nat par)"
    using assms(1) by (rule scan_uint_show) (auto simp: is_digit_def)
  have 2: "scan_uint 32 (show_nat t @ '',p='' @ show_nat par) = Some (t, '',p='' @ show_nat par)"
    using assms(2) by (rule scan_uint_show) (auto simp: is_digit_def)
  have 3: "scan_uint 8 (show_nat par) = Some (par, [])"
    using scan_uint_show [of par 8 "[]"] assms(3) by simp
  show ?thesis
    unfolding scan_params_def by (simp only: scan_literal_append bind.bind_lunit prod.case 1 2 3)
qed

lemma parseEncoded_phc:
  assumes "0 \<le> version" and "in_int64 version"
    and "0 < mem" "mem < 2 ^ 32" and "0 < t" "t < 2 ^ 32" and "0 < par" "par < 2 ^ 8"
  shows "parseEncoded version (phc_string version mem t par salt key) =
     Inr \<lparr>p_time = t, p_memory = mem, p_threads = par, p_salt = salt, p_key = key\<rparr>"
  using assms split_phc_string [OF assms(1)] scan_version_show [OF assms(1,2)]
    scan_params_show [OF assms(4,6,8)] b64_roundtrip
  by (simp add: parseEncoded_def Let_def)

lemma scan_params_range:
  "scan_params s = Some (mem, t, par) \<Longrightarrow> mem < 2 ^ 32 \<and> t < 2 ^ 32 \<and> par < 2 ^ 8"
  by (auto simp: scan_params_def bind_eq_Some_conv dest: scan_uint_less)

lemma parseEncoded_range:
  assumes "parseEncoded version s = Inr p"
  shows "0 < p_time p \<and> p_time p < 2 ^ 32 \<and> 0 < p_memory p \<and> p_memory p < 2 ^ 32
     \<and> 0 < p_threads p \<and> p_threads p < 2 ^ 8 \<and> split_on CHR ''$'' s ! 1 = ''argon2id''
     \<and> scan_version (split_on CHR ''$'' s ! 2) = Some version"
  using assms scan_params_range
  by (auto simp: parseEncoded_def Let_def split: if_splits option.splits)

lemma parse_all_Inr:
  "parse_all version i es = Inr ps \<longleftrightarrow> map (parseEncoded version) es = map Inr ps"
  by (induction es arbitrary: i ps) (auto split: sum.split, metis sum.distinct(1))

lemma parse_all_Inl:
  "parse_all version i es = Inl err \<longleftrightarrow>
   (\<exists>j e. j < length es \<and> err = TokenError (i + j) e \<and> parseEncoded version (es ! j) = Inl e
      \<and> (\<forall>k<j. \<exists>p. parseEncoded version (es ! k) = Inr p))"
proof (induction es arbitrary: i)
  case (Cons x es)
  show ?case
  proof (cases "parseEncoded version x")
    case (Inl e)
    then show ?thesis by (auto simp: nth_Cons' intro: exI [of _ 0])
  next
    case (Inr p)
    have "(\<exists>j e. j < length (x # es) \<and> err = TokenError (i + j) e \<and> parseEncoded version ((x # es) ! j) = Inl e
        \<and> (\<forall>k<j. \<exists>p. parseEncoded version ((x # es) ! k) = Inr p)) \<longleftrightarrow>
      (\<exists>j e. j < length es \<and> err = TokenError (Suc i + j) e \<and> parseEncoded version (es ! j) = Inl e
        \<and> (\<forall>k<j. \<exists>p. parseEncoded version (es ! k) = Inr p))" (is "?l \<longleftrightarrow> ?r")
      using Inr by (subst ex_nat_suc_split) (auto simp: all_less_Suc_split)
    then show ?thesis using Cons.IH [of "Suc i"] Inr by (auto split: sum.split)
  qed
qed simp

subsection \<open>Verify\<close>

definition auth_match :: "idkey \<Rightarrow> parsed list \<Rightarrow> bytes \<Rightarrow> bool" where
  "auth_match idkey ps plain \<longleftrightarrow> (\<exists>p \<in> set ps. matches idkey plain p)"

lemma matched_iff: "matched idkey v plain \<longleftrightarrow> auth_match idkey (allow v) plain"
proof -
  have "foldl (\<lambda>m p. m \<or> matches idkey plain p) b ps \<longleftrightarrow> b \<or> (\<exists>p \<in> set ps. matches idkey plain p)" for b ps
    by (induction ps arbitrary: b) auto
  then show ?thesis by (simp add: matched_def auth_match_def)
qed

lemma hasValidShape_iff: "hasValidShape plain \<longleftrightarrow> length plain \<le> tokenMaxLen \<and> (\<forall>c \<in> set plain. shape_ok c)"
proof -
  have "foldl (\<lambda>bad c. if \<not> shape_ok c then bad + 1 else bad) b plain = b + length (filter (\<lambda>c. \<not> shape_ok c) plain)"
    for b :: nat
    by (induction plain arbitrary: b) auto
  then show ?thesis by (auto simp: hasValidShape_def filter_empty_conv)
qed

definition live :: "time \<Rightarrow> bytes \<Rightarrow> Verifier \<Rightarrow> bool" where
  "live now h v \<longleftrightarrow> (\<exists>e. map_of (cache v) h = Some e \<and> now \<le> e)"

lemma cacheLookup_fst: "fst (cacheLookup now h v) \<longleftrightarrow> live now h v"
  by (auto simp: live_def cacheLookup_def split: option.split)

lemma Verify_cases:
  "fst (Verify idkey sha now now' plain v) =
     (if allow v = [] \<or> plain = [] \<or> \<not> hasValidShape plain then (False, False)
      else if live now (sha plain) v then (True, False)
      else if sem v < sem_cap v then (auth_match idkey (allow v) plain, False)
      else (False, True))"
proof -
  obtain hit w where c: "cacheLookup now (sha plain) v = (hit, w)" by fastforce
  have "hit \<longleftrightarrow> live now (sha plain) v" using cacheLookup_fst [of now "sha plain" v] c by simp
  then show ?thesis
    using cacheLookup_frame [OF c]
    by (simp add: Verify_def Verifier_Enabled_def c Let_def matched_iff)
qed

lemma Verify_wf:
  assumes "cache_wf v"
  shows "cache_wf (snd (Verify idkey sha now now' plain v))
     \<and> sem (snd (Verify idkey sha now now' plain v)) = sem v
     \<and> allow (snd (Verify idkey sha now now' plain v)) = allow v"
proof -
  obtain hit w where c: "cacheLookup now (sha plain) v = (hit, w)" by fastforce
  have w: "cache_wf w" using cacheLookup_wf [OF assms, of now "sha plain"] c by simp
  have [simp]: "cache_wf (x\<lparr>sem := n\<rparr>) = cache_wf x" for x n by (simp add: cache_wf_def)
  have "cache_wf (cacheStore now' (sha plain) (w\<lparr>sem := n\<rparr>))" for n using w by (simp add: cacheStore_wf)
  then show ?thesis
    using assms w cacheLookup_frame [OF c] by (simp add: Verify_def c Let_def)
qed

lemma Verify_sem: "sem (snd (Verify idkey sha now now' plain v)) = sem v"
proof -
  obtain hit w where c: "cacheLookup now (sha plain) v = (hit, w)" by fastforce
  show ?thesis using cacheLookup_frame [OF c] by (simp add: Verify_def c Let_def)
qed

text \<open>A call on its own takes at most six steps, and they compute \<open>Verify\<close>.\<close>

lemma Verify_steps:
  "(verify_step idkey sha now plain ^^ 6) (v, VStart)
     = (snd (Verify idkey sha now now plain v), VDone (fst (fst (Verify idkey sha now now plain v)))
          (snd (fst (Verify idkey sha now now plain v))))"
  by (simp add: Verify_def numeral_eq_Suc Let_def split: prod.split)

subsection \<open>The invariant of concurrent use\<close>

definition holds_sem :: "call \<Rightarrow> bool" where
  "holds_sem g \<longleftrightarrow> snd g \<in> {VArgon, VStore, VRelease True, VRelease False}"

definition holders :: "call multiset \<Rightarrow> nat" where
  "holders G = size (filter_mset holds_sem G)"

text \<open>What is known of a call at each point; \<open>good\<close> says that a plaintext is in the allow list.\<close>

fun call_ok :: "(bytes \<Rightarrow> bool) \<Rightarrow> (bytes \<Rightarrow> bytes) \<Rightarrow> call \<Rightarrow> bool" where
  "call_ok good sha (plain, VStart) = True"
| "call_ok good sha (plain, VStore) = (plain \<noteq> [] \<and> hasValidShape plain \<and> good plain)"
| "call_ok good sha (plain, VRelease ok) = (plain \<noteq> [] \<and> hasValidShape plain \<and> ok = good plain)"
| "call_ok good sha (plain, VDone ok busy) =
     (ok \<longrightarrow> \<not> busy \<and> plain \<noteq> [] \<and> hasValidShape plain \<and> (\<exists>plain'. sha plain' = sha plain \<and> good plain'))"
| "call_ok good sha (plain, _) = (plain \<noteq> [] \<and> hasValidShape plain)"

definition hits_ok :: "(bytes \<Rightarrow> bytes) \<Rightarrow> auth_event list \<Rightarrow> bool" where
  "hits_ok sha tr \<longleftrightarrow>
     (\<forall>i now plain. i < length tr \<longrightarrow> tr ! i = CacheHit now plain \<longrightarrow>
        (\<exists>j t plain'. j < i \<and> tr ! j = Stored t plain' \<and> sha plain' = sha plain \<and> now \<le> t + cacheTTL))"

definition cache_from :: "(bytes \<Rightarrow> bytes) \<Rightarrow> Verifier \<Rightarrow> auth_event list \<Rightarrow> bool" where
  "cache_from sha v tr \<longleftrightarrow>
     (\<forall>k e. map_of (cache v) k = Some e \<longrightarrow>
        (\<exists>t plain. Stored t plain \<in> set tr \<and> sha plain = k \<and> e = t + cacheTTL))"

definition auth_inv :: "idkey \<Rightarrow> (bytes \<Rightarrow> bytes) \<Rightarrow> parsed list \<Rightarrow> nat \<Rightarrow> auth_sys \<Rightarrow> bool" where
  "auth_inv idkey sha ps n s \<longleftrightarrow>
     (let (v, G, tr) = s in
      allow v = ps \<and> sem_cap v = n \<and> cache_wf v
      \<and> sem v = holders G \<and> sem v \<le> n
      \<and> (\<forall>g \<in># G. call_ok (auth_match idkey ps) sha g)
      \<and> cache_from sha v tr \<and> hits_ok sha tr
      \<and> (\<forall>t plain. Stored t plain \<in> set tr \<longrightarrow> auth_match idkey ps plain))"

lemma holders_add [simp]:
  "holders (add_mset g G) = (if holds_sem g then Suc (holders G) else holders G)"
  by (simp add: holders_def)

lemma hits_ok_snoc:
  "hits_ok sha (tr @ [x]) \<longleftrightarrow> hits_ok sha tr \<and>
     (\<forall>now plain. x = CacheHit now plain \<longrightarrow>
        (\<exists>t plain'. Stored t plain' \<in> set tr \<and> sha plain' = sha plain \<and> now \<le> t + cacheTTL))"
  (is "?l \<longleftrightarrow> ?r \<and> ?x")
proof
  assume l: ?l
  have "\<exists>j t plain'. j < i \<and> tr ! j = Stored t plain' \<and> sha plain' = sha plain \<and> now \<le> t + cacheTTL"
    if "i < length tr" "tr ! i = CacheHit now plain" for i now plain
    using l that unfolding hits_ok_def
    by (auto simp: nth_append dest!: spec [of _ i]) (metis less_trans)
  moreover have "\<exists>t plain'. Stored t plain' \<in> set tr \<and> sha plain' = sha plain \<and> now \<le> t + cacheTTL"
    if "x = CacheHit now plain" for now plain
    using l that unfolding hits_ok_def
    by (auto simp: nth_append dest!: spec [of _ "length tr"]) (metis nth_mem)
  ultimately show "?r \<and> ?x" unfolding hits_ok_def by blast
next
  assume r: "?r \<and> ?x"
  have "\<exists>j t plain'. j < i \<and> (tr @ [x]) ! j = Stored t plain' \<and> sha plain' = sha plain \<and> now \<le> t + cacheTTL"
    if i: "i < Suc (length tr)" "(tr @ [x]) ! i = CacheHit now plain" for i now plain
  proof (cases "i < length tr")
    case True
    then have "tr ! i = CacheHit now plain" using i by (simp add: nth_append)
    then obtain j t plain' where "j < i" "tr ! j = Stored t plain'" "sha plain' = sha plain" "now \<le> t + cacheTTL"
      using r True unfolding hits_ok_def by blast
    then show ?thesis using True by (intro exI [of _ j]) (auto simp: nth_append)
  next
    case False
    then have "i = length tr" "x = CacheHit now plain" using i by (auto simp: nth_append)
    then obtain t plain' where st: "Stored t plain' \<in> set tr" "sha plain' = sha plain" "now \<le> t + cacheTTL"
      using r by blast
    from st(1) obtain j where "j < length tr" "tr ! j = Stored t plain'" by (metis in_set_conv_nth)
    then show ?thesis
      using st \<open>i = length tr\<close> by (intro exI [of _ j]) (auto simp: nth_append)
  qed
  then show ?l unfolding hits_ok_def by simp
qed

lemma cache_from_mono:
  "cache_from sha v tr \<Longrightarrow> (\<And>k e. map_of (cache w) k = Some e \<Longrightarrow> map_of (cache v) k = Some e) \<Longrightarrow>
   cache_from sha w (tr @ ev)"
  by (fastforce simp: cache_from_def)

lemma cache_from_store:
  assumes "cache_wf v" and "cache_from sha v tr"
  shows "cache_from sha (cacheStore now (sha plain) v) (tr @ [Stored now plain])"
  unfolding cache_from_def
proof (intro allI impI)
  fix k e
  assume e: "map_of (cache (cacheStore now (sha plain) v)) k = Some e"
  show "\<exists>t p. Stored t p \<in> set (tr @ [Stored now plain]) \<and> sha p = k \<and> e = t + cacheTTL"
  proof (cases "k = sha plain")
    case True
    then show ?thesis using e tokens.store_same [OF assms(1)] by auto
  next
    case False
    then have "map_of (cache v) k = Some e" using tokens.store_other [OF assms(1)] e by blast
    with assms(2) show ?thesis unfolding cache_from_def by fastforce
  qed
qed

lemma auth_inv_lookup:
  assumes "auth_inv idkey sha ps n (v, add_mset (plain, VLookup) G, tr)"
    and "cacheLookup now (sha plain) v = (hit, w)"
  defines "pc \<equiv> if hit then VDone True False else VAcquire"
  shows "auth_inv idkey sha ps n (w, add_mset (plain, pc) G, tr @ event_of now plain VLookup pc)"
proof -
  have wf: "cache_wf v" and cf: "cache_from sha v tr" and hk: "hits_ok sha tr"
    and good: "Stored t p \<in> set tr \<Longrightarrow> auth_match idkey ps p" for t p
    using assms(1) by (auto simp: auth_inv_def)
  have w: "cache_wf w" using tokens.lookup_invar [OF wf, of now "sha plain"] assms(2) by simp
  have sub: "map_of (cache w) k = Some e \<Longrightarrow> map_of (cache v) k = Some e" for k e
    using tokens.lookup_entry [OF wf, of now "sha plain" k e] assms(2) by simp
  have from_store: "\<exists>t p. Stored t p \<in> set tr \<and> sha p = sha plain \<and> now \<le> t + cacheTTL" if h: hit
  proof -
    obtain e where "map_of (cache v) (sha plain) = Some e" "now \<le> e"
      using h assms(2) tokens.lookup_hit [OF wf, of now "sha plain"] by auto
    then show ?thesis using cf unfolding cache_from_def by metis
  qed
  then have "hits_ok sha (tr @ event_of now plain VLookup pc)"
    using hk by (auto simp: event_of_def hits_ok_snoc pc_def)
  moreover have "cache_from sha w (tr @ event_of now plain VLookup pc)"
    using cf sub by (rule cache_from_mono)
  moreover have "\<exists>p. sha p = sha plain \<and> auth_match idkey ps p" if hit
    using from_store [OF that] good by blast
  ultimately show ?thesis
    using assms(1) w cacheLookup_frame [OF assms(2)]
    by (auto simp: auth_inv_def pc_def holds_sem_def event_of_def)
qed

lemma auth_inv_store:
  assumes "auth_inv idkey sha ps n (v, add_mset (plain, VStore) G, tr)"
  shows "auth_inv idkey sha ps n
     (cacheStore now (sha plain) v, add_mset (plain, VRelease True) G, tr @ [Stored now plain])"
proof -
  have "cache_wf v" "cache_from sha v tr" using assms by (auto simp: auth_inv_def)
  then show ?thesis
    using assms cache_from_store [of v sha tr now plain] cacheStore_wf [of v now "sha plain"]
    by (auto simp: auth_inv_def holds_sem_def hits_ok_snoc)
qed

lemma cache_sem [simp]:
  "cache_wf (v\<lparr>sem := k\<rparr>) = cache_wf v" "cache_from sha (v\<lparr>sem := k\<rparr>) tr = cache_from sha v tr"
  by (simp_all add: cache_wf_def cache_from_def)

lemma auth_inv_move:
  assumes "auth_inv idkey sha ps n (v, add_mset (plain, pc) G, tr)"
    and "verify_step idkey sha now plain (v, pc) = (v', pc')"
  shows "auth_inv idkey sha ps n (v', add_mset (plain, pc') G, tr @ event_of now plain pc pc')"
proof (cases pc)
  case VLookup
  then show ?thesis using assms auth_inv_lookup by (auto split: prod.splits)
next
  case VStore
  then show ?thesis using assms auth_inv_store by (auto simp: event_of_def)
next
  case (VRelease ok)
  then show ?thesis
    using assms by (cases ok) (auto simp: auth_inv_def holds_sem_def event_of_def)
qed (use assms in \<open>auto simp: auth_inv_def holds_sem_def event_of_def matched_iff split: if_splits\<close>)

lemma auth_reach_inv:
  assumes "auth_reach idkey sha version numCPU encoded s"
  shows "\<exists>ps. map (parseEncoded version) encoded = map Inr ps \<and> auth_inv idkey sha ps numCPU s"
  using assms
proof (induction rule: auth_reach.induct)
  case (start v)
  then obtain ps where "parse_all version 0 encoded = Inr ps"
    "v = \<lparr>allow = ps, sem_cap = numCPU, sem = 0, cache = [], cacheOrder = []\<rparr>"
    by (auto simp: NewVerifier_def split: sum.splits)
  then show ?case
    by (intro exI [of _ ps])
      (simp add: parse_all_Inr auth_inv_def cache_wf_def holders_def cache_from_def hits_ok_def)
next
  case (step s t)
  then obtain ps where ps: "map (parseEncoded version) encoded = map Inr ps" and i: "auth_inv idkey sha ps numCPU s"
    by blast
  have "auth_inv idkey sha ps numCPU t"
    using step.hyps(2) i
  proof (induction rule: auth_step.induct)
    case (call v G tr plain)
    then show ?case by (simp add: auth_inv_def holds_sem_def)
  next
    case (move now plain v pc v' pc' G tr)
    then show ?case using auth_inv_move by blast
  qed
  with ps show ?case by blast
qed

text \<open>One token used every two minutes: each time the entry has expired and is stored anew.\<close>

definition use_at :: "idkey \<Rightarrow> (bytes \<Rightarrow> bytes) \<Rightarrow> bytes \<Rightarrow> Verifier \<Rightarrow> nat \<Rightarrow> Verifier" where
  "use_at idkey sha plain v i =
     snd (Verify idkey sha (int i * (2 * cacheTTL)) (int i * (2 * cacheTTL)) plain v)"

lemma use_at_expired:
  assumes "allow v \<noteq> []" "plain \<noteq> []" "hasValidShape plain" "matched idkey v plain" "sem v < sem_cap v"
    and "cache v = [] \<or> (\<exists>e. cache v = [(sha plain, e)] \<and> e < int i * (2 * cacheTTL))"
  shows "use_at idkey sha plain v i =
     v\<lparr>cache := [(sha plain, int i * (2 * cacheTTL) + cacheTTL)], cacheOrder := cacheOrder v @ [sha plain]\<rparr>"
  using assms
  by (auto simp: use_at_def Verify_def Verifier_Enabled_def cacheLookup_def cacheStore_def matched_def
      cacheMaxEntries_def Let_def)

lemma use_repeatedly:
  assumes "allow v \<noteq> []" "plain \<noteq> []" "hasValidShape plain" "matched idkey v plain" "sem v < sem_cap v"
    and "cache v = []"
  shows "foldl (use_at idkey sha plain) v [0..<n] =
     v\<lparr>cache := (case n of 0 \<Rightarrow> [] | Suc m \<Rightarrow> [(sha plain, int m * (2 * cacheTTL) + cacheTTL)]),
       cacheOrder := cacheOrder v @ replicate n (sha plain)\<rparr>"
proof (induction n)
  case 0
  then show ?case using assms by simp
next
  case (Suc n)
  let ?w = "foldl (use_at idkey sha plain) v [0..<n]"
  have "0 < cacheTTL" by (simp add: cacheTTL_def)
  then have "cache ?w = [] \<or> (\<exists>e. cache ?w = [(sha plain, e)] \<and> e < int n * (2 * cacheTTL))"
    using Suc assms(6) by (cases n) (auto simp: algebra_simps)
  then have "use_at idkey sha plain ?w n =
     ?w\<lparr>cache := [(sha plain, int n * (2 * cacheTTL) + cacheTTL)], cacheOrder := cacheOrder ?w @ [sha plain]\<rparr>"
    using assms Suc by (intro use_at_expired) (auto simp: matched_def)
  with Suc show ?case by (simp add: replicate_append_same [symmetric])
qed

subsection \<open>A concrete verifier\<close>

text \<open>
  For the witnesses: a key derivation that pads the password to the requested length, SHA-256
  replaced by the identity, one allow-listed token.
\<close>

definition pad_key :: idkey where
  "pad_key plain salt t mem par n = take n (plain @ replicate n CHR ''0'')"

definition pad_parsed :: parsed where
  "pad_parsed = \<lparr>p_time = 1, p_memory = 8, p_threads = 1, p_salt = ''salt'', p_key = ''tok0''\<rparr>"

definition pad_verifier :: Verifier where
  "pad_verifier = \<lparr>allow = [pad_parsed], sem_cap = 1, sem = 0, cache = [], cacheOrder = []\<rparr>"

definition pad_encoded :: "bytes list" where
  "pad_encoded = [phc_string 19 8 1 1 ''salt'' ''tok0'']"

lemma pad_NewVerifier: "NewVerifier 19 1 pad_encoded = Inr pad_verifier"
  using parseEncoded_phc [of 19 8 1 1 "''salt''" "''tok0''"]
  by (simp add: NewVerifier_def pad_encoded_def pad_verifier_def pad_parsed_def in_int64_def
      int64_min_def int64_max_def)

lemma pad_match: "auth_match pad_key [pad_parsed] ''tok''"
  by (simp add: auth_match_def matches_def pad_parsed_def pad_key_def)

lemma pad_shape: "hasValidShape ''tok''"
  by (simp add: hasValidShape_iff tokenMaxLen_def shape_ok_def)

lemma auth_reach_move:
  "auth_reach idkey sha version n enc (v, add_mset (plain, pc) G, tr) \<Longrightarrow>
   verify_step idkey sha now plain (v, pc) = (v', pc') \<Longrightarrow>
   auth_reach idkey sha version n enc (v', add_mset (plain, pc') G, tr @ event_of now plain pc pc')"
  using auth_reach.step auth_step.move by blast

lemma auth_reach_call:
  "auth_reach idkey sha version n enc (v, G, tr) \<Longrightarrow>
   auth_reach idkey sha version n enc (v, add_mset (plain, VStart) G, tr)"
  using auth_reach.step auth_step.call by blast

definition pad_end :: auth_sys where
  "pad_end =
     (pad_verifier\<lparr>cache := [(''tok'', 60000000005)], cacheOrder := [''tok'']\<rparr>,
      {#(''tok'', VDone True False), (''tok'', VDone True False)#}, [Stored 5 ''tok'', CacheHit 7 ''tok''])"

lemma pad_end_reach: "auth_reach pad_key id 19 1 pad_encoded pad_end"
proof -
  note defs = pad_verifier_def Verifier_Enabled_def pad_shape cacheLookup_def matched_iff
    pad_match event_of_def cacheStore_def cacheTTL_def second_def cacheMaxEntries_def
  let ?R = "auth_reach pad_key id 19 1 pad_encoded"
  let ?v1 = "pad_verifier\<lparr>sem := 1\<rparr>"
  let ?v2 = "pad_verifier\<lparr>cache := [(''tok'', 60000000005)], cacheOrder := [''tok'']\<rparr>"
  have "?R (pad_verifier, {#(''tok'', VStart)#}, [])"
    by (intro auth_reach_call auth_reach.start pad_NewVerifier)
  from auth_reach_move [OF this, of 1] have "?R (pad_verifier, {#(''tok'', VLookup)#}, [])"
    by (simp add: defs)
  from auth_reach_move [OF this, of 2] have "?R (pad_verifier, {#(''tok'', VAcquire)#}, [])"
    by (simp add: defs)
  from auth_reach_move [OF this, of 3] have "?R (?v1, {#(''tok'', VArgon)#}, [])"
    by (simp add: defs)
  from auth_reach_move [OF this, of 4] have "?R (?v1, {#(''tok'', VStore)#}, [])"
    by (simp add: defs)
  from auth_reach_move [OF this, of 5] have "?R (?v2\<lparr>sem := 1\<rparr>, {#(''tok'', VRelease True)#}, [Stored 5 ''tok''])"
    by (simp add: defs)
  from auth_reach_move [OF this, of 5] have "?R (?v2, {#(''tok'', VDone True False)#}, [Stored 5 ''tok''])"
    by (simp add: defs)
  then have "?R (?v2, {#(''tok'', VStart), (''tok'', VDone True False)#}, [Stored 5 ''tok''])"
    by (rule auth_reach_call)
  from auth_reach_move [OF this, of 6]
  have "?R (?v2, {#(''tok'', VLookup), (''tok'', VDone True False)#}, [Stored 5 ''tok''])"
    by (simp add: defs)
  from auth_reach_move [OF this, of 7]
  have "?R (?v2, {#(''tok'', VDone True False), (''tok'', VDone True False)#}, [Stored 5 ''tok'', CacheHit 7 ''tok''])"
    by (simp add: defs)
  then show ?thesis by (simp add: pad_end_def)
qed

subsection \<open>Properties\<close>

text \<open>
  C2: No request is authenticated without a credential. In every interleaving of \<open>Verify\<close>
  calls, a call that ends with \<open>ok\<close> presented a non-empty token of the accepted shape, was not
  told to back off, and some token with the same SHA-256 digest derives the key of one of the
  configured hashes.
\<close>

theorem auth_sound:
  assumes "auth_reach idkey sha version numCPU encoded (v, G, tr)" and "(plain, VDone True busy) \<in># G"
  shows "\<not> busy \<and> plain \<noteq> [] \<and> hasValidShape plain
     \<and> (\<exists>plain' e p. sha plain' = sha plain \<and> e \<in> set encoded \<and> parseEncoded version e = Inr p
          \<and> matches idkey plain' p)"
proof -
  obtain ps where ps: "map (parseEncoded version) encoded = map Inr ps"
    and i: "auth_inv idkey sha ps numCPU (v, G, tr)"
    using auth_reach_inv [OF assms(1)] by blast
  have "call_ok (auth_match idkey ps) sha (plain, VDone True busy)"
    using i assms(2) by (auto simp: auth_inv_def)
  then obtain plain' p where "\<not> busy" "plain \<noteq> []" "hasValidShape plain" "sha plain' = sha plain"
    "p \<in> set ps" "matches idkey plain' p"
    by (auto simp: auth_match_def)
  moreover have "Inr p \<in> parseEncoded version ` set encoded"
    using ps \<open>p \<in> set ps\<close> by (metis image_eqI image_set)
  ultimately show ?thesis by (metis imageE)
qed

theorem auth_sound_witness: "hasValidShape ''tok'' \<and> (''tok'', VDone True False) \<in># fst (snd pad_end)"
  using auth_sound [of pad_key id 19 1 pad_encoded "fst pad_end" "fst (snd pad_end)" "snd (snd pad_end)"
      "''tok''" False] pad_end_reach
  by (simp add: pad_end_def)

text \<open>
  C28: A grant from the cache is at most \<open>cacheTTL\<close> old: in every interleaving, each cache hit is
  preceded by the store of a token with the same digest, which had passed the argon2 check, at
  most sixty seconds before.
\<close>

theorem auth_cache_fresh:
  assumes "auth_reach idkey sha version numCPU encoded (v, G, tr)" and "i < length tr"
    and "tr ! i = CacheHit now plain"
  shows "\<exists>j t plain'. j < i \<and> tr ! j = Stored t plain' \<and> sha plain' = sha plain \<and> now \<le> t + cacheTTL
     \<and> matched idkey v plain'"
proof -
  obtain ps where i: "auth_inv idkey sha ps numCPU (v, G, tr)"
    using auth_reach_inv [OF assms(1)] by blast
  then have "hits_ok sha tr" "allow v = ps"
    and good: "\<And>t p. Stored t p \<in> set tr \<Longrightarrow> auth_match idkey ps p"
    by (auto simp: auth_inv_def)
  with assms(2,3) obtain j t plain' where
    "j < i" "tr ! j = Stored t plain'" "sha plain' = sha plain" "now \<le> t + cacheTTL"
    unfolding hits_ok_def by blast
  moreover from this have "Stored t plain' \<in> set tr" using assms(2) by (metis less_trans nth_mem)
  ultimately show ?thesis using good \<open>allow v = ps\<close> by (auto simp: matched_iff)
qed

theorem auth_cache_fresh_witness:
  "\<exists>j t plain'. j < 1 \<and> snd (snd pad_end) ! j = Stored t plain' \<and> id plain' = ''tok'' \<and> 7 \<le> t + cacheTTL"
  using auth_cache_fresh [of pad_key id 19 1 pad_encoded "fst pad_end" "fst (snd pad_end)" "snd (snd pad_end)" 1 7 "''tok''"]
    pad_end_reach
  by (simp add: pad_end_def)

text \<open>
  C29: Resources stay bounded under any concurrency. The semaphore counts exactly the calls
  between acquire and release and never exceeds \<open>NumCPU\<close>; the cache never exceeds
  \<open>cacheMaxEntries\<close>, has no duplicate keys, and every key is in the eviction order.
\<close>

theorem auth_resources_bounded:
  assumes "auth_reach idkey sha version numCPU encoded (v, G, tr)"
  shows "sem v = holders G \<and> holders G \<le> numCPU
     \<and> length (cache v) \<le> cacheMaxEntries \<and> distinct (map fst (cache v))
     \<and> fst ` set (cache v) \<subseteq> set (cacheOrder v)"
  using auth_reach_inv [OF assms] by (auto simp: auth_inv_def cache_wf_def)

theorem auth_resources_bounded_witness:
  "length (cache (fst pad_end)) \<le> cacheMaxEntries \<and> holders (fst (snd pad_end)) \<le> 1"
  using auth_resources_bounded [of pad_key id 19 1 pad_encoded "fst pad_end" "fst (snd pad_end)" "snd (snd pad_end)"]
    pad_end_reach by simp

text \<open>
  C30: The outcome of a call on its own, on every branch: no configured token, an empty token or
  a bad shape is refused without touching the cache or the semaphore; a live cache entry is a
  grant; otherwise the answer is \<open>busy\<close> exactly when no semaphore slot is free, and else whether
  the token derives one of the stored keys. The slot is given back and the cache stays well-formed,
  and the interleaved steps run without interference compute this function.
\<close>

theorem Verify_functional:
  "fst (Verify idkey sha now now' plain v) =
     (if allow v = [] \<or> plain = [] \<or> length plain > tokenMaxLen \<or> (\<exists>c \<in> set plain. \<not> shape_ok c)
      then (False, False)
      else if \<exists>e. map_of (cache v) (sha plain) = Some e \<and> now \<le> e then (True, False)
      else if sem v < sem_cap v then (\<exists>p \<in> set (allow v). matches idkey plain p, False)
      else (False, True))
   \<and> sem (snd (Verify idkey sha now now' plain v)) = sem v
   \<and> (cache_wf v \<longrightarrow> cache_wf (snd (Verify idkey sha now now' plain v)))
   \<and> (verify_step idkey sha now plain ^^ 6) (v, VStart)
       = (snd (Verify idkey sha now now plain v), VDone (fst (fst (Verify idkey sha now now plain v)))
            (snd (fst (Verify idkey sha now now plain v))))"
proof (intro conjI impI)
  show "fst (Verify idkey sha now now' plain v) =
     (if allow v = [] \<or> plain = [] \<or> length plain > tokenMaxLen \<or> (\<exists>c \<in> set plain. \<not> shape_ok c)
      then (False, False)
      else if \<exists>e. map_of (cache v) (sha plain) = Some e \<and> now \<le> e then (True, False)
      else if sem v < sem_cap v then (\<exists>p \<in> set (allow v). matches idkey plain p, False)
      else (False, True))"
    by (auto simp: Verify_cases hasValidShape_iff live_def auth_match_def)
  show "sem (snd (Verify idkey sha now now' plain v)) = sem v"
    by (rule Verify_sem)
qed (use Verify_wf Verify_steps in blast)+

theorem Verify_functional_witness:
  "cache_wf (snd (Verify pad_key id 1 2 ''tok'' pad_verifier))"
  using Verify_functional [of pad_key id 1 2 "''tok''" pad_verifier]
  by (simp add: cache_wf_def [of pad_verifier]) (simp add: pad_verifier_def)

text \<open>
  \<open>Hash\<close> and \<open>Verify\<close> are inverse: whenever the random source delivers a salt, the encoded
  hash parses back to the parameters, the salt and the key it was made from, and the token
  verifies against it, for any key derivation that returns as many bytes as it is asked for.
\<close>

lemma Hash_roundtrip:
  assumes "\<And>plain salt t m p n. length (idkey plain salt t m p n) = n"
    and "0 \<le> version" and "in_int64 version" and "rand argonSaltLen = Some salt"
  shows "\<exists>encoded. Hash idkey version rand plain = Inr encoded
     \<and> parseEncoded version encoded =
         Inr \<lparr>p_time = argonTime, p_memory = argonMemory, p_threads = argonThreads, p_salt = salt,
              p_key = idkey plain salt argonTime argonMemory argonThreads argonKeyLen\<rparr>
     \<and> Verify_encoded idkey version plain encoded = Inr True"
proof -
  let ?k = "idkey plain salt argonTime argonMemory argonThreads argonKeyLen"
  let ?e = "phc_string version argonMemory argonTime argonThreads salt ?k"
  have "parseEncoded version ?e = Inr \<lparr>p_time = argonTime, p_memory = argonMemory, p_threads = argonThreads,
      p_salt = salt, p_key = ?k\<rparr>"
    by (rule parseEncoded_phc [OF assms(2,3)]) (simp_all add: argonMemory_def argonTime_def argonThreads_def)
  moreover have "length ?k mod 2 ^ 32 = argonKeyLen" using assms(1) by (simp add: argonKeyLen_def)
  ultimately show ?thesis
    using assms(4) by (simp add: Hash_def Verify_encoded_def matches_def)
qed

text \<open>
  Construction fails fast. \<open>NewVerifier\<close> succeeds exactly when every configured hash parses,
  keeping them in order; each then is an argon2id hash of the supported version with non-zero
  parameters within their integer widths. Otherwise the error names the first bad entry.
\<close>

lemma NewVerifier_spec:
  "(case NewVerifier version numCPU encoded of
      Inr v \<Rightarrow> map (parseEncoded version) encoded = map Inr (allow v)
        \<and> (\<forall>p \<in> set (allow v). 0 < p_time p \<and> p_time p < 2 ^ 32 \<and> 0 < p_memory p \<and> p_memory p < 2 ^ 32
             \<and> 0 < p_threads p \<and> p_threads p < 2 ^ 8)
        \<and> (\<forall>e \<in> set encoded. split_on CHR ''$'' e ! 1 = ''argon2id''
             \<and> scan_version (split_on CHR ''$'' e ! 2) = Some version)
    | Inl err \<Rightarrow> \<exists>j e. j < length encoded \<and> err = TokenError j e \<and> parseEncoded version (encoded ! j) = Inl e
        \<and> (\<forall>k<j. \<exists>p. parseEncoded version (encoded ! k) = Inr p))"
proof (cases "parse_all version 0 encoded")
  case (Inl err)
  then have "\<exists>j e. j < length encoded \<and> err = TokenError j e \<and> parseEncoded version (encoded ! j) = Inl e
        \<and> (\<forall>k<j. \<exists>p. parseEncoded version (encoded ! k) = Inr p)"
    unfolding parse_all_Inl by simp
  with Inl show ?thesis by (simp add: NewVerifier_def)
next
  case (Inr ps)
  then have eq: "map (parseEncoded version) encoded = map Inr ps" by (simp add: parse_all_Inr)
  have p: "\<exists>e \<in> set encoded. parseEncoded version e = Inr p" if "p \<in> set ps" for p
    using that eq by (metis image_eqI image_set imageE)
  have e: "\<exists>p. parseEncoded version e = Inr p" if "e \<in> set encoded" for e
    using that eq by (metis image_eqI image_set imageE)
  show ?thesis
    using Inr eq p e parseEncoded_range by (fastforce simp: NewVerifier_def)
qed

text \<open>
  Only the cache is bounded, not \<open>cacheOrder\<close>. A single valid token used again each time its
  entry has expired adds one id to the order slice per use and none is ever dropped, as the
  eviction that trims the slice runs only when the cache holds \<open>cacheMaxEntries\<close>: after \<open>n\<close> uses
  there are \<open>n\<close> more ids for one cache entry.
\<close>

lemma cacheOrder_unbounded:
  assumes "allow v \<noteq> []" "plain \<noteq> []" "hasValidShape plain" "matched idkey v plain" "sem v < sem_cap v"
    and "cache v = []"
  shows "length (cacheOrder (foldl (use_at idkey sha plain) v [0..<n])) = length (cacheOrder v) + n
     \<and> length (cache (foldl (use_at idkey sha plain) v [0..<n])) \<le> 1"
  unfolding use_repeatedly [OF assms] by (simp split: nat.split)

text \<open>
  An encoded hash with an empty key field is accepted by the parser, although the argon2
  parameters are checked for zero; every token then verifies against it, for any key derivation
  that returns as many bytes as it is asked for.
\<close>

lemma empty_key_matches_all:
  assumes "\<And>plain salt t m p n. length (idkey plain salt t m p n) = n"
    and "0 \<le> version" and "in_int64 version"
  shows "Verify_encoded idkey version plain (phc_string version argonMemory argonTime argonThreads salt []) = Inr True"
proof -
  have "parseEncoded version (phc_string version argonMemory argonTime argonThreads salt []) =
      Inr \<lparr>p_time = argonTime, p_memory = argonMemory, p_threads = argonThreads, p_salt = salt, p_key = []\<rparr>"
    by (rule parseEncoded_phc [OF assms(2,3)]) (simp_all add: argonMemory_def argonTime_def argonThreads_def)
  moreover have "idkey plain salt argonTime argonMemory argonThreads 0 = []"
    using assms(1) [of plain salt argonTime argonMemory argonThreads 0] by simp
  ultimately show ?thesis by (simp add: Verify_encoded_def matches_def)
qed

end
