(* ===== verification/Once.thy ===== *)
theory Once
  imports Prelude
begin

text \<open>
  The contract of a callback guarded by \<open>sync.Once\<close> (or an atomic compare-and-swap): whatever
  sequence of operations an object goes through, the callback runs once if a closing operation
  occurs and not at all otherwise. The stream tee, the body wrapper and the response finalizer
  all promise it; each proves the two one-step laws and gets the statement about runs here.
\<close>

locale close_once =
  fixes step :: "'s \<Rightarrow> 'o \<Rightarrow> 's"
    and calls :: "'s \<Rightarrow> nat"
    and closing :: "'o \<Rightarrow> bool"
    and invar :: "'s \<Rightarrow> bool"
  assumes invar_step: "invar s \<Longrightarrow> invar (step s x)"
    and step_open: "invar s \<Longrightarrow> calls s = 0 \<Longrightarrow> calls (step s x) = (if closing x then 1 else 0)"
    and step_closed: "invar s \<Longrightarrow> calls s = 1 \<Longrightarrow> calls (step s x) = 1"
begin

lemma run_invar: "invar s \<Longrightarrow> invar (foldl step s xs)"
  by (induction xs arbitrary: s) (simp_all add: invar_step)

lemma run_closed: "invar s \<Longrightarrow> calls s = 1 \<Longrightarrow> calls (foldl step s xs) = 1"
  by (induction xs arbitrary: s) (simp_all add: step_closed invar_step)

lemma run_calls:
  "invar s \<Longrightarrow> calls s = 0 \<Longrightarrow>
   calls (foldl step s xs) = (if \<exists>x \<in> set xs. closing x then 1 else 0)"
proof (induction xs arbitrary: s)
  case (Cons x xs)
  have i: "invar (step s x)" using Cons.prems(1) by (rule invar_step)
  show ?case
  proof (cases "closing x")
    case True
    then have "calls (step s x) = 1" using step_open [OF Cons.prems] by simp
    with True show ?thesis using run_closed [OF i] by simp
  next
    case False
    then have "calls (step s x) = 0" using step_open [OF Cons.prems] by simp
    with False show ?thesis using Cons.IH [OF i] by simp
  qed
qed simp

lemma run_at_most_once: "invar s \<Longrightarrow> calls s = 0 \<Longrightarrow> calls (foldl step s xs) \<le> 1"
  using run_calls by simp

end

end
