(* ===== verification/Body.thy ===== *)
theory Body
  imports Go_Strings Once
begin

text \<open>
  The body plumbing of \<open>proxy.go\<close>: the bounded capture beside a forwarded stream, the buffering
  of the head of a request body under a size cap, the body wrapper that runs a callback once,
  the response writer that remembers a status, and the truncation of snippets.

  A body is the bytes it delivers and whether it then reports an error instead of the end of
  the stream; reads of it cut the bytes into chunks of any size.
\<close>

subsection \<open>snippetCapture\<close>

record snippetCapture =
  sc_head :: bytes
  headCap :: nat
  sc_total :: nat

definition new_capture :: "nat \<Rightarrow> snippetCapture" where
  "new_capture n = \<lparr>sc_head = [], headCap = n, sc_total = 0\<rparr>"

definition snippet_Write :: "snippetCapture \<Rightarrow> bytes \<Rightarrow> snippetCapture" where
  "snippet_Write s p =
     (let s = s\<lparr>sc_total := sc_total s + length p\<rparr>;
          remaining = int (headCap s) - int (length (sc_head s)) in
      if remaining > 0 then
        (let n = (if int (length p) > remaining then nat remaining else length p) in
         s\<lparr>sc_head := sc_head s @ take n p\<rparr>)
      else s)"

lemma snippet_Write_head:
  "length (sc_head s) \<le> headCap s \<Longrightarrow>
   sc_head (snippet_Write s p) = take (headCap s) (sc_head s @ p)
   \<and> headCap (snippet_Write s p) = headCap s \<and> sc_total (snippet_Write s p) = sc_total s + length p"
  by (auto simp: snippet_Write_def Let_def nat_diff_distrib')

lemma snippet_Writes:
  "length (sc_head s) \<le> headCap s \<Longrightarrow>
   sc_head (foldl snippet_Write s ps) = take (headCap s) (sc_head s @ concat ps)
   \<and> headCap (foldl snippet_Write s ps) = headCap s
   \<and> sc_total (foldl snippet_Write s ps) = sc_total s + length (concat ps)"
proof (induction ps arbitrary: s)
  case (Cons p ps)
  note w = snippet_Write_head [OF Cons.prems, of p]
  then have "length (sc_head (snippet_Write s p)) \<le> headCap (snippet_Write s p)" by simp
  from Cons.IH [OF this] w show ?case
    by (simp add: take_take_append del: take_append)
qed simp

subsection \<open>The request body\<close>

definition maxEnrichmentBodyBytes :: nat where
  "maxEnrichmentBodyBytes = 1024 * 1024"

record body_src =
  bs_bytes :: bytes
  bs_fails :: bool

datatype body_error = ErrBodyTooLarge | ErrRead

text \<open>\<open>io.ReadAll(io.LimitReader(src, n))\<close>: the bytes read, the rest of the source.\<close>

definition read_limited :: "nat \<Rightarrow> body_src \<Rightarrow> body_error + (bytes \<times> body_src)" where
  "read_limited n src =
     (if length (bs_bytes src) < n \<and> bs_fails src then Inl ErrRead
      else Inr (take n (bs_bytes src), src\<lparr>bs_bytes := drop n (bs_bytes src)\<rparr>))"

record capCountingReader =
  cr_src :: body_src
  cr_limit :: int
  alreadyRead :: int

text \<open>
  One \<open>Read\<close> that gets \<open>n\<close> bytes from the source, \<open>0 < n\<close> unless the source is exhausted: the bytes
  and the error returned with them. \<open>None\<close> is no error, \<open>Some None\<close> the end of the stream.
\<close>

definition cap_Read :: "nat \<Rightarrow> capCountingReader \<Rightarrow> (bytes \<times> body_error option option) \<times> capCountingReader" where
  "cap_Read n c =
     (let src = cr_src c; p = take n (bs_bytes src);
          err = (if bs_bytes src \<noteq> [] then None else Some (if bs_fails src then Some ErrRead else None));
          c = c\<lparr>cr_src := src\<lparr>bs_bytes := drop n (bs_bytes src)\<rparr>\<rparr> in
      if length p > 0 then
        (let c = c\<lparr>alreadyRead := alreadyRead c + int (length p)\<rparr> in
         if cr_limit c > 0 \<and> alreadyRead c > cr_limit c then ((p, Some (Some ErrBodyTooLarge)), c)
         else ((p, err), c))
      else ((p, err), c))"

text \<open>The forwarded body: the buffered head, then nothing or the counting reader.\<close>

record fwd_body =
  fb_head :: bytes
  fb_rest :: "capCountingReader option"

record captured =
  cp_head :: bytes
  cp_body :: fwd_body
  cp_ContentLength :: int

definition captureHeadAndForward :: "body_src \<Rightarrow> int \<Rightarrow> body_error + captured" where
  "captureHeadAndForward src hardCap =
     (case read_limited (maxEnrichmentBodyBytes + 1) src of
        Inl e \<Rightarrow> Inl e
      | Inr (head, src) \<Rightarrow>
          if length head \<le> maxEnrichmentBodyBytes then
            (if hardCap > 0 \<and> int (length head) > hardCap then Inl ErrBodyTooLarge
             else Inr \<lparr>cp_head = head, cp_body = \<lparr>fb_head = head, fb_rest = None\<rparr>,
                       cp_ContentLength = int (length head)\<rparr>)
          else
            Inr \<lparr>cp_head = take maxEnrichmentBodyBytes head,
                 cp_body = \<lparr>fb_head = head,
                   fb_rest = Some \<lparr>cr_src = src, cr_limit = hardCap, alreadyRead = int (length head)\<rparr>\<rparr>,
                 cp_ContentLength = -1\<rparr>)"

text \<open>
  What a consumer gets that reads to the first error or the end, asking for chunks of at least
  one byte of the sizes \<open>Suc n\<close> for \<open>n\<close> in \<open>ns\<close> and then for everything: the bytes and the error,
  \<open>None\<close> at a regular end. The fuel is one more than the bytes left, enough as every read that
  goes on takes at least one.
\<close>

fun drain_cap :: "nat \<Rightarrow> nat list \<Rightarrow> capCountingReader \<Rightarrow> bytes \<times> body_error option" where
  "drain_cap 0 ns c = ([], None)"
| "drain_cap (Suc k) ns c =
     (let n = (case ns of [] \<Rightarrow> Suc (length (bs_bytes (cr_src c))) | m # _ \<Rightarrow> Suc m);
          ((p, err), c') = cap_Read n c in
      case err of
        Some e \<Rightarrow> (p, e)
      | None \<Rightarrow> (let (q, e) = drain_cap k (tl ns) c' in (p @ q, e)))"

definition forwarded :: "nat list \<Rightarrow> fwd_body \<Rightarrow> bytes \<times> body_error option" where
  "forwarded ns b =
     (case fb_rest b of
        None \<Rightarrow> (fb_head b, None)
      | Some c \<Rightarrow> (let (p, e) = drain_cap (Suc (length (bs_bytes (cr_src c)))) ns c in (fb_head b @ p, e)))"

lemma drain_cap_within:
  assumes "length (bs_bytes (cr_src c)) < k"
    and "cr_limit c > 0 \<longrightarrow> alreadyRead c + int (length (bs_bytes (cr_src c))) \<le> cr_limit c"
  shows "drain_cap k ns c = (bs_bytes (cr_src c), if bs_fails (cr_src c) then Some ErrRead else None)"
  using assms
proof (induction k arbitrary: ns c)
  case (Suc k)
  let ?s = "bs_bytes (cr_src c)"
  define n where "n = (case ns of [] \<Rightarrow> Suc (length ?s) | m # _ \<Rightarrow> Suc m)"
  have n: "0 < n" by (cases ns) (auto simp: n_def)
  have step: "drain_cap (Suc k) ns c = (let ((p, err), c') = cap_Read n c in
      case err of Some e \<Rightarrow> (p, e) | None \<Rightarrow> (let (q, e) = drain_cap k (tl ns) c' in (p @ q, e)))"
    by (simp add: n_def Let_def)
  show ?case
  proof (cases "?s = []")
    case True
    then show ?thesis using Suc.prems unfolding step by (simp add: cap_Read_def Let_def)
  next
    case False
    let ?c = "c\<lparr>cr_src := (cr_src c)\<lparr>bs_bytes := drop n ?s\<rparr>, alreadyRead := alreadyRead c + int (length (take n ?s))\<rparr>"
    have pos: "0 < length (take n ?s)" using False n by simp
    have split: "length (take n ?s) + length (drop n ?s) = length ?s" by simp
    have ok: "\<not> (cr_limit c > 0 \<and> alreadyRead c + int (length (take n ?s)) > cr_limit c)"
      using Suc.prems(2) split by linarith
    have read: "cap_Read n c = ((take n ?s, None), ?c)"
      using False pos ok by (simp add: cap_Read_def Let_def)
    have "length (drop n ?s) < k" using Suc.prems(1) pos split by linarith
    then have "length (bs_bytes (cr_src ?c)) < k" by simp
    moreover have "cr_limit ?c > 0 \<longrightarrow> alreadyRead ?c + int (length (bs_bytes (cr_src ?c))) \<le> cr_limit ?c"
      using Suc.prems(2) split by (simp add: min_def split: if_splits)
    ultimately have "drain_cap k (tl ns) ?c = (drop n ?s, if bs_fails (cr_src c) then Some ErrRead else None)"
      using Suc.IH [of ?c "tl ns"] by simp
    then show ?thesis unfolding step by (simp add: read)
  qed
qed simp

lemma drain_cap_exceeds:
  assumes "length (bs_bytes (cr_src c)) < k" and "cr_limit c > 0" and "bs_bytes (cr_src c) \<noteq> []"
    and "alreadyRead c + int (length (bs_bytes (cr_src c))) > cr_limit c"
  shows "snd (drain_cap k ns c) = Some ErrBodyTooLarge"
  using assms
proof (induction k arbitrary: ns c)
  case (Suc k)
  let ?s = "bs_bytes (cr_src c)"
  define n where "n = (case ns of [] \<Rightarrow> Suc (length ?s) | m # _ \<Rightarrow> Suc m)"
  have n: "0 < n" by (cases ns) (auto simp: n_def)
  have step: "drain_cap (Suc k) ns c = (let ((p, err), c') = cap_Read n c in
      case err of Some e \<Rightarrow> (p, e) | None \<Rightarrow> (let (q, e) = drain_cap k (tl ns) c' in (p @ q, e)))"
    by (simp add: n_def Let_def)
  let ?c = "c\<lparr>cr_src := (cr_src c)\<lparr>bs_bytes := drop n ?s\<rparr>, alreadyRead := alreadyRead c + int (length (take n ?s))\<rparr>"
  have pos: "0 < length (take n ?s)" using Suc.prems(3) n by simp
  have split: "length (take n ?s) + length (drop n ?s) = length ?s" by simp
  show ?case
  proof (cases "alreadyRead c + int (length (take n ?s)) > cr_limit c")
    case True
    then have "fst (cap_Read n c) = (take n ?s, Some (Some ErrBodyTooLarge))"
      using Suc.prems pos by (simp add: cap_Read_def Let_def)
    then show ?thesis unfolding step by (simp add: Let_def case_prod_unfold)
  next
    case False
    then have read: "cap_Read n c = ((take n ?s, None), ?c)"
      using Suc.prems(3) pos by (simp add: cap_Read_def Let_def)
    have "alreadyRead c + int (length ?s) =
        alreadyRead c + int (length (take n ?s)) + int (length (drop n ?s))"
      using split by linarith
    then have more: "alreadyRead ?c + int (length (bs_bytes (cr_src ?c))) > cr_limit ?c"
      using Suc.prems(4) by simp
    have "length (drop n ?s) < k" using Suc.prems(1) pos split by linarith
    then have short: "length (bs_bytes (cr_src ?c)) < k" by simp
    have "drop n ?s \<noteq> []" using more False by auto
    with more have "snd (drain_cap k (tl ns) ?c) = Some ErrBodyTooLarge"
      using Suc.IH [of ?c "tl ns"] Suc.prems(2) more short by simp
    then show ?thesis unfolding step by (simp add: read case_prod_unfold)
  qed
qed simp

subsection \<open>parseOnClose\<close>

text \<open>
  The wrapper around a teed response body: each read first goes through the capture. \<open>runs\<close>
  collects what the capture held each time the callback ran.
\<close>

datatype read_end = NoErr | EOF | OtherErr

record parseOnClose =
  pc_capture :: snippetCapture
  pc_once :: bool
  pc_runs :: "bytes list"

definition new_parseOnClose :: "nat \<Rightarrow> parseOnClose" where
  "new_parseOnClose n = \<lparr>pc_capture = new_capture n, pc_once = False, pc_runs = []\<rparr>"

definition pc_do_once :: "parseOnClose \<Rightarrow> parseOnClose" where
  "pc_do_once p =
     (if pc_once p then p else p\<lparr>pc_once := True, pc_runs := pc_runs p @ [sc_head (pc_capture p)]\<rparr>)"

definition pc_Read :: "bytes \<Rightarrow> read_end \<Rightarrow> parseOnClose \<Rightarrow> (bytes \<times> read_end) \<times> parseOnClose" where
  "pc_Read chunk err p =
     (let p = (if length chunk > 0 then p\<lparr>pc_capture := snippet_Write (pc_capture p) chunk\<rparr> else p);
          p = (if err = EOF then pc_do_once p else p) in
      ((chunk, err), p))"

definition pc_Close :: "parseOnClose \<Rightarrow> parseOnClose" where
  "pc_Close p = pc_do_once p"

datatype body_op = BRead bytes read_end | BClose

fun pc_step :: "parseOnClose \<Rightarrow> body_op \<Rightarrow> parseOnClose" where
  "pc_step p (BRead chunk err) = snd (pc_Read chunk err p)"
| "pc_step p BClose = pc_Close p"

fun pc_closing :: "body_op \<Rightarrow> bool" where
  "pc_closing (BRead chunk err) \<longleftrightarrow> err = EOF"
| "pc_closing BClose \<longleftrightarrow> True"

definition pc_invar :: "parseOnClose \<Rightarrow> bool" where
  "pc_invar p \<longleftrightarrow> length (pc_runs p) = (if pc_once p then 1 else 0)"

interpretation body_once: close_once pc_step "\<lambda>p. length (pc_runs p)" pc_closing pc_invar
proof unfold_locales
  fix p x
  assume i: "pc_invar p"
  show "pc_invar (pc_step p x)"
    using i by (cases x) (auto simp: pc_invar_def pc_Read_def pc_Close_def pc_do_once_def Let_def)
  have once: "pc_once p \<longleftrightarrow> length (pc_runs p) \<noteq> 0" using i by (simp add: pc_invar_def)
  show "length (pc_runs (pc_step p x)) = (if pc_closing x then 1 else 0)" if "length (pc_runs p) = 0"
    using once that by (cases x) (simp_all add: pc_Read_def pc_Close_def pc_do_once_def Let_def)
  show "length (pc_runs (pc_step p x)) = 1" if "length (pc_runs p) = 1"
  proof -
    have "pc_once p" using once that by simp
    with that show ?thesis by (cases x) (simp_all add: pc_Read_def pc_Close_def pc_do_once_def Let_def)
  qed
qed

lemma pc_reads_capture:
  "\<not> pc_once p \<Longrightarrow> \<forall>(c, e) \<in> set rs. e \<noteq> EOF \<Longrightarrow>
   foldl pc_step p (map (\<lambda>(c, e). BRead c e) rs) =
     p\<lparr>pc_capture := foldl snippet_Write (pc_capture p) (filter (\<lambda>c. c \<noteq> []) (map fst rs))\<rparr>"
  by (induction rs arbitrary: p) (auto simp: pc_Read_def Let_def)

lemma concat_filter_Nil: "concat (filter (\<lambda>c. c \<noteq> []) cs) = concat cs"
  by (induction cs) auto

subsection \<open>The status seen by the breaker\<close>

datatype writer_call = WriteHeader int | Write bytes | Flush

text \<open>\<open>statusCaptureWriter\<close>: the status after one more call.\<close>

fun capture_status :: "int \<Rightarrow> writer_call \<Rightarrow> int" where
  "capture_status st (WriteHeader code) = (if st = 0 then code else st)"
| "capture_status st (Write p) = (if st = 0 then StatusOK else st)"
| "capture_status st Flush = st"

definition captured_status :: "writer_call list \<Rightarrow> int" where
  "captured_status calls = foldl capture_status 0 calls"

text \<open>
  The final status \<open>net/http\<close> sends for the same calls: informational headers (1xx other than
  101) do not end the header phase, a \<open>Write\<close> before the final header means 200.
\<close>

definition informational :: "int \<Rightarrow> bool" where
  "informational code \<longleftrightarrow> 100 \<le> code \<and> code \<le> 199 \<and> code \<noteq> 101"

fun sent_status :: "writer_call list \<Rightarrow> int" where
  "sent_status [] = 0"
| "sent_status (WriteHeader code # cs) = (if informational code then sent_status cs else code)"
| "sent_status (Write p # cs) = StatusOK"
| "sent_status (Flush # cs) = sent_status cs"

lemma capture_status_fix: "st \<noteq> 0 \<Longrightarrow> foldl capture_status st cs = st"
proof (induction cs)
  case (Cons c cs)
  then show ?case by (cases c) auto
qed simp

lemma captured_status_sent:
  "(\<forall>code. WriteHeader code \<in> set cs \<longrightarrow> \<not> informational code \<and> code \<noteq> 0) \<Longrightarrow> captured_status cs = sent_status cs"
  unfolding captured_status_def
proof (induction cs)
  case (Cons c cs)
  then show ?case by (cases c) (auto simp: capture_status_fix StatusOK_def)
qed simp

subsection \<open>Snippets\<close>

definition is_continuation :: "char \<Rightarrow> bool" where
  "is_continuation c \<longleftrightarrow> (of_char c :: nat) div 64 = 2"

fun back_to_rune :: "bytes \<Rightarrow> nat \<Rightarrow> nat" where
  "back_to_rune s 0 = 0"
| "back_to_rune s (Suc n) = (if is_continuation (s ! Suc n) then back_to_rune s n else Suc n)"

definition truncateUTF8 :: "bytes \<Rightarrow> nat \<Rightarrow> bytes" where
  "truncateUTF8 s n =
     (if length s \<le> n then s
      else take (back_to_rune s n) s @ [CHR 0xE2, CHR 0x80, CHR 0xA6])"

definition isEventStream :: "bytes \<Rightarrow> bool" where
  "isEventStream ct \<longleftrightarrow> has_prefix ct ''text/event-stream''"

lemma back_to_rune_spec:
  "back_to_rune s n \<le> n \<and> (back_to_rune s n = 0 \<or> \<not> is_continuation (s ! back_to_rune s n))"
  by (induction n) auto

text \<open>
  The error snippet is cut to 1024 bytes by its capture before \<open>truncateUTF8\<close> sees it, which
  therefore never shortens it.
\<close>

lemma error_snippet_untruncated:
  "truncateUTF8 (sc_head (foldl snippet_Write (new_capture 1024) ps)) 1024
     = sc_head (foldl snippet_Write (new_capture 1024) ps)"
proof -
  have "sc_head (foldl snippet_Write (new_capture 1024) ps) = take 1024 (concat ps)"
    using snippet_Writes [of "new_capture 1024" ps] by (simp add: new_capture_def)
  then show ?thesis by (simp add: truncateUTF8_def)
qed

text \<open>A body above the enrichment buffer is forwarded as the bytes read so far and the rest.\<close>

lemma capture_large:
  assumes "\<not> length (bs_bytes src) \<le> maxEnrichmentBodyBytes"
  shows "captureHeadAndForward src hardCap =
      Inr \<lparr>cp_head = take maxEnrichmentBodyBytes (bs_bytes src),
           cp_body = \<lparr>fb_head = take (maxEnrichmentBodyBytes + 1) (bs_bytes src),
             fb_rest = Some \<lparr>cr_src = src\<lparr>bs_bytes := drop (maxEnrichmentBodyBytes + 1) (bs_bytes src)\<rparr>,
               cr_limit = hardCap, alreadyRead = int (maxEnrichmentBodyBytes + 1)\<rparr>\<rparr>,
           cp_ContentLength = -1\<rparr>"
proof -
  have "length (take (maxEnrichmentBodyBytes + 1) (bs_bytes src)) = maxEnrichmentBodyBytes + 1" using assms by simp
  then show ?thesis using assms by (simp add: captureHeadAndForward_def read_limited_def min_def del: length_take)
qed

subsection \<open>Properties\<close>

text \<open>
  C17: Buffering the head of a request body does not change what is forwarded. If the body ends
  regularly and respects the hard cap, the parser gets its first \<open>maxEnrichmentBodyBytes\<close> bytes and
  the upstream gets all of it, whatever the sizes of the reads, with the content length either
  exact or unknown.
\<close>

theorem capture_forwards_body:
  assumes "\<not> bs_fails src" and "hardCap \<le> 0 \<or> int (length (bs_bytes src)) \<le> hardCap"
  shows "\<exists>cp. captureHeadAndForward src hardCap = Inr cp
     \<and> cp_head cp = take maxEnrichmentBodyBytes (bs_bytes src)
     \<and> forwarded ns (cp_body cp) = (bs_bytes src, None)
     \<and> cp_ContentLength cp \<in> {int (length (bs_bytes src)), -1}"
proof (cases "length (bs_bytes src) \<le> maxEnrichmentBodyBytes")
  case True
  then show ?thesis
    using assms by (auto simp: captureHeadAndForward_def read_limited_def forwarded_def)
next
  case False
  let ?n = "maxEnrichmentBodyBytes + 1"
  let ?c = "\<lparr>cr_src = src\<lparr>bs_bytes := drop ?n (bs_bytes src)\<rparr>, cr_limit = hardCap, alreadyRead = int ?n\<rparr>"
  have "drain_cap (Suc (length (bs_bytes (cr_src ?c)))) ns ?c = (drop ?n (bs_bytes src), None)"
    using assms False drain_cap_within [of ?c "Suc (length (bs_bytes (cr_src ?c)))" ns] by auto
  then show ?thesis using capture_large [OF False] by (simp add: forwarded_def)
qed

theorem capture_forwards_body_witness:
  "\<exists>cp. captureHeadAndForward \<lparr>bs_bytes = ''{}'', bs_fails = False\<rparr> 10 = Inr cp \<and> cp_head cp = ''{}''"
  using capture_forwards_body [of "\<lparr>bs_bytes = ''{}'', bs_fails = False\<rparr>" 10]
  by (auto simp: maxEnrichmentBodyBytes_def)

text \<open>
  A body that is forwarded to a clean end, under a hard cap above the enrichment buffer, is the
  client's body and within the cap.
\<close>

lemma forwarded_clean:
  assumes "captureHeadAndForward src hardCap = Inr cp" and "int maxEnrichmentBodyBytes < hardCap"
    and "forwarded ns (cp_body cp) = (bs, None)"
  shows "bs = bs_bytes src \<and> int (length bs) \<le> hardCap"
proof (cases "length (bs_bytes src) \<le> maxEnrichmentBodyBytes")
  case True
  then show ?thesis
    using assms by (auto simp: captureHeadAndForward_def read_limited_def forwarded_def split: if_splits)
next
  case False
  let ?n = "maxEnrichmentBodyBytes + 1"
  let ?c = "\<lparr>cr_src = src\<lparr>bs_bytes := drop ?n (bs_bytes src)\<rparr>, cr_limit = hardCap, alreadyRead = int ?n\<rparr>"
  let ?k = "Suc (length (bs_bytes (cr_src ?c)))"
  have cp: "cp_body cp = \<lparr>fb_head = take ?n (bs_bytes src), fb_rest = Some ?c\<rparr>"
    using capture_large [OF False, of hardCap] assms(1) by auto
  have d: "snd (drain_cap ?k ns ?c) = None" "bs = take ?n (bs_bytes src) @ fst (drain_cap ?k ns ?c)"
    using assms(3) by (auto simp: cp forwarded_def case_prod_unfold Let_def simp del: drain_cap.simps)
  have "int (length (bs_bytes src)) \<le> hardCap"
  proof (rule ccontr)
    assume "\<not> int (length (bs_bytes src)) \<le> hardCap"
    then have "snd (drain_cap ?k ns ?c) = Some ErrBodyTooLarge"
      using assms(2) False by (intro drain_cap_exceeds) auto
    then show False using d(1) by simp
  qed
  then have "drain_cap ?k ns ?c = (drop ?n (bs_bytes src), if bs_fails src then Some ErrRead else None)"
    using drain_cap_within [of ?c ?k ns] False by auto
  with d \<open>int (length (bs_bytes src)) \<le> hardCap\<close> show ?thesis by simp
qed

text \<open>
  A body larger than the enrichment buffer is not refused up front, whatever the cap: it is
  forwarded, and if it is above the cap the upstream's read fails, but only if there is anything to
  read beyond the lookahead byte.
\<close>

lemma large_body_not_refused:
  assumes "\<not> bs_fails src" and "hardCap > 0" and "int (length (bs_bytes src)) > hardCap"
  shows "if length (bs_bytes src) \<le> maxEnrichmentBodyBytes then captureHeadAndForward src hardCap = Inl ErrBodyTooLarge
     else \<exists>cp. captureHeadAndForward src hardCap = Inr cp
        \<and> (snd (forwarded ns (cp_body cp)) = Some ErrBodyTooLarge
           \<longleftrightarrow> length (bs_bytes src) > maxEnrichmentBodyBytes + 1)
        \<and> (length (bs_bytes src) = maxEnrichmentBodyBytes + 1 \<longrightarrow>
             forwarded ns (cp_body cp) = (bs_bytes src, None))"
proof (cases "length (bs_bytes src) \<le> maxEnrichmentBodyBytes")
  case True
  then show ?thesis using assms by (simp add: captureHeadAndForward_def read_limited_def)
next
  case False
  let ?n = "maxEnrichmentBodyBytes + 1"
  let ?c = "\<lparr>cr_src = src\<lparr>bs_bytes := drop ?n (bs_bytes src)\<rparr>, cr_limit = hardCap, alreadyRead = int ?n\<rparr>"
  note capt = capture_large [OF False, of hardCap]
  have more: "snd (drain_cap (Suc (length (bs_bytes (cr_src ?c)))) ns ?c) = Some ErrBodyTooLarge"
    if "length (bs_bytes src) > ?n"
    using that assms by (intro drain_cap_exceeds) auto
  have last: "drain_cap (Suc (length (bs_bytes (cr_src ?c)))) ns ?c = ([], None)"
    if "length (bs_bytes src) = ?n"
    using that assms(1) by (simp add: cap_Read_def Let_def)
  show ?thesis
  proof (cases "length (bs_bytes src) = ?n")
    case True
    then show ?thesis using capt last [OF True] by (simp add: forwarded_def del: drain_cap.simps)
  next
    case gt: False
    then have "length (bs_bytes src) > ?n" using False by simp
    then show ?thesis
      using capt more False gt by (simp add: forwarded_def case_prod_unfold Let_def del: drain_cap.simps)
  qed
qed

text \<open>
  The wrapper of a non-streaming response runs its callback exactly once, at the first end
  of stream or close, over any further reads and closes, and passes every read through; at that
  time the parser sees the first \<open>headCap\<close> bytes of what the client was given.
\<close>

lemma parseOnClose_once:
  fixes n :: nat
  assumes "\<forall>(c, e) \<in> set rs. e \<noteq> EOF" and "pc_closing x"
  defines "p \<equiv> foldl pc_step (new_parseOnClose n) (map (\<lambda>(c, e). BRead c e) rs)"
  shows "length (pc_runs (foldl pc_step p (x # xs))) = 1
     \<and> hd (pc_runs (pc_step p x)) = take n (concat (map fst rs) @ (case x of BRead c e \<Rightarrow> c | BClose \<Rightarrow> []))
     \<and> fst (pc_Read c e p) = (c, e)"
proof (intro conjI)
  have i: "pc_invar (new_parseOnClose n)" "length (pc_runs (new_parseOnClose n)) = 0"
    by (simp_all add: pc_invar_def new_parseOnClose_def)
  have "foldl pc_step p (x # xs) = foldl pc_step (new_parseOnClose n) (map (\<lambda>(c, e). BRead c e) rs @ x # xs)"
    by (simp add: p_def)
  then show "length (pc_runs (foldl pc_step p (x # xs))) = 1"
    using body_once.run_calls [OF i, of "map (\<lambda>(c, e). BRead c e) rs @ x # xs"] assms(2) by simp
  have p: "p = (new_parseOnClose n)\<lparr>pc_capture := foldl snippet_Write (new_capture n) (filter (\<lambda>c. c \<noteq> []) (map fst rs))\<rparr>"
    unfolding p_def using assms(1) by (subst pc_reads_capture) (simp_all add: new_parseOnClose_def)
  have w: "sc_head (foldl snippet_Write (new_capture n) ps) = take n (concat ps)" for ps
    using snippet_Writes [of "new_capture n" ps] by (simp add: new_capture_def)
  have v: "sc_head (snippet_Write (foldl snippet_Write (new_capture n) ps) q) = take n (concat ps @ q)" for ps q
    using w [of "ps @ [q]"] by simp
  show "hd (pc_runs (pc_step p x)) = take n (concat (map fst rs) @ (case x of BRead c e \<Rightarrow> c | BClose \<Rightarrow> []))"
    using assms(2)
    by (cases x)
      (simp_all add: p new_parseOnClose_def pc_Read_def pc_Close_def pc_do_once_def Let_def w v concat_filter_Nil
        del: take_append)
  show "fst (pc_Read c e p) = (c, e)" by (simp add: pc_Read_def Let_def)
qed

end
