(* ===== verification/Admission.thy ===== *)
theory Admission
  imports Breaker Body "HOL-Library.Multiset"
begin

text \<open>
  The per-upstream resources a request claims and returns (\<open>admit\<close> and \<open>release\<close> of \<open>proxy.go\<close>),
  under concurrency: requests to one upstream share its breaker and its semaphore, and each goes
  through the atomic steps of its own admission, service and release in any interleaving.
\<close>

subsection \<open>What admission relies on\<close>

text \<open>
  The contract of a gate with a probe: a report always resolves the probe, and only a request
  that was let in can start one. Then a probe in flight always has a request behind it that has
  not reported yet.
\<close>

datatype ('a, 'c) gate_event = GAdmit 'a | GReport 'c

locale probe_gate =
  fixes gate_admit :: "'a \<Rightarrow> 'b \<Rightarrow> bool \<times> 'b"
    and gate_report :: "'c \<Rightarrow> 'b \<Rightarrow> 'b"
    and probing :: "'b \<Rightarrow> bool"
    and invar :: "'b \<Rightarrow> bool"
  assumes report_resolves: "\<not> probing (gate_report c b)"
    and admit_claims: "\<not> probing b \<Longrightarrow> probing (snd (gate_admit a b)) \<Longrightarrow> fst (gate_admit a b)"
    and admit_invar: "invar b \<Longrightarrow> invar (snd (gate_admit a b))"
    and report_invar: "invar b \<Longrightarrow> invar (gate_report c b)"
begin

fun gate_step :: "'b \<times> nat \<Rightarrow> ('a, 'c) gate_event \<Rightarrow> 'b \<times> nat" where
  "gate_step (b, pending) (GAdmit a) =
     (snd (gate_admit a b), if fst (gate_admit a b) then Suc pending else pending)"
| "gate_step (b, pending) (GReport c) = (gate_report c b, pending - 1)"

lemma probe_has_request:
  "(probing b \<longrightarrow> 0 < n) \<Longrightarrow> probing (fst (foldl gate_step (b, n) es)) \<longrightarrow> 0 < snd (foldl gate_step (b, n) es)"
proof (induction es arbitrary: b n)
  case (Cons e es)
  obtain b' n' where s: "gate_step (b, n) e = (b', n')" by fastforce
  have "probing b' \<longrightarrow> 0 < n'"
    using s Cons.prems report_resolves admit_claims by (cases e) (auto split: if_splits)
  from Cons.IH [OF this] show ?case by (simp add: s)
qed simp

end

definition breaker_gate :: "time \<times> time \<Rightarrow> breaker \<Rightarrow> bool \<times> breaker" where
  "breaker_gate t b = (fst (fst (breaker_admit (fst t) (snd t) b)), snd (breaker_admit (fst t) (snd t) b))"

definition half_open :: "breaker \<Rightarrow> bool" where
  "half_open b \<longleftrightarrow> br_state b = breakerHalfOpen"

interpretation breaker: probe_gate breaker_gate "\<lambda>(c, t1, t2). breaker_report c t1 t2" half_open breaker_wf
proof unfold_locales
  fix a :: "time \<times> time" and b c
  show "\<not> half_open ((case c of (c, t1, t2) \<Rightarrow> breaker_report c t1 t2) b)"
    using report_not_half_open by (simp add: half_open_def split: prod.split)
  show "fst (breaker_gate a b)" if "\<not> half_open b" "half_open (snd (breaker_gate a b))"
    using that by (auto simp: breaker_gate_def half_open_def breaker_admit_def Let_def split: breakerState.splits if_splits)
  show "breaker_wf (snd (breaker_gate a b))" if "breaker_wf b"
    using breaker_admit_wf [OF that] by (simp add: breaker_gate_def)
  show "breaker_wf ((case c of (c, t1, t2) \<Rightarrow> breaker_report c t1 t2) b)" if "breaker_wf b"
    using breaker_report_wf [OF that] by (simp split: prod.split)
qed

subsection \<open>The steps of a request\<close>

record resource =
  res_br :: "breaker option"
  res_sem :: "(nat \<times> nat) option"

text \<open>The resources of an upstream, as \<open>New\<close> sets them up.\<close>

definition new_resource :: "int \<Rightarrow> BreakerConfig \<Rightarrow> resource" where
  "new_resource maxInFlight bc =
     \<lparr>res_br = (if Failures bc > 0 then Some (newBreaker bc) else None),
      res_sem = (if maxInFlight > 0 then Some (nat maxInFlight, 0) else None)\<rparr>"

definition release_code :: "int \<Rightarrow> int" where
  "release_code status = (if status = 0 then StatusBadGateway else status)"

text \<open>
  \<open>PDone\<close> carries the status the breaker saw. The service of a request is one step here: it
  touches neither resource; its outcome is the list of calls on the status-capturing writer.
\<close>

datatype serve_pc = PBreaker | PSem | PRollback | PServe | PRelSem int | PReport int | PDone int

fun serve_step :: "time \<Rightarrow> time \<Rightarrow> writer_call list \<Rightarrow> resource \<times> serve_pc \<Rightarrow> resource \<times> serve_pc" where
  "serve_step t1 t2 calls (res, PBreaker) =
     (case res_br res of
        None \<Rightarrow> (res, PSem)
      | Some b \<Rightarrow>
          (let (ok, b') = breaker_gate (t1, t2) b in
           (res\<lparr>res_br := Some b'\<rparr>, if ok then PSem else PDone StatusServiceUnavailable)))"
| "serve_step t1 t2 calls (res, PSem) =
     (case res_sem res of
        None \<Rightarrow> (res, PServe)
      | Some (cap, used) \<Rightarrow>
          if used < cap then (res\<lparr>res_sem := Some (cap, used + 1)\<rparr>, PServe) else (res, PRollback))"
| "serve_step t1 t2 calls (res, PRollback) =
     (res\<lparr>res_br := map_option (breaker_report StatusTooManyRequests t1 t2) (res_br res)\<rparr>,
      PDone StatusTooManyRequests)"
| "serve_step t1 t2 calls (res, PServe) = (res, PRelSem (captured_status calls))"
| "serve_step t1 t2 calls (res, PRelSem status) =
     (res\<lparr>res_sem := map_option (\<lambda>(cap, used). (cap, used - 1)) (res_sem res)\<rparr>, PReport status)"
| "serve_step t1 t2 calls (res, PReport status) =
     (res\<lparr>res_br := map_option (breaker_report (release_code status) t1 t2) (res_br res)\<rparr>,
      PDone (release_code status))"
| "serve_step t1 t2 calls (res, PDone status) = (res, PDone status)"

type_synonym serve_sys = "resource \<times> serve_pc multiset"

inductive serve_trans :: "serve_sys \<Rightarrow> serve_sys \<Rightarrow> bool" where
  arrive: "serve_trans (res, G) (res, add_mset PBreaker G)"
| move: "serve_step t1 t2 calls (res, pc) = (res', pc') \<Longrightarrow>
     serve_trans (res, add_mset pc G) (res', add_mset pc' G)"

inductive serve_reach :: "int \<Rightarrow> BreakerConfig \<Rightarrow> serve_sys \<Rightarrow> bool" for maxInFlight bc where
  start: "serve_reach maxInFlight bc (new_resource maxInFlight bc, {#})"
| step: "serve_reach maxInFlight bc s \<Longrightarrow> serve_trans s t \<Longrightarrow> serve_reach maxInFlight bc t"

subsection \<open>The invariant\<close>

fun in_service :: "serve_pc \<Rightarrow> bool" where
  "in_service PServe = True"
| "in_service (PRelSem _) = True"
| "in_service _ = False"

fun pending :: "serve_pc \<Rightarrow> bool" where
  "pending PBreaker = False"
| "pending (PDone _) = False"
| "pending _ = True"

definition serving :: "serve_pc multiset \<Rightarrow> nat" where
  "serving G = size (filter_mset in_service G)"

definition sem_ok :: "resource \<Rightarrow> serve_pc multiset \<Rightarrow> bool" where
  "sem_ok res G \<longleftrightarrow> (\<forall>cap used. res_sem res = Some (cap, used) \<longrightarrow> used = serving G \<and> used \<le> cap)"

definition br_ok :: "resource \<Rightarrow> serve_pc multiset \<Rightarrow> bool" where
  "br_ok res G \<longleftrightarrow>
     (\<forall>b. res_br res = Some b \<longrightarrow> breaker_wf b \<and> (half_open b \<longrightarrow> (\<exists>pc \<in># G. pending pc)))"

lemma serving_add [simp]: "serving (add_mset pc G) = (if in_service pc then Suc (serving G) else serving G)"
  by (simp add: serving_def)

lemma sem_ok_move:
  assumes "sem_ok res (add_mset pc G)" and "serve_step t1 t2 calls (res, pc) = (res', pc')"
  shows "sem_ok res' (add_mset pc' G)"
proof (cases pc)
  case PBreaker
  then show ?thesis
    using assms by (auto simp: sem_ok_def split: option.splits prod.splits if_splits)
next
  case PSem
  then show ?thesis
    using assms by (auto simp: sem_ok_def split: option.splits if_splits)
qed (use assms in \<open>auto simp: sem_ok_def\<close>)

lemma br_ok_same:
  "br_ok res (add_mset pc G) \<Longrightarrow> res_br res' = res_br res \<Longrightarrow> (pending pc \<Longrightarrow> pending pc') \<Longrightarrow>
   br_ok res' (add_mset pc' G)"
  by (auto simp: br_ok_def)

lemma br_ok_report:
  assumes "br_ok res G" and "res_br res' = map_option (breaker_report c t1 t2) (res_br res)"
  shows "br_ok res' G'"
proof -
  have "breaker_wf (breaker_report c t1 t2 b) \<and> \<not> half_open (breaker_report c t1 t2 b)" if "res_br res = Some b" for b
    using assms(1) that breaker.report_invar [of b "(c, t1, t2)"] breaker.report_resolves [of "(c, t1, t2)" b]
    by (simp add: br_ok_def)
  then show ?thesis using assms(2) by (auto simp: br_ok_def)
qed

lemma br_ok_admit:
  assumes "br_ok res (add_mset PBreaker G)" and "res_br res = Some b" and "breaker_gate (t1, t2) b = (ok, b')"
    and "ok \<longrightarrow> pending pc'"
  shows "br_ok (res\<lparr>res_br := Some b'\<rparr>) (add_mset pc' G)"
proof -
  have "breaker_wf b'" using assms breaker.admit_invar [of b "(t1, t2)"] by (simp add: br_ok_def)
  moreover have "\<exists>pc \<in># add_mset pc' G. pending pc" if "half_open b'"
  proof (cases "half_open b")
    case True
    then show ?thesis using assms(1,2) by (auto simp: br_ok_def)
  next
    case False
    then have ok using breaker.admit_claims [of b "(t1, t2)"] assms(3) that by simp
    then show ?thesis using assms(4) by simp
  qed
  ultimately show ?thesis by (simp add: br_ok_def)
qed

lemma br_ok_move:
  assumes "br_ok res (add_mset pc G)" and "serve_step t1 t2 calls (res, pc) = (res', pc')"
  shows "br_ok res' (add_mset pc' G)"
proof (cases pc)
  case PBreaker
  show ?thesis
  proof (cases "res_br res")
    case None
    then show ?thesis using assms PBreaker by (auto simp: br_ok_def)
  next
    case (Some b)
    then show ?thesis using assms PBreaker br_ok_admit by (auto split: prod.splits)
  qed
next
  case PSem
  then show ?thesis
    using assms by (intro br_ok_same [OF assms(1)]) (auto split: option.splits prod.splits if_splits)
next
  case PRollback
  then show ?thesis
    using assms by (intro br_ok_report [OF assms(1), of _ StatusTooManyRequests t1 t2]) auto
next
  case PServe
  then show ?thesis using assms by (intro br_ok_same [OF assms(1)]) auto
next
  case (PRelSem status)
  then show ?thesis using assms by (intro br_ok_same [OF assms(1)]) auto
next
  case (PReport status)
  then show ?thesis
    using assms by (intro br_ok_report [OF assms(1), of _ "release_code status" t1 t2]) auto
next
  case (PDone status)
  then show ?thesis using assms by simp
qed

lemma serve_reach_ok: "serve_reach m bc (res, G) \<Longrightarrow> sem_ok res G \<and> br_ok res G"
proof (induction "(res, G)" arbitrary: res G rule: serve_reach.induct)
  case start
  then show ?case
    using newBreaker_wf [of bc]
    by (auto simp: sem_ok_def br_ok_def new_resource_def serving_def half_open_def newBreaker_def Let_def
        split: if_splits)
next
  case (step s)
  obtain res0 G0 where s: "s = (res0, G0)" by fastforce
  then have i: "sem_ok res0 G0 \<and> br_ok res0 G0" using step.hyps(2) by blast
  from step.hyps(3)[unfolded s] i show ?case
  proof (cases rule: serve_trans.cases)
    case arrive
    then show ?thesis using i by (auto simp: sem_ok_def br_ok_def)
  next
    case (move t1 t2 calls pc pc' G')
    then show ?thesis using i sem_ok_move br_ok_move by blast
  qed
qed

subsection \<open>How long the breaker stays half-open\<close>

fun run_alone :: "(time \<times> time \<times> writer_call list) list \<Rightarrow> resource \<times> serve_pc \<Rightarrow> resource \<times> serve_pc" where
  "run_alone [] s = s"
| "run_alone ((t1, t2, calls) # as) s = run_alone as (serve_step t1 t2 calls s)"

definition is_probing :: "resource \<Rightarrow> bool" where
  "is_probing res \<longleftrightarrow> (\<exists>b. res_br res = Some b \<and> half_open b)"

text \<open>
  An interleaving all of whose steps are taken while the breaker is half-open, with the number of
  steps that requests already let in have taken in it. Arrivals and refusals are not counted.
\<close>

inductive half_open_run :: "serve_sys \<Rightarrow> nat \<Rightarrow> serve_sys \<Rightarrow> bool" for s where
  start: "half_open_run s 0 s"
| arrive: "half_open_run s n (res, G) \<Longrightarrow> is_probing res \<Longrightarrow> half_open_run s n (res, add_mset PBreaker G)"
| move: "half_open_run s n (res, add_mset pc G) \<Longrightarrow> is_probing res \<Longrightarrow>
     serve_step t1 t2 calls (res, pc) = (res', pc') \<Longrightarrow>
     half_open_run s (if pending pc then Suc n else n) (res', add_mset pc' G)"

text \<open>How many steps a pending request has left at most.\<close>

fun steps_left :: "serve_pc \<Rightarrow> nat" where
  "steps_left PBreaker = 5"
| "steps_left PSem = 4"
| "steps_left PRollback = 1"
| "steps_left PServe = 3"
| "steps_left (PRelSem _) = 2"
| "steps_left (PReport _) = 1"
| "steps_left (PDone _) = 0"

definition work_left :: "serve_pc multiset \<Rightarrow> nat" where
  "work_left G = sum_mset (image_mset steps_left (filter_mset pending G))"

definition admitted :: "serve_pc multiset \<Rightarrow> nat" where
  "admitted G = size (filter_mset pending G)"

lemma work_left_add [simp]:
  "work_left (add_mset pc G) = (if pending pc then steps_left pc + work_left G else work_left G)"
  by (simp add: work_left_def)

lemma admitted_add [simp]: "admitted (add_mset pc G) = (if pending pc then Suc (admitted G) else admitted G)"
  by (simp add: admitted_def)

lemma work_left_bound: "work_left G \<le> 4 * admitted G"
proof (induction G)
  case (add pc G)
  then show ?case by (cases pc) auto
qed (simp add: work_left_def)

lemma report_resolved: "\<not> half_open (breaker_report c t1 t2 b)"
  using breaker.report_resolves [of "(c, t1, t2)"] by simp

lemma half_open_refuses:
  assumes "breaker_wf b" and "half_open b"
  shows "breaker_gate (t1, t2) b = (False, b)"
  using half_open_admit [of b t1 t2] assms by (simp add: breaker_gate_def half_open_def)

text \<open>
  A step taken while half-open: a request let in comes closer to its report or makes it, which
  ends the phase; nobody else is let in and nothing else moves the breaker.
\<close>

lemma half_open_move:
  assumes "br_ok res (add_mset pc G)" and "is_probing res" and "serve_step t1 t2 calls (res, pc) = (res', pc')"
  shows "(if pending pc then pending pc' \<and> steps_left pc' < steps_left pc \<or> \<not> pending pc' \<and> \<not> is_probing res'
          else \<not> pending pc')"
proof -
  obtain b where b: "res_br res = Some b" "half_open b" "breaker_wf b"
    using assms(1,2) by (auto simp: is_probing_def br_ok_def)
  show ?thesis
    using assms(3) b half_open_refuses [OF b(3,2), of t1 t2] report_resolved
    by (cases pc) (auto simp: is_probing_def split: option.splits prod.splits if_splits)
qed

lemma half_open_run_reach:
  "half_open_run s n t \<Longrightarrow> serve_reach m bc s \<Longrightarrow> serve_reach m bc t"
proof (induction rule: half_open_run.induct)
  case (arrive n res G)
  then show ?case using serve_reach.step serve_trans.arrive by blast
next
  case (move n res pc G t1 t2 calls res' pc')
  then show ?case using serve_reach.step serve_trans.move by blast
qed

lemma half_open_run_work:
  assumes "half_open_run (res, G) n (res', G')" and "serve_reach m bc (res, G)"
  shows "n + work_left G' \<le> work_left G \<and> (is_probing res' \<longrightarrow> admitted G' = admitted G)"
  using assms(1)
proof (induction n "(res', G')" arbitrary: res' G' rule: half_open_run.induct)
  case (move n res1 pc G1 t1 t2 calls res2 pc')
  have "br_ok res1 (add_mset pc G1)"
    using serve_reach_ok [OF half_open_run_reach [OF move.hyps(1) assms(2)]] by simp
  from half_open_move [OF this move.hyps(3,4)] move.hyps(2,3) show ?case
    by (cases pc) (auto split: if_splits)
qed auto

subsection \<open>A concrete run\<close>

definition one_failure :: BreakerConfig where
  "one_failure = \<lparr>Failures = 1, Window = 0, RecoveryWindow = second\<rparr>"

definition tripped :: breaker where
  "tripped = \<lparr>br_cfg = one_failure, br_state = breakerOpen, consecutive = 0, lastFailure = 10, openedAt = 10,
     probeInFlight = False\<rparr>"

definition probing_breaker :: breaker where
  "probing_breaker = tripped\<lparr>br_state := breakerHalfOpen, probeInFlight := True\<rparr>"

definition probing_state :: serve_sys where
  "probing_state = (\<lparr>res_br = Some probing_breaker, res_sem = Some (1, 0)\<rparr>, {#PSem, PDone 500#})"

lemma serve_reach_move:
  "serve_reach m bc (res, add_mset pc G) \<Longrightarrow> serve_step t1 t2 calls (res, pc) = (res', pc') \<Longrightarrow>
   serve_reach m bc (res', add_mset pc' G)"
  using serve_reach.step serve_trans.move by blast

lemma probing_state_reach: "serve_reach 1 one_failure probing_state"
proof -
  note defs = new_resource_def breaker_gate_def breaker_admit_def breaker_report_def trip_def is_failure_def
    one_failure_def newBreaker_def tripped_def probing_breaker_def captured_status_def release_code_def
    second_def zeroTime_def time_Sub_def int64_min_def int64_max_def time_IsZero_def
  let ?R = "serve_reach 1 one_failure"
  let ?n = "new_resource 1 one_failure"
  let ?t = "\<lparr>res_br = Some tripped, res_sem = Some (1, 0)\<rparr>"
  have "?R (?n, {#PBreaker#})" using serve_reach.step [OF serve_reach.start serve_trans.arrive] .
  from serve_reach_move [OF this, of 1 1 "[]"] have "?R (?n, {#PSem#})" by (simp add: defs)
  from serve_reach_move [OF this, of 1 1 "[]"] have "?R (?n\<lparr>res_sem := Some (1, 1)\<rparr>, {#PServe#})" by (simp add: defs)
  from serve_reach_move [OF this, of 1 1 "[WriteHeader 500]"]
  have "?R (?n\<lparr>res_sem := Some (1, 1)\<rparr>, {#PRelSem 500#})" by (simp add: defs)
  from serve_reach_move [OF this, of 1 1 "[]"] have "?R (?n, {#PReport 500#})" by (simp add: defs)
  from serve_reach_move [OF this, of 10 10 "[]"] have "?R (?t, {#PDone 500#})" by (simp add: defs)
  from serve_reach.step [OF this serve_trans.arrive] have "?R (?t, {#PBreaker, PDone 500#})" .
  from serve_reach_move [OF this, of "second + 10" "second + 10" "[]"] show ?thesis
    by (simp add: probing_state_def defs)
qed

subsection \<open>Properties\<close>

text \<open>
  C3: Every slot that is claimed is returned. In every interleaving of requests to one upstream
  the semaphore counts exactly the requests in service, never more than its capacity; and while
  the breaker is half-open there is a request that was let in and has not reported yet. So once
  all requests have finished, the semaphore is free and the breaker is not stuck half-open.
\<close>

theorem admission_balanced:
  assumes "serve_reach maxInFlight bc (res, G)"
  shows "(\<forall>cap used. res_sem res = Some (cap, used) \<longrightarrow> used = serving G \<and> used \<le> cap)
     \<and> (\<forall>b. res_br res = Some b \<longrightarrow> breaker_wf b \<and> (half_open b \<longrightarrow> (\<exists>pc \<in># G. pending pc)))
     \<and> ((\<forall>pc \<in># G. \<exists>c. pc = PDone c) \<longrightarrow>
          (\<forall>cap used. res_sem res = Some (cap, used) \<longrightarrow> used = 0) \<and> (\<forall>b. res_br res = Some b \<longrightarrow> \<not> half_open b))"
proof -
  have ok: "sem_ok res G" "br_ok res G" using serve_reach_ok [OF assms] by auto
  have "serving G = 0" if "\<forall>pc \<in># G. \<exists>c. pc = PDone c"
    using that by (auto simp: serving_def filter_mset_eq_mempty_iff)
  moreover have "\<not> (\<exists>pc \<in># G. pending pc)" if "\<forall>pc \<in># G. \<exists>c. pc = PDone c"
    using that by auto
  ultimately show ?thesis using ok by (auto simp: sem_ok_def br_ok_def)
qed

theorem admission_balanced_witness:
  "serving (snd probing_state) = 0 \<and> (\<exists>pc. pc \<in># snd probing_state \<and> pending pc)"
proof -
  have "serve_reach 1 one_failure (fst probing_state, snd probing_state)" using probing_state_reach by simp
  from admission_balanced [OF this] show ?thesis
    by (auto simp: probing_state_def half_open_def probing_breaker_def)
qed

text \<open>
  C13: The half-open phase is bounded. In any interleaving of requests while the breaker is
  half-open, no further request is let in, however many arrive; there is a request that was let in
  and has not reported; and after at most four steps for each request that was let in when the
  phase was observed, whatever the clock and the upstream do, the breaker has left half-open.
\<close>

theorem half_open_bounded:
  assumes "serve_reach maxInFlight bc (res, G)" and "half_open_run (res, G) n (res', G')"
  shows "n \<le> 4 * admitted G
     \<and> (is_probing res' \<longrightarrow> admitted G' = admitted G \<and> 0 < admitted G' \<and> n < 4 * admitted G)"
proof -
  have w: "n + work_left G' \<le> work_left G" "is_probing res' \<longrightarrow> admitted G' = admitted G"
    using half_open_run_work [OF assms(2,1)] by auto
  have "0 < admitted G' \<and> 0 < work_left G'" if probing: "is_probing res'"
  proof -
    obtain pc where "pc \<in># G'" "pending pc"
      using serve_reach_ok [OF half_open_run_reach [OF assms(2,1)]] probing
      by (auto simp: is_probing_def br_ok_def)
    then obtain H where "G' = add_mset pc H" by (meson multi_member_split)
    with \<open>pending pc\<close> show ?thesis by (cases pc) auto
  qed
  with w work_left_bound [of G] show ?thesis by auto
qed

theorem half_open_bounded_witness:
  "half_open_run probing_state 1
     (\<lparr>res_br = Some probing_breaker, res_sem = Some (1, 1)\<rparr>, {#PServe, PDone 500#})
   \<and> 1 < 4 * admitted (snd probing_state)"
proof -
  let ?res' = "\<lparr>res_br = Some probing_breaker, res_sem = Some (1, 1)\<rparr>"
  have p: "is_probing (fst probing_state)" "is_probing ?res'"
    by (simp_all add: is_probing_def probing_state_def half_open_def probing_breaker_def)
  have "half_open_run probing_state 0 (fst probing_state, add_mset PSem {#PDone 500#})"
    using half_open_run.start [of probing_state] by (simp add: probing_state_def)
  from half_open_run.move [OF this p(1), of 11 11 "[]" ?res' PServe]
  have run: "half_open_run (fst probing_state, snd probing_state) 1 (?res', {#PServe, PDone 500#})"
    by (simp add: probing_state_def)
  have r: "serve_reach 1 one_failure (fst probing_state, snd probing_state)" using probing_state_reach by simp
  from half_open_bounded [OF r run] p(2) run show ?thesis by simp
qed

text \<open>
  The breaker does not know which request is its probe: while half-open it takes the report of
  any request as the probe's, so that one let in before the breaker tripped can close it, or
  open it again, while the probe is still in service.
\<close>

lemma stale_report_resolves:
  assumes "half_open b"
  shows "res_br (fst (serve_step t1 t2 calls (res\<lparr>res_br := Some b\<rparr>, PReport status)))
       = Some (breaker_report (release_code status) t1 t2 b)
     \<and> br_state (breaker_report (release_code status) t1 t2 b)
         = (if is_failure (release_code status) then breakerOpen else breakerClosed)"
  using assms by (simp add: half_open_def breaker_report_def trip_def Let_def)

text \<open>
  A request that is refused because the upstream's concurrency limit is reached resolves the
  breaker although it never contacted the upstream: with the breaker open, its recovery window
  over and all slots taken, the refusal claims the probe, reports 429 and thereby closes the
  breaker; with the breaker closed, the report clears the failures counted so far.
\<close>

lemma concurrency_refusal_resets_breaker:
  assumes "res_br res = Some b" and "res_sem res = Some (cap, cap)"
    and "br_state b = breakerOpen \<and> time_Sub t (openedAt b) \<ge> RecoveryWindow (br_cfg b) \<or> br_state b = breakerClosed"
  shows "\<exists>b'. run_alone [(t, t', []), (t, t', []), (t, t', [])] (res, PBreaker)
        = (res\<lparr>res_br := Some b'\<rparr>, PDone StatusTooManyRequests)
     \<and> br_state b' = breakerClosed \<and> consecutive b' = 0"
  using assms
  by (auto simp: breaker_gate_def breaker_admit_def breaker_report_def is_failure_def StatusTooManyRequests_def Let_def)

text \<open>
  The status the breaker sees is the first header written, not the final one. Without
  informational headers it is the status that was sent; but a response that starts with an
  informational header is reported under that code, so a probe answered 103 and then 500 closes
  the breaker.
\<close>

lemma breaker_sees_first_header:
  "((\<forall>code. WriteHeader code \<in> set calls \<longrightarrow> \<not> informational code \<and> code \<noteq> 0) \<longrightarrow> captured_status calls = sent_status calls)
   \<and> (informational code \<longrightarrow> half_open b \<longrightarrow>
        captured_status (WriteHeader code # calls) = code
        \<and> sent_status (WriteHeader code # calls) = sent_status calls
        \<and> br_state (breaker_report (release_code (captured_status (WriteHeader code # calls))) t1 t2 b) = breakerClosed)"
proof (intro conjI impI)
  show "captured_status calls = sent_status calls"
    if "\<forall>code. WriteHeader code \<in> set calls \<longrightarrow> \<not> informational code \<and> code \<noteq> 0"
    using captured_status_sent that by blast
  assume i: "informational code" and h: "half_open b"
  then show c: "captured_status (WriteHeader code # calls) = code"
    by (auto simp: captured_status_def capture_status_fix informational_def)
  show "sent_status (WriteHeader code # calls) = sent_status calls" using i by simp
  show "br_state (breaker_report (release_code (captured_status (WriteHeader code # calls))) t1 t2 b) = breakerClosed"
    unfolding c using i h
    by (auto simp: breaker_report_def is_failure_def half_open_def release_code_def informational_def Let_def)
qed

end
