(* ===== verification/Go_Regexp.thy ===== *)
theory Go_Regexp
  imports Go_Strings
begin

text \<open>
  The fragment of Go's \<open>regexp\<close> package the program uses: character classes, the ASCII word
  boundary, concatenation and greedy bounded or unbounded repetition, with the leftmost-first
  choice among the matches, and the replacement of all matches.

  A position in the input is the byte before it, if any, and the rest of the input. The classes
  of the program tell bytes beyond ASCII apart from ASCII ones only, so matching byte by byte
  agrees with matching code point by code point.
\<close>

subsection \<open>Matching\<close>

datatype regexp =
    Class "char \<Rightarrow> bool"
  | WordBoundary
  | Concat regexp regexp
  | Repeat nat "nat option" regexp

type_synonym pos = "char option \<times> bytes"

definition is_word_char :: "char \<Rightarrow> bool" where
  "is_word_char c \<longleftrightarrow>
     (let n = (of_char c :: nat) in
      48 \<le> n \<and> n \<le> 57 \<or> 65 \<le> n \<and> n \<le> 90 \<or> n = 95 \<or> 97 \<le> n \<and> n \<le> 122)"

definition word_before :: "char option \<Rightarrow> bool" where
  "word_before p \<longleftrightarrow> (case p of None \<Rightarrow> False | Some c \<Rightarrow> is_word_char c)"

definition word_after :: "bytes \<Rightarrow> bool" where
  "word_after s \<longleftrightarrow> (case s of [] \<Rightarrow> False | c # _ \<Rightarrow> is_word_char c)"

text \<open>
  Greedy repetition: at least \<open>m\<close> and at most \<open>k\<close> times, one more round before stopping. Results
  are listed in the order in which a backtracking search finds them.
\<close>

fun repeat_match :: "(pos \<Rightarrow> pos list) \<Rightarrow> nat \<Rightarrow> nat \<Rightarrow> pos \<Rightarrow> pos list" where
  "repeat_match f m 0 x = (if m = 0 then [x] else [])"
| "repeat_match f m (Suc k) x =
     concat (map (repeat_match f (m - 1) k) (f x)) @ (if m = 0 then [x] else [])"

text \<open>
  All matches of an expression at a position, the preferred one first. An unbounded repetition
  runs at most as often as there are bytes left, which is enough as its body takes at least one.
\<close>

primrec matches_at :: "regexp \<Rightarrow> pos \<Rightarrow> pos list" where
  "matches_at (Class p) x = (case snd x of [] \<Rightarrow> [] | c # s \<Rightarrow> if p c then [(Some c, s)] else [])"
| "matches_at WordBoundary x = (if word_before (fst x) \<noteq> word_after (snd x) then [x] else [])"
| "matches_at (Concat a b) x = concat (map (matches_at b) (matches_at a x))"
| "matches_at (Repeat lo hi a) x =
     repeat_match (matches_at a) lo (case hi of Some h \<Rightarrow> h | None \<Rightarrow> length (snd x)) x"

text \<open>A literal followed by an expression.\<close>

fun then_lit :: "bytes \<Rightarrow> regexp \<Rightarrow> regexp" where
  "then_lit [] r = r"
| "then_lit (c # cs) r = Concat (Class (\<lambda>x. x = c)) (then_lit cs r)"

subsection \<open>Replacing all matches\<close>

datatype piece = Kept char | Matched bytes

text \<open>
  The input cut into the bytes outside and the matches found by repeated leftmost search. None of
  the program's expressions matches the empty string, so each match makes progress.
\<close>

function pieces :: "regexp \<Rightarrow> char option \<Rightarrow> bytes \<Rightarrow> piece list" where
  "pieces r p [] = []"
| "pieces r p (c # s) =
     (case matches_at r (p, c # s) of
        [] \<Rightarrow> Kept c # pieces r (Some c) s
      | (p', s') # _ \<Rightarrow>
          if length s' < length (c # s)
          then Matched (take (length (c # s) - length s') (c # s)) # pieces r p' s'
          else Kept c # pieces r (Some c) s)"
  by pat_completeness auto

termination by (relation "measure (\<lambda>(r, p, s). length s)") auto

fun piece_src :: "piece \<Rightarrow> bytes" where
  "piece_src (Kept c) = [c]"
| "piece_src (Matched m) = m"

fun piece_out :: "(bytes \<Rightarrow> bytes) \<Rightarrow> piece \<Rightarrow> bytes" where
  "piece_out f (Kept c) = [c]"
| "piece_out f (Matched m) = f m"

definition ReplaceAllStringFunc :: "regexp \<Rightarrow> bytes \<Rightarrow> (bytes \<Rightarrow> bytes) \<Rightarrow> bytes" where
  "ReplaceAllStringFunc r s f = concat (map (piece_out f) (pieces r None s))"

text \<open>The replacement text of the program has no \<open>$\<close>, so nothing in it is expanded.\<close>

definition ReplaceAllString :: "regexp \<Rightarrow> bytes \<Rightarrow> bytes \<Rightarrow> bytes" where
  "ReplaceAllString r s repl = ReplaceAllStringFunc r s (\<lambda>_. repl)"

subsection \<open>Facts about matching\<close>

text \<open>A match leaves a rest of the input, after the byte it took last.\<close>

definition advances :: "pos \<Rightarrow> pos \<Rightarrow> bool" where
  "advances x y \<longleftrightarrow> (\<exists>w. snd x = w @ snd y \<and> fst y = (if w = [] then fst x else Some (last w)))"

lemma advances_refl [simp]: "advances x x"
  by (simp add: advances_def)

lemma advances_trans:
  assumes "advances x y" and "advances y z"
  shows "advances x z"
proof -
  obtain v w where v: "snd x = v @ snd y" "fst y = (if v = [] then fst x else Some (last v))"
    and w: "snd y = w @ snd z" "fst z = (if w = [] then fst y else Some (last w))"
    using assms by (auto simp: advances_def)
  then have "snd x = (v @ w) @ snd z \<and> fst z = (if v @ w = [] then fst x else Some (last (v @ w)))"
    by auto
  then show ?thesis unfolding advances_def by blast
qed

lemma repeat_match_advances:
  assumes "\<And>x y. y \<in> set (f x) \<Longrightarrow> advances x y"
  shows "y \<in> set (repeat_match f m k x) \<Longrightarrow> advances x y"
proof (induction k arbitrary: m x)
  case 0
  then show ?case by (auto split: if_splits)
next
  case (Suc k)
  then show ?case by (auto split: if_splits intro: advances_trans assms)
qed

lemma matches_at_advances: "y \<in> set (matches_at r x) \<Longrightarrow> advances x y"
proof (induction r arbitrary: x y)
  case (Class p)
  then show ?case by (cases "snd x") (auto simp: advances_def split: if_splits)
next
  case (Concat a b)
  then obtain z where "z \<in> set (matches_at a x)" "y \<in> set (matches_at b z)" by auto
  then show ?case using Concat.IH advances_trans by blast
next
  case (Repeat lo hi a)
  then show ?case using repeat_match_advances [of "matches_at a"] by auto
qed (auto split: if_splits)

text \<open>The byte before the position that follows \<open>w\<close>.\<close>

definition prev_byte :: "char option \<Rightarrow> bytes \<Rightarrow> char option" where
  "prev_byte p w = (if w = [] then p else Some (last w))"

lemma prev_byte_append [simp]: "prev_byte (prev_byte p v) w = prev_byte p (v @ w)"
  by (auto simp: prev_byte_def)

lemma prev_byte_Nil [simp]: "prev_byte p [] = p"
  by (simp add: prev_byte_def)

text \<open>The first match, if any, makes no progress.\<close>

definition no_match :: "regexp \<Rightarrow> pos \<Rightarrow> bool" where
  "no_match r x \<longleftrightarrow> (case matches_at r x of [] \<Rightarrow> True | y # _ \<Rightarrow> \<not> length (snd y) < length (snd x))"

lemma pieces_step:
  obtains (keep) "pieces r p (c # s) = Kept c # pieces r (prev_byte p [c]) s" "no_match r (p, c # s)"
  | (found) w s' where "c # s = w @ s'" "w \<noteq> []" "pieces r p (c # s) = Matched w # pieces r (prev_byte p w) s'"
      "(prev_byte p w, s') = hd (matches_at r (p, c # s))"
proof (cases "matches_at r (p, c # s)")
  case Nil
  then show thesis by (intro keep) (simp_all add: no_match_def prev_byte_def)
next
  case (Cons y ys)
  obtain p' s' where y: "y = (p', s')" by (cases y)
  have "advances (p, c # s) (p', s')" using matches_at_advances [of "(p', s')" r "(p, c # s)"] Cons y by simp
  then obtain w where w: "c # s = w @ s'" "p' = prev_byte p w" by (auto simp: advances_def prev_byte_def)
  then have l: "length (c # s) = length w + length s'" by simp
  show thesis
  proof (cases "w = []")
    case True
    then show thesis using Cons y l by (intro keep) (simp_all add: no_match_def prev_byte_def)
  next
    case False
    then have "length s' < length (c # s)" "take (length (c # s) - length s') (c # s) = w"
      using l w by (simp_all del: length_append)
    then have "pieces r p (c # s) = Matched w # pieces r (prev_byte p w) s'"
      using Cons y w(2) by simp
    then show thesis using found [OF w(1) False] Cons y w by simp
  qed
qed

text \<open>The pieces cover the input, and where a byte is kept there is no match.\<close>

lemma pieces_src: "concat (map piece_src (pieces r p s)) = s"
proof (induction "length s" arbitrary: p s rule: less_induct)
  case less
  show ?case
  proof (cases s)
    case (Cons c s1)
    show ?thesis
    proof (cases rule: pieces_step [of r p c s1])
      case keep
      then show ?thesis using less [of s1] Cons by simp
    next
      case (found w s')
      then have "length s' < length s" using Cons by simp
      then show ?thesis using less [of s' "prev_byte p w"] found Cons by simp
    qed
  qed simp
qed

lemma pieces_kept:
  "pieces r p s = a @ Kept c # b \<Longrightarrow>
   no_match r (prev_byte p (concat (map piece_src a)), c # concat (map piece_src b))"
proof (induction "length s" arbitrary: p s a rule: less_induct)
  case less
  obtain d s1 where s: "s = d # s1" using less.prems by (cases s) auto
  have src: "concat (map piece_src (a @ Kept c # b)) = s" using pieces_src [of r p s] less.prems by simp
  show ?case
  proof (cases rule: pieces_step [of r p d s1])
    case keep
    show ?thesis
    proof (cases a)
      case Nil
      then show ?thesis using keep(2) src s by simp
    next
      case (Cons x a')
      then have "x = Kept d" "pieces r (prev_byte p [d]) s1 = a' @ Kept c # b" using less.prems keep(1) s by auto
      then show ?thesis using less.hyps [of s1 "prev_byte p [d]" a'] s Cons by simp
    qed
  next
    case (found w s')
    then obtain a' where a: "a = Matched w # a'" "pieces r (prev_byte p w) s' = a' @ Kept c # b"
      using less.prems s by (cases a) auto
    moreover have "length s' < length s" using found s by simp
    ultimately show ?thesis using less.hyps [of s' "prev_byte p w" a'] by simp
  qed
qed

subsection \<open>Which strings match\<close>

text \<open>\<open>takes r p w t\<close>: at a position with \<open>w\<close> followed by \<open>t\<close>, \<open>r\<close> has a match that takes \<open>w\<close>.\<close>

definition takes :: "regexp \<Rightarrow> char option \<Rightarrow> bytes \<Rightarrow> bytes \<Rightarrow> bool" where
  "takes r p w t \<longleftrightarrow> (prev_byte p w, t) \<in> set (matches_at r (p, w @ t))"

lemma takes_Class: "takes (Class P) p [c] t \<longleftrightarrow> P c"
  by (auto simp: takes_def prev_byte_def)

lemma takes_WordBoundary: "takes WordBoundary p [] t \<longleftrightarrow> word_before p \<noteq> word_after t"
  by (auto simp: takes_def prev_byte_def)

lemma takes_Concat:
  "takes a p v (w @ t) \<Longrightarrow> takes b (prev_byte p v) w t \<Longrightarrow> takes (Concat a b) p (v @ w) t"
  by (force simp: takes_def)

lemma takes_then_lit:
  "takes r (prev_byte p l) w t \<Longrightarrow> takes (then_lit l r) p (l @ w) t"
proof (induction l arbitrary: p)
  case (Cons c l)
  have "takes r (prev_byte (Some c) l) w t" using Cons.prems by (simp add: prev_byte_def split: if_splits)
  then have "takes (then_lit l r) (prev_byte p [c]) (l @ w) t" using Cons.IH by (simp add: prev_byte_def)
  then have "takes (Concat (Class (\<lambda>x. x = c)) (then_lit l r)) p ([c] @ l @ w) t"
    by (intro takes_Concat) (simp_all add: takes_Class)
  then show ?case by simp
qed (simp add: prev_byte_def)

lemma repeat_class_takes:
  assumes "\<forall>c \<in> set w. P c" and "m \<le> length w" and "length w \<le> k"
    and f: "\<And>p c s. P c \<Longrightarrow> f (p, c # s) = [(Some c, s)]"
  shows "(prev_byte p w, t) \<in> set (repeat_match f m k (p, w @ t))"
  using assms(1-3)
proof (induction w arbitrary: m k p)
  case Nil
  then show ?case by (cases k) auto
next
  case (Cons c w)
  then obtain k' where k: "k = Suc k'" by (cases k) auto
  have "(prev_byte (Some c) w, t) \<in> set (repeat_match f (m - 1) k' (Some c, w @ t))"
    using Cons.prems k by (intro Cons.IH) auto
  moreover have "prev_byte (Some c) w = prev_byte p (c # w)" by (simp add: prev_byte_def)
  ultimately show ?case using Cons.prems by (simp add: k f)
qed

lemma takes_Repeat_Class:
  assumes "\<forall>c \<in> set w. P c" and "lo \<le> length w" and "\<forall>h. hi = Some h \<longrightarrow> length w \<le> h"
  shows "takes (Repeat lo hi (Class P)) p w t"
  unfolding takes_def matches_at.simps
  by (rule repeat_class_takes [where P = P]) (use assms in \<open>auto split: option.split\<close>)

text \<open>
  An expression all of whose matches take at least one byte; then a match is progress.
\<close>

definition proper :: "regexp \<Rightarrow> bool" where
  "proper r \<longleftrightarrow> (\<forall>x. \<forall>y \<in> set (matches_at r x). length (snd y) < length (snd x))"

lemma takes_match: "proper r \<Longrightarrow> takes r p w t \<Longrightarrow> \<not> no_match r (p, w @ t)"
  unfolding takes_def no_match_def proper_def
  by (metis (no_types, lifting) list.distinct(1) list.exhaust list.set_intros(1) list.simps(5) set_empty2 empty_iff)

lemma matches_at_length: "y \<in> set (matches_at r x) \<Longrightarrow> length (snd y) \<le> length (snd x)"
  using matches_at_advances [of y r x] by (auto simp: advances_def)

lemma proper_Class [simp]: "proper (Class P)"
  by (auto simp: proper_def split: list.splits if_splits)

lemma proper_Concat: "proper a \<or> proper b \<Longrightarrow> proper (Concat a b)"
proof -
  assume p: "proper a \<or> proper b"
  have "length (snd z) < length (snd x)" if "y \<in> set (matches_at a x)" "z \<in> set (matches_at b y)" for x y z
    using p that matches_at_length [OF that(1)] matches_at_length [OF that(2)] unfolding proper_def
    by (meson le_less_trans less_le_trans)
  then show ?thesis by (auto simp: proper_def)
qed

lemma proper_then_lit: "l \<noteq> [] \<Longrightarrow> proper (then_lit l r)"
  by (cases l) (simp_all add: proper_Concat)

lemma proper_Repeat: "0 < lo \<Longrightarrow> proper a \<Longrightarrow> proper (Repeat lo hi a)"
proof -
  have rm: "y \<in> set (repeat_match (matches_at a) m k x) \<Longrightarrow> length (snd y) \<le> length (snd x)" for m k x y
    using repeat_match_advances [where f = "matches_at a" and m = m and k = k and x = x and y = y]
      matches_at_advances by (fastforce simp: advances_def)
  assume lo: "0 < lo" and a: "proper a"
  have "length (snd y) < length (snd x)" if y: "y \<in> set (repeat_match (matches_at a) lo k x)" for k x y
  proof (cases k)
    case (Suc k')
    then obtain z where "z \<in> set (matches_at a x)" "y \<in> set (repeat_match (matches_at a) (lo - 1) k' z)"
      using y lo by auto
    then show ?thesis using rm [of y "lo - 1" k' z] a unfolding proper_def by (meson le_less_trans)
  qed (use y lo in simp)
  then show ?thesis by (simp add: proper_def)
qed

end
