(* ===== verification/Redact.thy ===== *)
theory Redact
  imports Go_Regexp
begin

text \<open>
  Redaction of captured content (\<open>internal/redact\<close>): the pattern sets, their application in
  order, the Luhn check of card numbers, and that a credential standing on its own never survives.
\<close>

subsection \<open>Profiles and patterns\<close>

definition ProfileOff :: bytes where "ProfileOff = ''off''"
definition ProfileDefault :: bytes where "ProfileDefault = ''default''"
definition ProfileStrict :: bytes where "ProfileStrict = ''strict''"

definition Mask :: bytes where
  "Mask = ''[REDACTED]''"

definition in_range :: "nat \<Rightarrow> nat \<Rightarrow> char \<Rightarrow> bool" where
  "in_range lo hi c \<longleftrightarrow> lo \<le> (of_char c :: nat) \<and> (of_char c :: nat) \<le> hi"

definition digit :: "char \<Rightarrow> bool" where "digit c \<longleftrightarrow> in_range 48 57 c"
definition upper :: "char \<Rightarrow> bool" where "upper c \<longleftrightarrow> in_range 65 90 c"
definition letter :: "char \<Rightarrow> bool" where "letter c \<longleftrightarrow> upper c \<or> in_range 97 122 c"
definition alnum :: "char \<Rightarrow> bool" where "alnum c \<longleftrightarrow> letter c \<or> digit c"

definition one_of :: "bytes \<Rightarrow> char \<Rightarrow> bool" where
  "one_of cs c \<longleftrightarrow> c \<in> set cs"

definition blank :: "char \<Rightarrow> bool" where
  "blank c \<longleftrightarrow> (of_char c :: nat) \<in> {9, 10, 12, 13, 32}"

text \<open>The common shape: a boundary, a literal, a run of class characters, a boundary.\<close>

definition key_re :: "bytes \<Rightarrow> (char \<Rightarrow> bool) \<Rightarrow> nat \<Rightarrow> nat option \<Rightarrow> regexp" where
  "key_re pre cls lo hi =
     Concat WordBoundary (then_lit pre (Concat (Repeat lo hi (Class cls)) WordBoundary))"

definition tok_char :: "char \<Rightarrow> bool" where "tok_char c \<longleftrightarrow> alnum c \<or> one_of ''_-'' c"
definition mail_char :: "char \<Rightarrow> bool" where "mail_char c \<longleftrightarrow> alnum c \<or> one_of ''._%+-'' c"
definition host_char :: "char \<Rightarrow> bool" where "host_char c \<longleftrightarrow> alnum c \<or> one_of ''.-'' c"

definition slack_re :: regexp where
  "slack_re =
     Concat WordBoundary (then_lit ''xox'' (Concat (Class (one_of ''abprs'')) (then_lit ''-''
       (Concat (Repeat 10 None (Class (\<lambda>c. alnum c \<or> c = CHR ''-''))) WordBoundary))))"

definition private_key_re :: regexp where
  "private_key_re =
     then_lit [CHR 0x22] (then_lit ''private_key'' (then_lit [CHR 0x22] (Concat (Repeat 0 None (Class blank))
       (then_lit '':'' (Concat (Repeat 0 None (Class blank)) (then_lit [CHR 0x22]
         (Concat (Repeat 1 None (Class (\<lambda>c. c \<noteq> CHR 0x22))) (Class (\<lambda>c. c = CHR 0x22)))))))))"

definition jwt_re :: regexp where
  "jwt_re =
     Concat WordBoundary (then_lit ''eyJ'' (Concat (Repeat 8 None (Class tok_char)) (then_lit ''.''
       (Concat (Repeat 8 None (Class tok_char)) (then_lit ''.''
         (Concat (Repeat 8 None (Class tok_char)) WordBoundary))))))"

definition email_re :: regexp where
  "email_re =
     Concat WordBoundary (Concat (Repeat 1 None (Class mail_char)) (then_lit ''@''
       (Concat (Repeat 1 None (Class host_char)) (then_lit ''.''
         (Concat (Repeat 2 None (Class letter)) WordBoundary)))))"

definition cc_re :: regexp where
  "cc_re =
     Concat WordBoundary (Concat
       (Repeat 13 (Some 19) (Concat (Class digit) (Repeat 0 (Some 1) (Class (one_of '' -'')))))
       WordBoundary)"

definition ssn_re :: regexp where
  "ssn_re =
     Concat WordBoundary (Concat (Repeat 3 (Some 3) (Class digit)) (then_lit ''-''
       (Concat (Repeat 2 (Some 2) (Class digit)) (then_lit ''-''
         (Concat (Repeat 4 (Some 4) (Class digit)) WordBoundary)))))"

definition phone_re :: regexp where
  "phone_re = then_lit ''+'' (Concat (Repeat 8 (Some 15) (Class digit)) WordBoundary)"

text \<open>What satisfies \<open>replacer\<close>: a regular expression, or one with a Luhn check.\<close>

datatype replacer = Regexp regexp | LuhnReplacer regexp

definition defaultPatterns :: "replacer list" where
  "defaultPatterns =
     [Regexp (key_re ''sk-'' tok_char 20 None),
      Regexp slack_re,
      Regexp (key_re ''AKIA'' (\<lambda>c. digit c \<or> upper c) 16 (Some 16)),
      Regexp (key_re ''AIza'' tok_char 35 (Some 35)),
      Regexp (key_re ''gsk_'' alnum 20 None),
      Regexp (key_re ''r8_'' alnum 20 None),
      Regexp (key_re ''ghp_'' alnum 36 (Some 255)),
      Regexp (key_re ''gho_'' alnum 36 (Some 255)),
      Regexp (key_re ''ghu_'' alnum 36 (Some 255)),
      Regexp (key_re ''ghs_'' alnum 36 (Some 255)),
      Regexp (key_re ''ghr_'' alnum 36 (Some 255)),
      Regexp (key_re ''github_pat_'' (\<lambda>c. alnum c \<or> c = CHR ''_'') 40 (Some 255)),
      Regexp private_key_re,
      Regexp jwt_re,
      Regexp email_re]"

definition luhnSafeCC :: replacer where
  "luhnSafeCC = LuhnReplacer cc_re"

definition strictPatterns :: "replacer list" where
  "strictPatterns = [luhnSafeCC, Regexp ssn_re, Regexp phone_re]"

subsection \<open>Application\<close>

definition stripNonDigits :: "bytes \<Rightarrow> bytes" where
  "stripNonDigits s = filter digit s"

text \<open>\<open>digits[i] - '0'\<close> is a byte subtraction. The loop runs from the last digit to the first.\<close>

definition byte_digit :: "char \<Rightarrow> nat" where
  "byte_digit c = (of_char c + 208) mod 256"

fun luhn_loop :: "bool \<Rightarrow> nat \<Rightarrow> bytes \<Rightarrow> nat" where
  "luhn_loop alt acc [] = acc"
| "luhn_loop alt acc (d # ds) =
     (let n = byte_digit d;
          n = (if alt then (if n * 2 > 9 then n * 2 - 9 else n * 2) else n) in
      luhn_loop (\<not> alt) (acc + n) ds)"

definition luhn :: "bytes \<Rightarrow> bool" where
  "luhn digits \<longleftrightarrow> luhn_loop False 0 (rev digits) mod 10 = 0"

definition luhn_mask :: "bytes \<Rightarrow> bytes \<Rightarrow> bytes" where
  "luhn_mask repl m =
     (let digits = stripNonDigits m in
      if length digits < 13 \<or> length digits > 19 then m else if \<not> luhn digits then m else repl)"

fun replacer_ReplaceAllString :: "replacer \<Rightarrow> bytes \<Rightarrow> bytes \<Rightarrow> bytes" where
  "replacer_ReplaceAllString (Regexp r) s repl = ReplaceAllString r s repl"
| "replacer_ReplaceAllString (LuhnReplacer r) s repl = ReplaceAllStringFunc r s (luhn_mask repl)"

fun applyAll :: "bytes \<Rightarrow> replacer list \<Rightarrow> bytes" where
  "applyAll s [] = s"
| "applyAll s (p # pats) = applyAll (replacer_ReplaceAllString p s Mask) pats"

definition Apply :: "bytes \<Rightarrow> bytes \<Rightarrow> bytes" where
  "Apply s profile =
     (if profile = ProfileOff \<or> profile = [] then s
      else if profile = ProfileDefault then applyAll s defaultPatterns
      else if profile = ProfileStrict then applyAll (applyAll s defaultPatterns) strictPatterns
      else s)"

definition Func :: "bytes \<Rightarrow> (bytes \<Rightarrow> bytes) option" where
  "Func profile = (if profile = ProfileOff \<or> profile = [] then None else Some (\<lambda>s. Apply s profile))"

definition Valid :: "bytes \<Rightarrow> bool" where
  "Valid p \<longleftrightarrow> p \<in> {ProfileOff, ProfileDefault, ProfileStrict, []}"

subsection \<open>What a replacer promises\<close>

text \<open>
  A replacement masks: its output is the input with some parts replaced by \<open>Mask\<close>. What
  follows about text that is never created, and stays delimited, holds for every replacer.
\<close>

definition src :: "piece list \<Rightarrow> bytes" where
  "src ps = concat (map piece_src ps)"

definition masked :: "piece list \<Rightarrow> bytes" where
  "masked ps = concat (map (piece_out (\<lambda>_. Mask)) ps)"

definition plain :: "bytes \<Rightarrow> bool" where
  "plain w \<longleftrightarrow> CHR ''['' \<notin> set w \<and> CHR '']'' \<notin> set w \<and> w \<noteq> [] \<and> \<not> sublist w Mask"

definition delimited :: "bytes \<Rightarrow> bytes \<Rightarrow> bool" where
  "delimited w s \<longleftrightarrow> (\<forall>a b. s = a @ w @ b \<longrightarrow> \<not> word_before (prev_byte None a) \<and> \<not> word_after b)"

lemma src_simps [simp]: "src [] = []" "src (p # ps) = piece_src p @ src ps" "src (ps @ qs) = src ps @ src qs"
  by (simp_all add: src_def)

lemma masked_simps [simp]:
  "masked [] = []" "masked (p # ps) = piece_out (\<lambda>_. Mask) p @ masked ps" "masked (ps @ qs) = masked ps @ masked qs"
  by (simp_all add: masked_def)

lemma src_pieces [simp]: "src (pieces r p s) = s"
  by (simp add: src_def pieces_src)

lemma src_Kept [simp]: "src (map Kept w) = w"
  by (induction w) auto

lemma masked_Kept [simp]: "masked (map Kept w) = w"
  by (induction w) auto

text \<open>An occurrence of a plain string in the output is an occurrence among the kept bytes.\<close>

lemma masked_prefix:
  "masked ps = w @ b \<Longrightarrow> CHR ''['' \<notin> set w \<Longrightarrow> \<exists>qs. ps = map Kept w @ qs \<and> masked qs = b"
proof (induction w arbitrary: ps)
  case (Cons c w)
  then obtain p qs where ps: "ps = p # qs" by (cases ps) auto
  have p: "p = Kept c"
    using Cons.prems ps by (cases p) (auto simp: Mask_def)
  then obtain rs where "qs = map Kept w @ rs" "masked rs = b" using Cons ps by auto
  then show ?case using ps p by auto
qed simp

lemma Mask_overlap:
  assumes "Mask @ rest = a @ w @ b" and "plain w"
  shows "\<exists>a'. a = Mask @ a' \<and> rest = a' @ w @ b"
proof (rule ccontr)
  assume no: "\<nexists>a'. a = Mask @ a' \<and> rest = a' @ w @ b"
  obtain us where us: "Mask @ us = a \<and> rest = us @ w @ b \<or> Mask = a @ us \<and> us @ rest = w @ b"
    using assms(1) by (auto simp: append_eq_append_conv2)
  then have us: "Mask = a @ us" "us @ rest = w @ b" using no by auto
  have "us \<noteq> []" using us no by auto
  then have "last us = CHR '']''" using us(1) by (metis Mask_def last_appendR last.simps list.distinct(1))
  then have "CHR '']'' \<in> set us" using \<open>us \<noteq> []\<close> last_in_set by metis
  obtain vs where "w = us @ vs \<or> us = w @ vs" using us(2) by (auto simp: append_eq_append_conv2)
  then show False
    using \<open>CHR '']'' \<in> set us\<close> us(1) assms(2) by (auto simp: plain_def sublist_def)
qed

lemma masked_occurrence:
  "masked ps = a @ w @ b \<Longrightarrow> plain w \<Longrightarrow>
   \<exists>us vs. ps = us @ map Kept w @ vs \<and> masked us = a \<and> masked vs = b"
proof (induction ps arbitrary: a)
  case Nil
  then show ?case by (simp add: plain_def)
next
  case (Cons p ps)
  show ?case
  proof (cases "a = []")
    case True
    then obtain qs where "p # ps = map Kept w @ qs" "masked qs = b"
      using masked_prefix [of "p # ps" w b] Cons.prems by (auto simp: plain_def)
    then show ?thesis using True by (intro exI [of _ "[]"] exI [of _ qs]) simp
  next
    case False
    obtain a' where a: "a = piece_out (\<lambda>_. Mask) p @ a'" "masked ps = a' @ w @ b"
    proof (cases p)
      case (Kept c)
      then show thesis using that False Cons.prems(1) by (cases a) auto
    next
      case (Matched m)
      then show thesis using that Mask_overlap [of "masked ps" a w b] Cons.prems by auto
    qed
    from Cons.IH [OF a(2) Cons.prems(2)] obtain us vs
      where "ps = us @ map Kept w @ vs" "masked us = a'" "masked vs = b" by blast
    then show ?thesis using a by (intro exI [of _ "p # us"] exI [of _ vs]) simp
  qed
qed

lemma masked_word_before: "\<not> word_before (prev_byte None (src ps)) \<Longrightarrow> \<not> word_before (prev_byte None (masked ps))"
proof (cases ps rule: rev_cases)
  case (snoc qs p)
  assume "\<not> word_before (prev_byte None (src ps))"
  then show ?thesis
    using snoc
    by (cases p) (simp_all add: prev_byte_def Mask_def word_before_def is_word_char_def)
qed simp

lemma masked_word_after: "\<not> word_after (src ps) \<Longrightarrow> \<not> word_after (masked ps)"
  by (cases ps; cases "hd ps") (auto simp: Mask_def word_after_def is_word_char_def)

definition masks :: "bytes \<Rightarrow> bytes \<Rightarrow> bool" where
  "masks s s' \<longleftrightarrow> (\<exists>ps. s = src ps \<and> s' = masked ps)"

locale masker =
  fixes replace :: "bytes \<Rightarrow> bytes"
  assumes replace_masks: "masks s (replace s)"
begin

lemma nothing_new: "plain w \<Longrightarrow> sublist w (replace s) \<Longrightarrow> sublist w s"
proof -
  assume w: "plain w" and "sublist w (replace s)"
  then obtain a b where "replace s = a @ w @ b" by (auto simp: sublist_def)
  moreover obtain ps where ps: "s = src ps" "replace s = masked ps" using replace_masks [of s] by (auto simp: masks_def)
  ultimately obtain us vs where "ps = us @ map Kept w @ vs" using masked_occurrence [of ps a w b] w by auto
  then show ?thesis using ps by (auto simp: sublist_def)
qed

lemma stays_delimited: "plain w \<Longrightarrow> delimited w s \<Longrightarrow> delimited w (replace s)"
  unfolding delimited_def
proof (intro allI impI)
  fix a b
  assume w: "plain w" and d: "\<forall>a b. s = a @ w @ b \<longrightarrow> \<not> word_before (prev_byte None a) \<and> \<not> word_after b"
    and occ: "replace s = a @ w @ b"
  obtain ps where ps: "s = src ps" "replace s = masked ps"
    using replace_masks [of s] by (auto simp: masks_def)
  then obtain us vs where s: "ps = us @ map Kept w @ vs" "masked us = a" "masked vs = b"
    using masked_occurrence [of ps a w b] w occ by auto
  then have "\<not> word_before (prev_byte None (src us)) \<and> \<not> word_after (src vs)" using d ps(1) by auto
  then show "\<not> word_before (prev_byte None a) \<and> \<not> word_after b"
    using masked_word_before [of us] masked_word_after [of vs] s by auto
qed

end

subsection \<open>The replacers of the program\<close>

definition settle :: "(bytes \<Rightarrow> bytes) \<Rightarrow> piece \<Rightarrow> piece list" where
  "settle f p =
     (case p of Kept c \<Rightarrow> [Kept c] | Matched m \<Rightarrow> if f m = m then map Kept m else [Matched m])"

lemma settle_masks:
  assumes "\<forall>m. f m = m \<or> f m = Mask"
  shows "src (concat (map (settle f) ps)) = src ps \<and> masked (concat (map (settle f) ps)) = concat (map (piece_out f) ps)"
proof (induction ps)
  case (Cons p ps)
  show ?case
  proof (cases p)
    case (Matched m)
    then show ?thesis using Cons assms by (cases "f m = m") (auto simp: settle_def)
  qed (use Cons in \<open>simp add: settle_def\<close>)
qed simp

lemma replace_masks_or_keeps:
  assumes "\<forall>m. f m = m \<or> f m = Mask"
  shows "masks s (ReplaceAllStringFunc r s f)"
proof -
  have "s = src (pieces r None s)" by (simp add: src_def pieces_src)
  then show ?thesis
    unfolding masks_def ReplaceAllStringFunc_def using settle_masks [OF assms, of "pieces r None s"] by metis
qed

interpretation replacers: masker "\<lambda>s. replacer_ReplaceAllString p s Mask" for p
proof unfold_locales
  fix s
  show "masks s (replacer_ReplaceAllString p s Mask)"
  proof (cases p)
    case (Regexp r)
    have "masks s (masked (pieces r None s))"
      unfolding masks_def using pieces_src [of r None s] by (intro exI [of _ "pieces r None s"]) (simp add: src_def)
    then show ?thesis by (simp add: Regexp ReplaceAllString_def ReplaceAllStringFunc_def masked_def)
  next
    case (LuhnReplacer r)
    then show ?thesis using replace_masks_or_keeps [of "luhn_mask Mask"] by (simp add: luhn_mask_def Let_def)
  qed
qed

lemma applyAll_nothing_new: "plain w \<Longrightarrow> sublist w (applyAll s pats) \<Longrightarrow> sublist w s"
  by (induction s pats rule: applyAll.induct) (auto dest: replacers.nothing_new)

lemma applyAll_delimited: "plain w \<Longrightarrow> delimited w s \<Longrightarrow> delimited w (applyAll s pats)"
  by (induction s pats rule: applyAll.induct) (auto dest: replacers.stays_delimited)

text \<open>A string the expression matches wherever it stands on its own.\<close>

definition secret :: "regexp \<Rightarrow> bytes \<Rightarrow> bool" where
  "secret r w \<longleftrightarrow> (\<forall>p t. \<not> word_before p \<longrightarrow> \<not> word_after t \<longrightarrow> takes r p w t)"

lemma secret_masked:
  assumes "proper r" and "secret r w" and "plain w" and "delimited w s"
  shows "\<not> sublist w (ReplaceAllString r s Mask)"
proof
  assume "sublist w (ReplaceAllString r s Mask)"
  then obtain a b where "masked (pieces r None s) = a @ w @ b"
    by (auto simp: sublist_def ReplaceAllString_def ReplaceAllStringFunc_def masked_def)
  then obtain us vs where ps: "pieces r None s = us @ map Kept w @ vs"
    using masked_occurrence [of "pieces r None s" a w b] assms(3) by blast
  obtain c w' where w: "w = c # w'" using assms(3) by (cases w) (auto simp: plain_def)
  have "s = src (us @ map Kept w @ vs)" using ps src_pieces by metis
  then have "s = src us @ w @ src vs" by simp
  then have "takes r (prev_byte None (src us)) w (src vs)"
    using assms(2,4) by (auto simp: delimited_def secret_def)
  moreover have "no_match r (prev_byte None (src us), c # src (map Kept w' @ vs))"
    unfolding src_def by (rule pieces_kept [of r None s]) (simp add: ps w)
  then have "no_match r (prev_byte None (src us), w @ src vs)" by (simp add: w)
  ultimately show False using takes_match assms(1) by blast
qed

lemma applyAll_secret:
  assumes "Regexp r \<in> set pats" and "proper r" and "secret r w" and "plain w" and "delimited w s"
  shows "\<not> sublist w (applyAll s pats)"
  using assms(1,5)
proof (induction pats arbitrary: s)
  case (Cons p pats)
  show ?case
  proof (cases "p = Regexp r")
    case True
    then have "\<not> sublist w (replacer_ReplaceAllString p s Mask)"
      using secret_masked [OF assms(2-4) Cons.prems(2)] by simp
    then show ?thesis using applyAll_nothing_new [OF assms(4)] by auto
  next
    case False
    then show ?thesis using Cons replacers.stays_delimited [OF assms(4) Cons.prems(2)] by simp
  qed
qed simp

subsection \<open>Credentials\<close>

text \<open>The key families with a literal prefix: prefix, body class, bounds on the body's length.\<close>

definition key_table :: "(bytes \<times> (char \<Rightarrow> bool) \<times> nat \<times> nat option) list" where
  "key_table =
     [(''sk-'', tok_char, 20, None), (''AKIA'', \<lambda>c. digit c \<or> upper c, 16, Some 16),
      (''AIza'', tok_char, 35, Some 35), (''gsk_'', alnum, 20, None), (''r8_'', alnum, 20, None),
      (''ghp_'', alnum, 36, Some 255), (''gho_'', alnum, 36, Some 255), (''ghu_'', alnum, 36, Some 255),
      (''ghs_'', alnum, 36, Some 255), (''ghr_'', alnum, 36, Some 255),
      (''github_pat_'', \<lambda>c. alnum c \<or> c = CHR ''_'', 40, Some 255)]"

definition api_key :: "bytes \<Rightarrow> bool" where
  "api_key w \<longleftrightarrow>
     (\<exists>(pre, cls, lo, hi) \<in> set key_table. \<exists>body. w = pre @ body \<and> list_all cls body \<and> lo \<le> length body
        \<and> (\<forall>h. hi = Some h \<longrightarrow> length body \<le> h) \<and> is_word_char (last body))"

definition jwt :: "bytes \<Rightarrow> bool" where
  "jwt w \<longleftrightarrow>
     (\<exists>h b s. w = ''eyJ'' @ h @ ''.'' @ b @ ''.'' @ s \<and> list_all tok_char (h @ b @ s)
        \<and> 8 \<le> length h \<and> 8 \<le> length b \<and> 8 \<le> length s \<and> is_word_char (last s))"

definition email :: "bytes \<Rightarrow> bool" where
  "email w \<longleftrightarrow>
     (\<exists>l d t. w = l @ ''@'' @ d @ ''.'' @ t \<and> list_all mail_char l \<and> l \<noteq> [] \<and> is_word_char (hd l)
        \<and> list_all host_char d \<and> d \<noteq> [] \<and> list_all letter t \<and> 2 \<le> length t)"

lemmas class_defs = digit_def upper_def letter_def alnum_def one_of_def tok_char_def mail_char_def host_char_def
  in_range_def

lemma takes_boundary_start:
  "\<not> word_before p \<Longrightarrow> word_after (w @ t) \<Longrightarrow> takes r p w t \<Longrightarrow> takes (Concat WordBoundary r) p w t"
  using takes_Concat [of WordBoundary p "[]" w t r] by (simp add: takes_WordBoundary)

lemma takes_boundary_end:
  assumes "takes r p w t" and "w \<noteq> []" and "is_word_char (last w)" and "\<not> word_after t"
  shows "takes (Concat r WordBoundary) p w t"
  using takes_Concat [of r p w "[]" t WordBoundary] assms
  by (simp add: takes_WordBoundary prev_byte_def word_before_def)

text \<open>Stepping over a literal and over a run of a class.\<close>

lemma takes_run:
  assumes "list_all P v" and "lo \<le> length v" and "\<forall>h. hi = Some h \<longrightarrow> length v \<le> h" and "takes r (prev_byte p v) w t"
  shows "takes (Concat (Repeat lo hi (Class P)) r) p (v @ w) t"
  using takes_Concat [OF takes_Repeat_Class assms(4)] assms(1-3) by (simp add: list_all_iff)

lemma takes_last_run:
  assumes "list_all P v" and "lo \<le> length v" and "\<forall>h. hi = Some h \<longrightarrow> length v \<le> h"
    and "v \<noteq> []" and "is_word_char (last v)" and "\<not> word_after t"
  shows "takes (Concat (Repeat lo hi (Class P)) WordBoundary) p v t"
  by (intro takes_boundary_end takes_Repeat_Class) (use assms in \<open>simp_all add: list_all_iff\<close>)

lemma secret_key:
  assumes "pre \<noteq> []" and "is_word_char (hd pre)" and "list_all cls body" and "lo \<le> length body" and "0 < lo"
    and "\<forall>h. hi = Some h \<longrightarrow> length body \<le> h" and "is_word_char (last body)"
  shows "secret (key_re pre cls lo hi) (pre @ body)"
  unfolding secret_def key_re_def
proof (intro allI impI)
  fix p t
  assume "\<not> word_before p" and t: "\<not> word_after t"
  moreover have "word_after ((pre @ body) @ t)" using assms(1,2) by (cases pre) (auto simp: word_after_def)
  moreover have "takes (then_lit pre (Concat (Repeat lo hi (Class cls)) WordBoundary)) p (pre @ body) t"
    by (intro takes_then_lit takes_last_run) (use assms t in auto)
  ultimately show "takes (Concat WordBoundary (then_lit pre (Concat (Repeat lo hi (Class cls)) WordBoundary))) p (pre @ body) t"
    by (intro takes_boundary_start)
qed

lemma secret_jwt: "jwt w \<Longrightarrow> secret jwt_re w"
  unfolding secret_def jwt_re_def jwt_def
proof (elim exE conjE, intro allI impI, goal_cases)
  case (1 h b s p t)
  have "takes (Concat (Repeat 8 None (Class tok_char)) (then_lit ''.'' (Concat (Repeat 8 None (Class tok_char)) (then_lit ''.''
         (Concat (Repeat 8 None (Class tok_char)) WordBoundary))))) (prev_byte p ''eyJ'') (h @ ''.'' @ b @ ''.'' @ s) t"
    by (intro takes_run takes_then_lit takes_last_run) (use 1 in auto)
  then have "takes (then_lit ''eyJ'' (Concat (Repeat 8 None (Class tok_char)) (then_lit ''.'' (Concat (Repeat 8 None (Class tok_char)) (then_lit ''.''
         (Concat (Repeat 8 None (Class tok_char)) WordBoundary)))))) p (''eyJ'' @ h @ ''.'' @ b @ ''.'' @ s) t"
    by (rule takes_then_lit)
  then show ?case
    unfolding 1(1) by (intro takes_boundary_start) (use 1 in \<open>simp_all add: word_after_def is_word_char_def\<close>)
qed

lemma secret_email: "email w \<Longrightarrow> secret email_re w"
  unfolding secret_def email_re_def email_def
proof (elim exE conjE, intro allI impI, goal_cases)
  case (1 l d s p t)
  have "is_word_char (last s)"
    using 1 by (cases s rule: rev_cases) (auto simp: letter_def upper_def in_range_def is_word_char_def)
  then have "takes (Concat (Repeat 1 None (Class mail_char)) (then_lit ''@'' (Concat (Repeat 1 None (Class host_char))
      (then_lit ''.'' (Concat (Repeat 2 None (Class letter)) WordBoundary))))) p (l @ ''@'' @ d @ ''.'' @ s) t"
    by (intro takes_run takes_then_lit takes_last_run) (use 1 in \<open>auto simp: Suc_le_eq\<close>)
  moreover have "word_after ((l @ ''@'' @ d @ ''.'' @ s) @ t)" using 1 by (cases l) (auto simp: word_after_def)
  ultimately show ?case unfolding 1(1) using 1 by (intro takes_boundary_start)
qed

lemma proper_patterns:
  "pre \<noteq> [] \<Longrightarrow> proper (key_re pre cls lo hi)" "proper jwt_re" "proper email_re" "proper slack_re"
  by (simp_all add: key_re_def jwt_re_def email_re_def slack_re_def proper_Concat proper_then_lit proper_Repeat)

lemma plainI:
  assumes "\<forall>c \<in> set w. c \<noteq> CHR ''['' \<and> c \<noteq> CHR '']''" and "x \<in> set w" and "x \<notin> set Mask"
  shows "plain w"
proof -
  have "\<not> sublist w Mask" using assms(2,3) set_mono_sublist by blast
  then show ?thesis using assms(1,2) unfolding plain_def by (metis empty_iff set_empty2)
qed

lemma brackets_out:
  "\<not> tok_char CHR ''[''" "\<not> alnum CHR ''[''" "\<not> mail_char CHR ''[''" "\<not> host_char CHR ''[''"
  "\<not> letter CHR ''[''" "\<not> digit CHR ''[''" "\<not> upper CHR ''[''"
  "\<not> tok_char CHR '']''" "\<not> alnum CHR '']''" "\<not> mail_char CHR '']''" "\<not> host_char CHR '']''"
  "\<not> letter CHR '']''" "\<not> digit CHR '']''" "\<not> upper CHR '']''"
  by (simp_all add: class_defs)

lemma class_no_bracket:
  "tok_char c \<or> alnum c \<or> mail_char c \<or> host_char c \<or> letter c \<or> digit c \<or> upper c \<Longrightarrow> c \<noteq> CHR ''['' \<and> c \<noteq> CHR '']''"
  using brackets_out by metis

lemma key_table_classes:
  assumes "(pre, cls, lo, hi) \<in> set key_table"
  shows "\<not> cls CHR ''['' \<and> \<not> cls CHR '']''"
proof -
  have "list_all (\<lambda>(pre, cls, lo, hi). \<not> cls CHR ''['' \<and> \<not> cls CHR '']'') key_table"
    by (simp add: key_table_def brackets_out)
  then show ?thesis using assms by (auto simp: list_all_iff)
qed

lemma key_table_prefix:
  assumes "(pre, cls, lo, hi) \<in> set key_table"
  shows "CHR ''['' \<notin> set pre \<and> CHR '']'' \<notin> set pre \<and> list_ex (\<lambda>x. x \<notin> set Mask) pre"
proof -
  have "list_all (\<lambda>(pre, cls, lo, hi). CHR ''['' \<notin> set pre \<and> CHR '']'' \<notin> set pre \<and> list_ex (\<lambda>x. x \<notin> set Mask) pre) key_table"
    by (simp add: key_table_def Mask_def)
  then show ?thesis using assms by (auto simp: list_all_iff)
qed

lemma key_plain:
  assumes "(pre, cls, lo, hi) \<in> set key_table" and "list_all cls body"
  shows "plain (pre @ body)"
proof -
  obtain x where "x \<in> set pre" "x \<notin> set Mask" using key_table_prefix [OF assms(1)] by (auto simp: list_ex_iff)
  moreover have "\<forall>c \<in> set body. c \<noteq> CHR ''['' \<and> c \<noteq> CHR '']''"
    using key_table_classes [OF assms(1)] assms(2) by (metis list_all_iff)
  ultimately show ?thesis
    using key_table_prefix [OF assms(1)] by (intro plainI [of _ x]) auto
qed

lemma key_pattern:
  assumes "(pre, cls, lo, hi) \<in> set key_table"
  shows "Regexp (key_re pre cls lo hi) \<in> set defaultPatterns \<and> pre \<noteq> [] \<and> is_word_char (hd pre) \<and> 0 < lo"
proof -
  have "list_all (\<lambda>(pre, cls, lo, hi). Regexp (key_re pre cls lo hi) \<in> set defaultPatterns \<and> pre \<noteq> []
      \<and> is_word_char (hd pre) \<and> 0 < lo) key_table"
    by (simp add: key_table_def defaultPatterns_def is_word_char_def)
  then show ?thesis using assms by (auto simp: list_all_iff)
qed

lemma default_secret:
  assumes "api_key w \<or> jwt w \<or> email w"
  obtains r where "Regexp r \<in> set defaultPatterns" "proper r" "secret r w" "plain w"
  using assms
proof (elim disjE)
  assume "api_key w"
  then obtain pre cls lo hi body where k: "(pre, cls, lo, hi) \<in> set key_table" "w = pre @ body" "list_all cls body"
    "lo \<le> length body" "\<forall>h. hi = Some h \<longrightarrow> length body \<le> h" "is_word_char (last body)"
    unfolding api_key_def by blast
  note kp = key_pattern [OF k(1)]
  show thesis
    by (rule that [of "key_re pre cls lo hi"])
      (use k kp in \<open>auto intro: secret_key proper_patterns key_plain\<close>)
next
  assume w: "jwt w"
  then obtain h b s where "w = ''eyJ'' @ h @ ''.'' @ b @ ''.'' @ s" "list_all tok_char (h @ b @ s)" by (auto simp: jwt_def)
  then have "plain w"
    using class_no_bracket by (intro plainI [of _ "CHR ''y''"]) (auto simp: list_all_iff Mask_def)
  then show thesis using that [of jwt_re] w by (simp add: defaultPatterns_def proper_patterns secret_jwt)
next
  assume w: "email w"
  then obtain l d t where "w = l @ ''@'' @ d @ ''.'' @ t" "list_all mail_char l" "list_all host_char d" "list_all letter t"
    by (auto simp: email_def)
  then have "plain w"
    using class_no_bracket by (intro plainI [of _ "CHR ''@''"]) (auto simp: list_all_iff Mask_def)
  then show thesis using that [of email_re] w by (simp add: defaultPatterns_def proper_patterns secret_email)
qed

subsection \<open>The Luhn check\<close>

text \<open>The contribution of a digit, and the checksum as a sum over positions from the right.\<close>

definition luhn_digit :: "bool \<Rightarrow> nat \<Rightarrow> nat" where
  "luhn_digit alt n = (if alt then (if n * 2 > 9 then n * 2 - 9 else n * 2) else n)"

definition luhn_sum :: "bytes \<Rightarrow> nat" where
  "luhn_sum s = (\<Sum>i < length s. luhn_digit (odd i) (byte_digit (rev s ! i)))"

lemma luhn_loop_sum:
  "luhn_loop alt acc ds = acc + (\<Sum>i < length ds. luhn_digit (odd i \<noteq> alt) (byte_digit (ds ! i)))"
proof (induction ds arbitrary: alt acc)
  case (Cons d ds)
  have "luhn_loop alt acc (d # ds) = luhn_loop (\<not> alt) (acc + luhn_digit alt (byte_digit d)) ds"
    by (simp add: luhn_digit_def Let_def)
  also have "\<dots> = acc + (luhn_digit alt (byte_digit d) + (\<Sum>i < length ds. luhn_digit (odd (Suc i) \<noteq> alt) (byte_digit ((d # ds) ! Suc i))))"
    unfolding Cons.IH by simp
  also have "\<dots> = acc + (\<Sum>i < length (d # ds). luhn_digit (odd i \<noteq> alt) (byte_digit ((d # ds) ! i)))"
    unfolding length_Cons sum.lessThan_Suc_shift by simp
  finally show ?case .
qed simp

lemma luhn_iff_sum: "luhn s \<longleftrightarrow> luhn_sum s mod 10 = 0"
  by (simp add: luhn_def luhn_sum_def luhn_loop_sum)

lemma byte_digit_less: "digit c \<Longrightarrow> byte_digit c < 10 \<and> byte_digit c = of_char c - 48"
proof -
  assume "digit c"
  then have "48 \<le> (of_char c :: nat)" "(of_char c :: nat) \<le> 57" by (auto simp: digit_def in_range_def)
  then obtain k where k: "(of_char c :: nat) = 48 + k" "k \<le> 9" using le_Suc_ex by fastforce
  then show ?thesis by (simp add: byte_digit_def)
qed

lemma luhn_digit_inj: "m < 10 \<Longrightarrow> n < 10 \<Longrightarrow> luhn_digit alt m = luhn_digit alt n \<Longrightarrow> m = n"
  unfolding luhn_digit_def by (auto split: if_splits) presburger+

lemma luhn_digit_less: "n < 10 \<Longrightarrow> luhn_digit alt n < 10"
  by (auto simp: luhn_digit_def)

lemma luhn_sum_update:
  assumes "i < length s"
  shows "luhn_sum (s[i := d]) + luhn_digit (odd (length s - Suc i)) (byte_digit (s ! i)) =
         luhn_sum s + luhn_digit (odd (length s - Suc i)) (byte_digit d)"
proof -
  let ?j = "length s - Suc i" and ?f = "\<lambda>s i. luhn_digit (odd i) (byte_digit (rev s ! i))"
  have j: "?j < length s" using assms by simp
  have rest: "(\<Sum>k \<in> {..<length s} - {?j}. ?f (s[i := d]) k) = (\<Sum>k \<in> {..<length s} - {?j}. ?f s k)"
    using assms by (intro sum.cong) (auto simp: rev_update nth_list_update)
  have at: "rev s ! ?j = s ! i" "rev (s[i := d]) ! ?j = d" using assms by (simp_all add: rev_nth)
  have "luhn_sum s = ?f s ?j + (\<Sum>k \<in> {..<length s} - {?j}. ?f s k)"
    unfolding luhn_sum_def using j by (intro sum.remove) auto
  moreover have "luhn_sum (s[i := d]) = ?f (s[i := d]) ?j + (\<Sum>k \<in> {..<length s} - {?j}. ?f (s[i := d]) k)"
    unfolding luhn_sum_def length_list_update using j by (intro sum.remove) auto
  ultimately show ?thesis using rest at by simp
qed

lemma delimited_iff:
  "delimited w s \<longleftrightarrow>
     list_all (\<lambda>i. take (length w) (drop i s) = w \<longrightarrow>
       \<not> word_before (prev_byte None (take i s)) \<and> \<not> word_after (drop (i + length w) s)) [0..<Suc (length s)]"
    (is "_ = ?R")
proof
  assume d: "delimited w s"
  have "s = take i s @ w @ drop (i + length w) s" if "take (length w) (drop i s) = w" for i
    using that by (metis add.commute append_take_drop_id drop_drop)
  then show ?R using d unfolding delimited_def list_all_iff by metis
next
  assume r: ?R
  show "delimited w s"
    unfolding delimited_def
  proof (intro allI impI)
    fix a b
    assume s: "s = a @ w @ b"
    then have "length a \<in> set [0..<Suc (length s)]" by simp
    with r have "take (length w) (drop (length a) s) = w \<longrightarrow>
        \<not> word_before (prev_byte None (take (length a) s)) \<and> \<not> word_after (drop (length a + length w) s)"
      unfolding list_all_iff by blast
    then show "\<not> word_before (prev_byte None a) \<and> \<not> word_after b" using s by simp
  qed
qed

definition sample_key :: bytes where
  "sample_key = ''AKIA0123456789ABCDEF''"

lemma api_keyI:
  "(pre, cls, lo, hi) \<in> set key_table \<Longrightarrow> list_all cls body \<Longrightarrow> lo \<le> length body \<Longrightarrow>
   (\<forall>h. hi = Some h \<longrightarrow> length body \<le> h) \<Longrightarrow> is_word_char (last body) \<Longrightarrow> api_key (pre @ body)"
  unfolding api_key_def by blast

lemma sample_key_ok: "api_key sample_key"
proof -
  have "(''AKIA'', \<lambda>c. digit c \<or> upper c, 16, Some 16) \<in> set key_table" by (simp add: key_table_def)
  then have "api_key (''AKIA'' @ ''0123456789ABCDEF'')"
    by (rule api_keyI) (simp_all add: class_defs is_word_char_def)
  then show ?thesis by (simp add: sample_key_def)
qed

lemma sample_key_delimited: "delimited sample_key (''id='' @ sample_key @ '';'')"
  unfolding delimited_iff sample_key_def by code_simp

subsection \<open>Properties\<close>

text \<open>
  C6: Redaction is complete for standalone credentials. Take any API key of a family with a literal
  prefix, JSON web token or e-mail address, and any text in which each of its occurrences stands
  on its own, with no word character before or after it. Under the default and the strict profile
  it does not occur in the redacted text, whatever else the text contains and in whatever order
  the patterns interact.
\<close>

theorem credentials_masked:
  assumes "api_key w \<or> jwt w \<or> email w" and "delimited w s"
    and "profile = ProfileDefault \<or> profile = ProfileStrict"
  shows "\<not> sublist w (Apply s profile)"
proof -
  obtain r where r: "Regexp r \<in> set defaultPatterns" "proper r" "secret r w" "plain w"
    using default_secret [OF assms(1)] .
  have d: "\<not> sublist w (applyAll s defaultPatterns)" using applyAll_secret [OF r assms(2)] .
  then have "\<not> sublist w (applyAll (applyAll s defaultPatterns) strictPatterns)"
    using applyAll_nothing_new [OF r(4)] by blast
  with d assms(3) show ?thesis by (auto simp: Apply_def ProfileDefault_def ProfileStrict_def ProfileOff_def)
qed

theorem credentials_masked_witness:
  "\<not> sublist sample_key (Apply (''id='' @ sample_key @ '';'') ProfileStrict)"
  by (rule credentials_masked [OF _ sample_key_delimited]) (simp_all add: sample_key_ok)

text \<open>
  Redaction only removes. Under every profile, text without brackets found in the output was in
  the input already, unless it is a part of the mask; \<open>off\<close>, the empty and unknown profiles change nothing.
\<close>

lemma redaction_only_masks:
  "(plain w \<longrightarrow> sublist w (Apply s profile) \<longrightarrow> sublist w s)
   \<and> (profile \<noteq> ProfileDefault \<and> profile \<noteq> ProfileStrict \<longrightarrow> Apply s profile = s)"
proof (intro conjI impI)
  assume w: "plain w" and out: "sublist w (Apply s profile)"
  have "Apply s profile = s \<or> (\<exists>s' pats. Apply s profile = applyAll s' pats \<and> (s' = s \<or> s' = applyAll s defaultPatterns))"
    unfolding Apply_def by (simp only: split: if_split) blast
  then show "sublist w s"
  proof (elim disjE exE conjE)
    fix s' pats
    assume a: "Apply s profile = applyAll s' pats" and s': "s' = applyAll s defaultPatterns"
    have "sublist w s'" using out unfolding a by (rule applyAll_nothing_new [OF w])
    then show ?thesis unfolding s' by (rule applyAll_nothing_new [OF w])
  qed (use out applyAll_nothing_new [OF w] in auto)
qed (simp add: Apply_def)

text \<open>
  C40: The Luhn check is the checksum over digit positions counted from the right, every second one
  doubled with its digits added, and it detects every error in a single digit: a valid number
  with one digit changed is not valid.
\<close>

theorem luhn_detects_single_error:
  assumes "list_all digit s" and "luhn s" and "i < length s" and "digit d" and "d \<noteq> s ! i"
  shows "(\<Sum>i < length s. luhn_digit (odd i) (of_char (rev s ! i) - 48)) mod 10 = 0 \<and> \<not> luhn (s[i := d])"
proof
  have "digit (rev s ! k)" if "k < length s" for k
    using assms(1) that by (simp add: rev_nth list_all_length)
  then have "luhn_sum s = (\<Sum>i < length s. luhn_digit (odd i) (of_char (rev s ! i) - 48))"
    unfolding luhn_sum_def using byte_digit_less by (intro sum.cong) auto
  then show "(\<Sum>i < length s. luhn_digit (odd i) (of_char (rev s ! i) - 48)) mod 10 = 0"
    using assms(2) luhn_iff_sum by simp
  let ?l = "luhn_digit (odd (length s - Suc i))"
  have old: "digit (s ! i)" using assms(1,3) by (simp add: list_all_length)
  have "byte_digit d \<noteq> byte_digit (s ! i)"
    using byte_digit_less [OF old] byte_digit_less [OF assms(4)] old assms(4,5)
    by (metis digit_def in_range_def le_add_diff_inverse of_char_eq_iff)
  then have "?l (byte_digit d) \<noteq> ?l (byte_digit (s ! i))"
    using byte_digit_less [OF old] byte_digit_less [OF assms(4)] luhn_digit_inj by blast
  moreover have "?l (byte_digit d) < 10" "?l (byte_digit (s ! i)) < 10"
    using byte_digit_less [OF old] byte_digit_less [OF assms(4)] luhn_digit_less by auto
  ultimately show "\<not> luhn (s[i := d])"
    using luhn_sum_update [OF assms(3), of d] assms(2) unfolding luhn_iff_sum by presburger
qed

theorem luhn_detects_single_error_witness: "\<not> luhn ''4111111111111112''"
proof -
  have "luhn ''4111111111111111''" by code_simp
  then show ?thesis
    using luhn_detects_single_error [of "''4111111111111111''" 15 "CHR ''2''"] by (simp add: class_defs)
qed

end
