(* ===== verification/Genai.thy ===== *)
theory Genai
  imports Go_Strings
begin

text \<open>
  The attribute keys and span names of \<open>internal/genai\<close>, and what the program does to an
  OpenTelemetry span: the span itself belongs to the tracing library, so the model is the list
  of calls made on it, in order. \<open>'f\<close> stands for \<open>float64\<close>.
\<close>

definition AttrSystem :: bytes where "AttrSystem = ''gen_ai.system''"
definition AttrOperationName :: bytes where "AttrOperationName = ''gen_ai.operation.name''"
definition AttrRequestModel :: bytes where "AttrRequestModel = ''gen_ai.request.model''"
definition AttrRequestTemperature :: bytes where "AttrRequestTemperature = ''gen_ai.request.temperature''"
definition AttrRequestTopP :: bytes where "AttrRequestTopP = ''gen_ai.request.top_p''"
definition AttrRequestTopK :: bytes where "AttrRequestTopK = ''gen_ai.request.top_k''"
definition AttrRequestMaxTokens :: bytes where "AttrRequestMaxTokens = ''gen_ai.request.max_tokens''"
definition AttrRequestFrequencyPen :: bytes where
  "AttrRequestFrequencyPen = ''gen_ai.request.frequency_penalty''"
definition AttrRequestPresencePen :: bytes where
  "AttrRequestPresencePen = ''gen_ai.request.presence_penalty''"
definition AttrRequestSeed :: bytes where "AttrRequestSeed = ''gen_ai.request.seed''"
definition AttrRequestStopSequences :: bytes where
  "AttrRequestStopSequences = ''gen_ai.request.stop_sequences''"
definition AttrRequestEncodingFmts :: bytes where
  "AttrRequestEncodingFmts = ''gen_ai.request.encoding_formats''"
definition AttrResponseID :: bytes where "AttrResponseID = ''gen_ai.response.id''"
definition AttrResponseModel :: bytes where "AttrResponseModel = ''gen_ai.response.model''"
definition AttrResponseFinishReasons :: bytes where
  "AttrResponseFinishReasons = ''gen_ai.response.finish_reasons''"
definition AttrUsageInputTokens :: bytes where "AttrUsageInputTokens = ''gen_ai.usage.input_tokens''"
definition AttrUsageOutputTokens :: bytes where "AttrUsageOutputTokens = ''gen_ai.usage.output_tokens''"

definition AttrCostUSD :: bytes where "AttrCostUSD = ''gen_ai.cost.usd''"
definition AttrTimeToFirstToken :: bytes where "AttrTimeToFirstToken = ''gen_ai.time_to_first_token''"
definition AttrStream :: bytes where "AttrStream = ''gen_ai.request.stream''"

definition SystemOpenAI :: bytes where "SystemOpenAI = ''openai''"
definition SystemAnthropic :: bytes where "SystemAnthropic = ''anthropic''"

definition OpChat :: bytes where "OpChat = ''chat''"
definition OpEmbeddings :: bytes where "OpEmbeddings = ''embeddings''"

definition EventSystemMessage :: bytes where "EventSystemMessage = ''gen_ai.system.message''"
definition EventUserMessage :: bytes where "EventUserMessage = ''gen_ai.user.message''"
definition EventAssistantMessage :: bytes where "EventAssistantMessage = ''gen_ai.assistant.message''"
definition EventToolMessage :: bytes where "EventToolMessage = ''gen_ai.tool.message''"
definition EventChoice :: bytes where "EventChoice = ''gen_ai.choice''"

definition MetricTokenUsage :: bytes where "MetricTokenUsage = ''gen_ai.client.token.usage''"
definition MetricOperationDuration :: bytes where
  "MetricOperationDuration = ''gen_ai.client.operation.duration''"
definition MetricTimeToFirstToken :: bytes where
  "MetricTimeToFirstToken = ''gen_ai.client.time_to_first_token''"
definition MetricCostUSD :: bytes where "MetricCostUSD = ''gen_ai.client.cost.usd''"
definition MetricCostUSDTotal :: bytes where "MetricCostUSDTotal = ''gen_ai.client.cost.usd.total''"

definition TokenTypeInput :: bytes where "TokenTypeInput = ''input''"
definition TokenTypeOutput :: bytes where "TokenTypeOutput = ''output''"

definition SpanName :: "bytes \<Rightarrow> bytes \<Rightarrow> bytes" where
  "SpanName op model = (if model = [] then op else op @ '' '' @ model)"

datatype 'f attr_value = AString bytes | ABool bool | AInt int | AFloat 'f | AStrings "bytes list"

type_synonym 'f attr = "bytes \<times> 'f attr_value"

datatype 'f span_op =
    SetAttributes "'f attr list"
  | SetName bytes
  | AddEvent bytes "'f attr list"

end
