(* ===== verification/SSE.thy ===== *)
theory SSE
  imports Go_Strings Once
begin

text \<open>
  The tee of \<open>src/internal/provider/sse.go\<close>: it forwards the upstream's bytes and parses
  server-sent events on the side. \<open>sseTee\<close> is the Go struct; its callbacks become a log of the
  calls made, in order. A call of the wrapped reader is an argument: the bytes it put into \<open>p\<close>
  and whether it returned an error (which includes \<open>io.EOF\<close>).
\<close>

subsection \<open>Frames and lines\<close>

definition LF :: char where "LF = CHR 0x0A"
definition CR :: char where "CR = CHR 0x0D"

definition maxEventBytes :: nat where
  "maxEventBytes = 1024 * 1024"

definition frame_seps :: "bytes list" where
  "frame_seps = [[CR, LF, CR, LF], [LF, LF], [CR, CR]]"

definition boundary_step :: "bytes \<Rightarrow> (nat \<times> nat) option \<Rightarrow> bytes \<Rightarrow> (nat \<times> nat) option" where
  "boundary_step raw best sep =
     (case index_of sep raw of
        None \<Rightarrow> best
      | Some i \<Rightarrow>
          (case best of
             None \<Rightarrow> Some (i, length sep)
           | Some (bestIdx, _) \<Rightarrow> if i < bestIdx then Some (i, length sep) else best))"

definition findFrameBoundary :: "bytes \<Rightarrow> (nat \<times> nat) option" where
  "findFrameBoundary raw = foldl (boundary_step raw) None frame_seps"

text \<open>The loop of \<open>splitSSELines\<close>; \<open>cur\<close> is \<open>msg[start:i]\<close>.\<close>

fun split_lines :: "bytes \<Rightarrow> bytes \<Rightarrow> bytes list" where
  "split_lines cur [] = (if cur = [] then [] else [cur])"
| "split_lines cur (c # cs) =
     (if c \<noteq> LF \<and> c \<noteq> CR then split_lines (cur @ [c]) cs
      else if c = CR then
        (case cs of
           [] \<Rightarrow> cur # split_lines [] []
         | d # ds \<Rightarrow> if d = LF then cur # split_lines [] ds else cur # split_lines [] (d # ds))
      else cur # split_lines [] cs)"

definition splitSSELines :: "bytes \<Rightarrow> bytes list" where
  "splitSSELines msg = split_lines [] msg"

subsection \<open>The tee\<close>

datatype sse_call = OnEvent bytes bytes | OnOverflow | OnClose

record sseTee =
  buf :: bytes
  overflows :: nat
  has_onOverflow :: bool
  once_done :: bool
  calls_log :: "sse_call list"

definition newSSETee :: "bool \<Rightarrow> sseTee" where
  "newSSETee ov = \<lparr>buf = [], overflows = 0, has_onOverflow = ov, once_done = False, calls_log = []\<rparr>"

definition dispatch_line :: "bytes \<times> bytes \<Rightarrow> bytes \<Rightarrow> bytes \<times> bytes" where
  "dispatch_line ed line =
     (let (event, data) = ed in
      if length line = 0 \<or> has_prefix line '':'' then (event, data)
      else if has_prefix line ''event:'' then (trim_space (drop 6 line), data)
      else if has_prefix line ''data:'' then (event, data @ trim_space (drop 5 line))
      else (event, data))"

definition parse_msg :: "bytes \<Rightarrow> bytes \<times> bytes" where
  "parse_msg msg = foldl dispatch_line ([], []) (splitSSELines msg)"

definition log_call :: "sse_call \<Rightarrow> sseTee \<Rightarrow> sseTee" where
  "log_call c t = t\<lparr>calls_log := calls_log t @ [c]\<rparr>"

definition dispatch :: "bytes \<Rightarrow> sseTee \<Rightarrow> sseTee" where
  "dispatch msg t =
     (let (event, data) = parse_msg msg in
      if length data = 0 \<and> event = [] then t else log_call (OnEvent event data) t)"

lemma dispatch_frame [simp]:
  "buf (dispatch m t) = buf t" "overflows (dispatch m t) = overflows t"
  "once_done (dispatch m t) = once_done t" "has_onOverflow (dispatch m t) = has_onOverflow t"
  by (simp_all add: dispatch_def log_call_def split: prod.split)

lemma findFrameBoundary_progress:
  "findFrameBoundary raw = Some (i, l) \<Longrightarrow> 0 < l \<and> i + l \<le> length raw"
proof -
  have step: "best = Some (i, l) \<longrightarrow> 0 < l \<and> i + l \<le> length raw \<Longrightarrow> sep \<in> set frame_seps \<Longrightarrow>
     boundary_step raw best sep = Some (i, l) \<Longrightarrow> 0 < l \<and> i + l \<le> length raw" for best sep i l
    by (auto simp: boundary_step_def frame_seps_def dest!: index_of_Some split: option.splits if_splits)
  have "\<forall>i l. foldl (boundary_step raw) None frame_seps = Some (i, l) \<longrightarrow> 0 < l \<and> i + l \<le> length raw"
    by (rule foldl_invariant) (use step in blast)+
  then show "findFrameBoundary raw = Some (i, l) \<Longrightarrow> ?thesis"
    by (simp add: findFrameBoundary_def)
qed

text \<open>The loop of \<open>drain\<close> consumes at least the terminator each turn.\<close>

function drain :: "bool \<Rightarrow> sseTee \<Rightarrow> sseTee" where
  "drain eof t =
     (case findFrameBoundary (buf t) of
        None \<Rightarrow>
          (if \<not> eof \<or> length (buf t) = 0 then t else dispatch (buf t) (t\<lparr>buf := []\<rparr>))
      | Some (idx, sep) \<Rightarrow>
          drain eof (dispatch (take idx (buf t)) (t\<lparr>buf := drop (idx + sep) (buf t)\<rparr>)))"
  by pat_completeness auto
termination
  by (relation "measure (\<lambda>(eof, t). length (buf t))") (auto dest: findFrameBoundary_progress)

declare drain.simps [simp del]

definition do_once :: "sseTee \<Rightarrow> sseTee" where
  "do_once t = (if once_done t then t else log_call OnClose (t\<lparr>once_done := True\<rparr>))"

definition sse_Read :: "bytes \<Rightarrow> bool \<Rightarrow> sseTee \<Rightarrow> (bytes \<times> bool) \<times> sseTee" where
  "sse_Read chunk err t =
     (let t = (if length chunk > 0 then
                 (let t = t\<lparr>buf := buf t @ chunk\<rparr> in
                  if length (buf t) > maxEventBytes then
                    (let t = t\<lparr>buf := [], overflows := overflows t + 1\<rparr> in
                     if has_onOverflow t then log_call OnOverflow t else t)
                  else drain False t)
               else t);
          t = (if err then do_once (drain True t) else t)
      in ((chunk, err), t))"

definition sse_Close :: "sseTee \<Rightarrow> sseTee" where
  "sse_Close t = do_once t"

datatype sse_op = Read bytes bool | Close

fun sse_step :: "sseTee \<Rightarrow> sse_op \<Rightarrow> sseTee" where
  "sse_step t (Read chunk err) = snd (sse_Read chunk err t)"
| "sse_step t Close = sse_Close t"

definition sse_run :: "sseTee \<Rightarrow> sse_op list \<Rightarrow> sseTee" where
  "sse_run t ops = foldl sse_step t ops"

subsection \<open>The first boundary\<close>

text \<open>
  Reference definition: scan for the first position at which one of the three terminators
  starts. No two of them start at the same position.
\<close>

fun first_boundary :: "bytes \<Rightarrow> (nat \<times> nat) option" where
  "first_boundary [] = None"
| "first_boundary (c # s) =
     (if prefix [CR, LF, CR, LF] (c # s) then Some (0, 4)
      else if prefix [LF, LF] (c # s) \<or> prefix [CR, CR] (c # s) then Some (0, 2)
      else map_option (\<lambda>(i, l). (Suc i, l)) (first_boundary s))"

lemma CR_LF [simp]: "CR \<noteq> LF" "LF \<noteq> CR"
  by (simp_all add: CR_def LF_def)

lemma findFrameBoundary_eq: "findFrameBoundary raw = first_boundary raw"
proof (induction raw)
  case Nil
  then show ?case by (simp add: findFrameBoundary_def frame_seps_def boundary_step_def)
next
  case (Cons c s)
  have "map_option (\<lambda>(i, l). (Suc i, l)) (findFrameBoundary s) = findFrameBoundary (c # s)"
    if "\<forall>sep \<in> set frame_seps. \<not> prefix sep (c # s)"
    using that by (simp add: findFrameBoundary_def frame_seps_def boundary_step_def split: option.split)
  then show ?case
    using Cons
    by (auto simp: findFrameBoundary_def frame_seps_def boundary_step_def split: option.splits)
qed

lemma first_boundary_append:
  "first_boundary xs = Some r \<Longrightarrow> first_boundary (xs @ ys) = Some r"
proof (induction xs arbitrary: r)
  case (Cons c cs)
  have short: "first_boundary cs = None"
    if "\<not> prefix sep (c # cs)" "prefix sep (c # cs @ ys)" "sep \<in> set frame_seps" for sep
  proof -
    have "strict_prefix (c # cs) sep"
      using that by (metis Cons_eq_appendI prefixI prefix_order.le_less prefix_same_cases)
    then have "c # cs \<in> {[CR], [CR, LF], [CR, LF, CR], [LF]}"
      using that(3) by (auto simp: frame_seps_def strict_prefix_def prefix_Cons)
    then show ?thesis by auto
  qed
  show ?case
  proof (cases "first_boundary cs")
    case None
    then show ?thesis using Cons.prems by (cases cs) (auto split: if_splits)
  next
    case (Some r')
    then have same: "prefix sep (c # cs @ ys) \<longleftrightarrow> prefix sep (c # cs)" if "sep \<in> set frame_seps" for sep
      using short [of sep] that by (metis append_Cons option.distinct(1) prefix_prefix)
    have "prefix [CR, LF, CR, LF] (c # cs @ ys) = prefix [CR, LF, CR, LF] (c # cs)"
      "prefix [LF, LF] (c # cs @ ys) = prefix [LF, LF] (c # cs)"
      "prefix [CR, CR] (c # cs @ ys) = prefix [CR, CR] (c # cs)"
      by (rule same, simp add: frame_seps_def)+
    then show ?thesis
      using Cons.prems Cons.IH [OF Some] Some by (simp only: append_Cons first_boundary.simps)
  qed
qed simp

text \<open>Parsing can be resumed: draining early and appending later is draining the whole.\<close>

lemma buf_update_commute:
  "dispatch m (t\<lparr>buf := b\<rparr>) = (dispatch m t)\<lparr>buf := b\<rparr>"
  by (simp add: dispatch_def log_call_def split: prod.split)

lemma drain_append:
  "drain eof (t\<lparr>buf := buf t @ rest\<rparr>) =
   drain eof ((drain False t)\<lparr>buf := buf (drain False t) @ rest\<rparr>)"
proof (induction "False" t rule: drain.induct)
  case (1 t)
  show ?case
  proof (cases "findFrameBoundary (buf t)")
    case None
    then have "drain False t = t" by (simp add: drain.simps)
    then show ?thesis by simp
  next
    case (Some r)
    obtain i l where r: "r = (i, l)" by (cases r)
    let ?t' = "dispatch (take i (buf t)) (t\<lparr>buf := drop (i + l) (buf t)\<rparr>)"
    have fb: "findFrameBoundary (buf t @ rest) = Some (i, l)"
      using Some r by (simp add: findFrameBoundary_eq first_boundary_append)
    have le: "i + l \<le> length (buf t)" using findFrameBoundary_progress Some r by blast
    have "drain eof (t\<lparr>buf := buf t @ rest\<rparr>) = drain eof (?t'\<lparr>buf := buf ?t' @ rest\<rparr>)"
      using fb le by (subst drain.simps) (simp add: buf_update_commute)
    also have "\<dots> = drain eof ((drain False ?t')\<lparr>buf := buf (drain False ?t') @ rest\<rparr>)"
      using "1" Some r by simp
    also have "drain False ?t' = drain False t"
      using Some r by (subst (2) drain.simps) simp
    finally show ?thesis .
  qed
qed

lemma drain_frame_conj:
  "overflows (drain eof t) = overflows t \<and> once_done (drain eof t) = once_done t
   \<and> has_onOverflow (drain eof t) = has_onOverflow t"
proof (induction eof t rule: drain.induct)
  case (1 eof t)
  then show ?case by (subst (1 2 3) drain.simps) (auto split: option.split)
qed

lemma drain_frame [simp]:
  "overflows (drain eof t) = overflows t" "once_done (drain eof t) = once_done t"
  "has_onOverflow (drain eof t) = has_onOverflow t"
  using drain_frame_conj by simp_all

lemma drain_buf_length: "length (buf (drain eof t)) \<le> length (buf t)"
proof (induction eof t rule: drain.induct)
  case (1 eof t)
  then show ?case by (subst drain.simps) (force split: option.split)
qed

lemma drain_True_empty: "buf (drain True t) = []"
proof (induction True t rule: drain.induct)
  case (1 t)
  then show ?case by (subst drain.simps) (auto split: option.split)
qed

lemma drain_False_no_frame: "findFrameBoundary (buf (drain False t)) = None"
proof (induction False t rule: drain.induct)
  case (1 t)
  then show ?case
    by (cases "findFrameBoundary (buf t)") (auto simp: drain.simps [of False t])
qed

subsection \<open>The events of a stream\<close>

text \<open>
  What a byte stream means: its frames are what lies between terminators (plus a non-empty
  rest), and each frame gives at most one event.
\<close>

function sse_frames :: "bytes \<Rightarrow> bytes list" where
  "sse_frames s =
     (case first_boundary s of
        None \<Rightarrow> if s = [] then [] else [s]
      | Some (i, l) \<Rightarrow> take i s # sse_frames (drop (i + l) s))"
  by pat_completeness auto
termination
  by (relation "measure length")
     (auto dest!: findFrameBoundary_progress [unfolded findFrameBoundary_eq])

declare sse_frames.simps [simp del]

definition frame_calls :: "bytes \<Rightarrow> sse_call list" where
  "frame_calls m =
     (let (event, data) = parse_msg m in if data = [] \<and> event = [] then [] else [OnEvent event data])"

definition stream_calls :: "bytes \<Rightarrow> sse_call list" where
  "stream_calls s = concat (map frame_calls (sse_frames s))"

lemma dispatch_log: "calls_log (dispatch m t) = calls_log t @ frame_calls m"
  by (simp add: dispatch_def frame_calls_def log_call_def split: prod.split)

lemma drain_True_log: "calls_log (drain True t) = calls_log t @ stream_calls (buf t)"
proof (induction True t rule: drain.induct)
  case (1 t)
  show ?case
  proof (cases "findFrameBoundary (buf t)")
    case None
    then have "sse_frames (buf t) = (if buf t = [] then [] else [buf t])"
      by (subst sse_frames.simps) (simp add: findFrameBoundary_eq)
    with None show ?thesis
      by (subst drain.simps) (simp add: dispatch_log stream_calls_def)
  next
    case (Some r)
    then show ?thesis
      using "1" [OF Some]
      by (subst drain.simps, cases r)
         (simp add: dispatch_log stream_calls_def findFrameBoundary_eq sse_frames.simps [of "buf t"])
  qed
qed

lemma drain_no_close: "count_list (calls_log (drain eof t)) OnClose = count_list (calls_log t) OnClose"
proof (induction eof t rule: drain.induct)
  case (1 eof t)
  have d: "count_list (calls_log (dispatch m u)) OnClose = count_list (calls_log u) OnClose" for m u
    by (simp add: dispatch_def log_call_def split: prod.split)
  with "1" show ?case by (subst drain.simps) (auto split: option.split)
qed

text \<open>Reading chunk by chunk without overflow keeps the parse of the whole within reach.\<close>

lemma sse_read_plain:
  assumes "overflows (snd (sse_Read c False t)) = overflows t"
  shows "drain eof (t\<lparr>buf := buf t @ c @ rest\<rparr>) =
     drain eof ((snd (sse_Read c False t))\<lparr>buf := buf (snd (sse_Read c False t)) @ rest\<rparr>)"
proof (cases "c = []")
  case True
  then show ?thesis by (simp add: sse_Read_def)
next
  case False
  with assms have "snd (sse_Read c False t) = drain False (t\<lparr>buf := buf t @ c\<rparr>)"
    by (auto simp: sse_Read_def log_call_def Let_def split: if_splits)
  then show ?thesis using drain_append [of eof "t\<lparr>buf := buf t @ c\<rparr>" rest] by simp
qed

lemma sse_step_overflows_mono: "overflows t \<le> overflows (sse_step t x)"
  by (cases x) (auto simp: sse_Read_def sse_Close_def do_once_def log_call_def Let_def)

lemma sse_run_overflows_mono: "overflows t \<le> overflows (sse_run t xs)"
  unfolding sse_run_def
  by (induction xs arbitrary: t) (auto intro: order_trans [OF sse_step_overflows_mono])

lemma sse_reads_plain:
  "overflows (sse_run t (map (\<lambda>c. Read c False) cs)) = overflows t \<Longrightarrow>
   drain eof (t\<lparr>buf := buf t @ concat cs @ rest\<rparr>) =
   drain eof ((sse_run t (map (\<lambda>c. Read c False) cs))
     \<lparr>buf := buf (sse_run t (map (\<lambda>c. Read c False) cs)) @ rest\<rparr>)"
proof (induction cs arbitrary: t)
  case (Cons c cs)
  let ?t = "snd (sse_Read c False t)"
  have run: "sse_run t (map (\<lambda>c. Read c False) (c # cs)) = sse_run ?t (map (\<lambda>c. Read c False) cs)"
    by (simp add: sse_run_def)
  have fin: "overflows (sse_run ?t (map (\<lambda>c. Read c False) cs)) = overflows t"
    using Cons.prems by (simp only: run)
  then have ov: "overflows ?t = overflows t"
    using sse_step_overflows_mono [of t "Read c False"]
      sse_run_overflows_mono [of ?t "map (\<lambda>c. Read c False) cs"] by simp
  have "drain eof (t\<lparr>buf := buf t @ c @ concat cs @ rest\<rparr>) =
    drain eof (?t\<lparr>buf := buf ?t @ concat cs @ rest\<rparr>)"
    using ov by (rule sse_read_plain)
  also have "\<dots> = drain eof ((sse_run ?t (map (\<lambda>c. Read c False) cs))
     \<lparr>buf := buf (sse_run ?t (map (\<lambda>c. Read c False) cs)) @ rest\<rparr>)"
    using fin ov by (intro Cons.IH) simp
  finally show ?case by (simp only: run concat.simps append_assoc)
qed (simp add: sse_run_def)

subsection \<open>When nothing overflows\<close>

text \<open>
  What draining leaves of a buffer, and a bound on it that does not depend on how the bytes were
  read: all but at most three bytes of it belong to one frame of the stream.
\<close>

function rest_of :: "bytes \<Rightarrow> bytes" where
  "rest_of s = (case first_boundary s of None \<Rightarrow> s | Some (i, l) \<Rightarrow> rest_of (drop (i + l) s))"
  by pat_completeness auto
termination
  by (relation "measure length")
     (auto dest!: findFrameBoundary_progress [unfolded findFrameBoundary_eq])

declare rest_of.simps [simp del]

lemma buf_drain_False: "buf (drain False t) = rest_of (buf t)"
proof (induction False t rule: drain.induct)
  case (1 t)
  then show ?case
    by (subst drain.simps, subst rest_of.simps) (auto simp: findFrameBoundary_eq split: option.split)
qed

lemma rest_of_append: "rest_of (rest_of p @ c) = rest_of (p @ c)"
proof (induction p rule: rest_of.induct)
  case (1 p)
  show ?case
  proof (cases "first_boundary p")
    case None
    then show ?thesis by (subst (2) rest_of.simps) simp
  next
    case (Some r)
    obtain i l where r: "r = (i, l)" by (cases r)
    have "i + l \<le> length p" using findFrameBoundary_progress Some r by (metis findFrameBoundary_eq)
    then have "rest_of (p @ c) = rest_of (drop (i + l) p @ c)"
      using first_boundary_append [OF Some, of c] r by (subst rest_of.simps) simp
    moreover have "rest_of p = rest_of (drop (i + l) p)"
      using Some r by (subst rest_of.simps) simp
    ultimately show ?thesis using "1" [OF Some r [symmetric]] r by simp
  qed
qed

lemma boundary_inside:
  "first_boundary (x @ y) = Some (i, l) \<Longrightarrow> i + l \<le> length x \<Longrightarrow> first_boundary x \<noteq> None"
proof (induction x arbitrary: i)
  case (Cons c x)
  have cut: "prefix sep (c # x)" if "prefix sep (c # x @ y)" "length sep \<le> length (c # x)" for sep
    using that by (metis append_Cons prefix_length_prefix prefixI)
  show ?case
  proof (cases i)
    case 0
    then have "\<exists>sep \<in> set frame_seps. length sep = l \<and> prefix sep (c # x @ y)"
      using Cons.prems(1) by (auto simp: frame_seps_def split: if_splits)
    then obtain sep where "sep \<in> set frame_seps" "prefix sep (c # x)"
      using cut Cons.prems(2) 0 by auto
    then show ?thesis by (auto simp: frame_seps_def)
  next
    case (Suc j)
    then have "first_boundary (x @ y) = Some (j, l)" using Cons.prems(1) by (auto split: if_splits)
    then have "first_boundary x \<noteq> None" using Cons.IH [of j] Cons.prems(2) Suc by simp
    then show ?thesis by (cases "first_boundary x") auto
  qed
qed (auto dest: findFrameBoundary_progress [unfolded findFrameBoundary_eq])

lemma first_boundary_sep: "first_boundary s = Some (i, l) \<Longrightarrow> l \<le> 4"
  by (induction s arbitrary: i) (auto split: if_splits)

lemma rest_of_frame: "p @ y \<noteq> [] \<Longrightarrow> \<exists>f \<in> set (sse_frames (p @ y)). length (rest_of p) \<le> length f + 3"
proof (induction p rule: rest_of.induct)
  case (1 p)
  show ?case
  proof (cases "first_boundary p")
    case None
    then have rest: "rest_of p = p" by (subst rest_of.simps) simp
    show ?thesis
    proof (cases "first_boundary (p @ y)")
      case none: None
      then show ?thesis using "1.prems" rest by (subst sse_frames.simps) simp
    next
      case (Some r)
      obtain i l where r: "r = (i, l)" by (cases r)
      have "length p < i + l" using boundary_inside [of p y i l] Some r None by fastforce
      moreover have "i + l \<le> length (p @ y)" "l \<le> 4"
        using findFrameBoundary_progress first_boundary_sep Some r by (metis findFrameBoundary_eq)+
      ultimately have "length p \<le> length (take i (p @ y)) + 3" by (simp add: min_def)
      moreover have "take i (p @ y) \<in> set (sse_frames (p @ y))"
        using Some r by (subst sse_frames.simps) simp
      ultimately show ?thesis using rest by (intro bexI) simp_all
    qed
  next
    case (Some r)
    obtain i l where r: "r = (i, l)" by (cases r)
    have le: "i + l \<le> length p" using findFrameBoundary_progress Some r by (metis findFrameBoundary_eq)
    have frames: "sse_frames (p @ y) = take i p # sse_frames (drop (i + l) p @ y)"
      using first_boundary_append [OF Some, of y] r le by (subst sse_frames.simps) simp
    have rest: "rest_of p = rest_of (drop (i + l) p)" using Some r by (subst rest_of.simps) simp
    show ?thesis
    proof (cases "drop (i + l) p @ y = []")
      case True
      then have "rest_of p = []" by (simp add: rest rest_of.simps [of "[]"])
      then show ?thesis unfolding frames by (intro bexI [of _ "take i p"]) simp_all
    next
      case False
      then show ?thesis using "1.IH" [OF Some r [symmetric]] r by (auto simp: frames rest)
    qed
  qed
qed

lemma sse_read_fits:
  assumes "length (buf t) + length c \<le> maxEventBytes"
  shows "overflows (snd (sse_Read c err t)) = overflows t
     \<and> buf (snd (sse_Read c False t)) = (if c = [] then buf t else rest_of (buf t @ c))"
  using assms by (simp add: sse_Read_def do_once_def log_call_def Let_def buf_drain_False)

text \<open>Reads of at most \<open>n\<close> bytes do not overflow if every frame leaves room for one more read.\<close>

lemma sse_reads_fit:
  assumes "\<forall>x \<in> set cs. length x \<le> n"
    and "\<forall>f \<in> set (sse_frames (concat cs @ y)). length f + 3 + n \<le> maxEventBytes"
  shows "overflows (sse_run (newSSETee ov) (map (\<lambda>c. Read c False) cs)) = 0
     \<and> buf (sse_run (newSSETee ov) (map (\<lambda>c. Read c False) cs)) = rest_of (concat cs)"
  using assms
proof (induction cs arbitrary: y rule: rev_induct)
  case Nil
  then show ?case by (simp add: sse_run_def newSSETee_def rest_of.simps)
next
  case (snoc c cs)
  let ?t = "sse_run (newSSETee ov) (map (\<lambda>c. Read c False) cs)"
  have t: "overflows ?t = 0" "buf ?t = rest_of (concat cs)"
    using snoc.IH [of "c @ y"] snoc.prems by auto
  have run: "sse_run (newSSETee ov) (map (\<lambda>c. Read c False) (cs @ [c])) = snd (sse_Read c False ?t)"
    by (simp add: sse_run_def)
  show ?case
  proof (cases "c = []")
    case True
    then show ?thesis using t run by (simp add: sse_Read_def)
  next
    case False
    then obtain f where "f \<in> set (sse_frames (concat cs @ c @ y))" "length (rest_of (concat cs)) \<le> length f + 3"
      using rest_of_frame [of "concat cs" "c @ y"] by auto
    then have "length (buf ?t) + length c \<le> maxEventBytes" using snoc.prems t by fastforce
    from sse_read_fits [OF this, of False] False t
    show ?thesis unfolding run by (simp add: rest_of_append)
  qed
qed

lemma sse_run_fits:
  assumes "\<forall>x \<in> set (c # cs). length x \<le> n"
    and "\<forall>f \<in> set (sse_frames (concat cs @ c)). length f + 3 + n \<le> maxEventBytes"
  shows "overflows (sse_run (newSSETee ov) (map (\<lambda>c. Read c False) cs @ [Read c True])) = 0"
proof -
  let ?t = "sse_run (newSSETee ov) (map (\<lambda>c. Read c False) cs)"
  have t: "overflows ?t = 0" "buf ?t = rest_of (concat cs)"
    using sse_reads_fit [of cs n c ov] assms by auto
  have "overflows (snd (sse_Read c True ?t)) = 0"
  proof (cases "concat cs @ c = []")
    case True
    then show ?thesis using t by (simp add: sse_Read_def do_once_def log_call_def Let_def)
  next
    case False
    then obtain f where "f \<in> set (sse_frames (concat cs @ c))" "length (rest_of (concat cs)) \<le> length f + 3"
      using rest_of_frame by blast
    then have "length (buf ?t) + length c \<le> maxEventBytes" using assms t by fastforce
    then show ?thesis using sse_read_fits t by metis
  qed
  then show ?thesis by (simp add: sse_run_def)
qed

subsection \<open>The log only grows\<close>

lemma drain_log_prefix: "prefix (calls_log t) (calls_log (drain eof t))"
proof (induction eof t rule: drain.induct)
  case (1 eof t)
  have d: "prefix (calls_log u) (calls_log (dispatch m u))" for m u by (simp add: dispatch_log)
  show ?case
  proof (cases "findFrameBoundary (buf t)")
    case None
    then show ?thesis using d [of "t\<lparr>buf := []\<rparr>" "buf t"] by (subst drain.simps) simp
  next
    case (Some r)
    obtain i l where r: "r = (i, l)" by (cases r)
    have "prefix (calls_log t) (calls_log (dispatch (take i (buf t)) (t\<lparr>buf := drop (i + l) (buf t)\<rparr>)))"
      using d [of "t\<lparr>buf := drop (i + l) (buf t)\<rparr>"] by simp
    also have "prefix \<dots> (calls_log (drain eof (dispatch (take i (buf t)) (t\<lparr>buf := drop (i + l) (buf t)\<rparr>))))"
      using "1" [OF Some r [symmetric]] r by simp
    finally show ?thesis using Some r by (subst drain.simps) simp
  qed
qed

lemma sse_step_log_prefix: "prefix (calls_log t) (calls_log (sse_step t x))"
proof (cases x)
  case (Read c err)
  have o: "prefix (calls_log u) (calls_log (do_once u))" for u by (simp add: do_once_def log_call_def)
  have r: "prefix (calls_log u) (calls_log (do_once (drain True u)))" for u
    using drain_log_prefix o by (rule prefix_order.trans)
  let ?u = "t\<lparr>buf := buf t @ c\<rparr>"
  have "prefix (calls_log t) (calls_log (drain False ?u))" using drain_log_prefix [of ?u False] by simp
  with r [of "drain False ?u"] r [of t] r [of "t\<lparr>buf := [], overflows := overflows t + 1\<rparr>"]
    r [of "log_call OnOverflow (t\<lparr>buf := [], overflows := overflows t + 1\<rparr>)"]
  show ?thesis
    by (auto simp: Read sse_Read_def Let_def log_call_def
        intro: prefix_order.trans [OF _ r] prefix_order.trans [OF append_prefixD])
next
  case Close
  then show ?thesis by (simp add: sse_Close_def do_once_def log_call_def)
qed

subsection \<open>Closing\<close>

fun closing_op :: "sse_op \<Rightarrow> bool" where
  "closing_op (Read chunk err) = err"
| "closing_op Close = True"

definition close_calls :: "sseTee \<Rightarrow> nat" where
  "close_calls t = count_list (calls_log t) OnClose"

definition once_invar :: "sseTee \<Rightarrow> bool" where
  "once_invar t \<longleftrightarrow> close_calls t = (if once_done t then 1 else 0)"

lemma sse_step_close:
  "once_invar t \<Longrightarrow> once_done (sse_step t x) = (once_done t \<or> closing_op x) \<and> once_invar (sse_step t x)"
  by (cases x)
     (auto simp: once_invar_def close_calls_def sse_Read_def sse_Close_def do_once_def log_call_def
       Let_def drain_no_close)

interpretation tee_once: close_once sse_step close_calls closing_op once_invar
proof unfold_locales
  fix t x
  assume i: "once_invar t"
  show "once_invar (sse_step t x)" using sse_step_close [OF i] by simp
  have now: "once_done t \<longleftrightarrow> close_calls t \<noteq> 0"
    using i by (simp add: once_invar_def)
  have later: "close_calls (sse_step t x) = (if once_done t \<or> closing_op x then 1 else 0)"
    using sse_step_close [OF i, of x] by (simp add: once_invar_def)
  show "close_calls (sse_step t x) = (if closing_op x then 1 else 0)" if "close_calls t = 0"
    by (simp add: later now that)
  show "close_calls (sse_step t x) = 1" if "close_calls t = 1"
    by (simp add: later now that)
qed

lemma newSSETee_invar [simp]: "once_invar (newSSETee ov)" "close_calls (newSSETee ov) = 0"
  by (simp_all add: once_invar_def close_calls_def newSSETee_def)

subsection \<open>Memory\<close>

fun op_bytes :: "sse_op \<Rightarrow> nat" where
  "op_bytes (Read chunk err) = length chunk"
| "op_bytes Close = 0"

lemma sse_step_memory:
  assumes "length (buf t) \<le> maxEventBytes"
  shows "length (buf (sse_step t x)) \<le> maxEventBytes
     \<and> overflows (sse_step t x) * Suc maxEventBytes + length (buf (sse_step t x))
         \<le> overflows t * Suc maxEventBytes + length (buf t) + op_bytes x"
proof (cases x)
  case (Read c e)
  have d: "length (buf (drain f u)) \<le> length (buf u)" for f u by (rule drain_buf_length)
  show ?thesis
    using assms d [of False "t\<lparr>buf := buf t @ c\<rparr>"] d [of True t]
      d [of True "drain False (t\<lparr>buf := buf t @ c\<rparr>)"]
    by (auto simp: Read sse_Read_def do_once_def log_call_def Let_def drain_True_empty)
next
  case Close
  with assms show ?thesis by (simp add: sse_Close_def do_once_def log_call_def)
qed

lemma sse_run_memory:
  "length (buf t) \<le> maxEventBytes \<Longrightarrow>
   length (buf (sse_run t xs)) \<le> maxEventBytes
   \<and> overflows (sse_run t xs) * Suc maxEventBytes + length (buf (sse_run t xs))
       \<le> overflows t * Suc maxEventBytes + length (buf t) + sum_list (map op_bytes xs)"
proof (induction xs arbitrary: t)
  case (Cons x xs)
  from sse_step_memory [OF Cons.prems, of x] Cons.IH [of "sse_step t x"]
  show ?case by (simp add: sse_run_def)
qed (simp add: sse_run_def)

subsection \<open>Encoding\<close>

text \<open>The usual wire form of a named event.\<close>

definition event_body :: "bytes \<Rightarrow> bytes \<Rightarrow> bytes" where
  "event_body e d = (''event: '' @ e) @ LF # (''data: '' @ d)"

definition encode_event :: "bytes \<times> bytes \<Rightarrow> bytes" where
  "encode_event ed = event_body (fst ed) (snd ed) @ [LF, LF]"

definition plain_field :: "bytes \<Rightarrow> bool" where
  "plain_field f \<longleftrightarrow> CR \<notin> set f \<and> LF \<notin> set f \<and> trim_space f = f"

lemma trim_space_blank: "trim_space (CHR '' '' # s) = trim_space s"
proof -
  have "find (\<lambda>p. prefix p (CHR '' '' # s)) space_seqs = Some '' ''"
    by (simp add: space_seqs_def)
  then have "trim_left_space (CHR '' '' # s) = trim_left_space s"
    by (simp add: trim_left_space_def)
  then show ?thesis by (simp add: trim_space_def)
qed

lemma first_boundary_plain:
  "CR \<notin> set xs \<Longrightarrow> LF \<notin> set xs \<Longrightarrow>
   first_boundary (xs @ ys) = map_option (\<lambda>(i, l). (length xs + i, l)) (first_boundary ys)"
proof (induction xs)
  case Nil
  show ?case by (cases "first_boundary ys") auto
next
  case (Cons x xs)
  then show ?case by (cases "first_boundary ys") auto
qed

lemma first_boundary_LF: "c \<noteq> LF \<Longrightarrow> first_boundary (LF # c # s) = map_option (\<lambda>(i, l). (Suc i, l)) (first_boundary (c # s))"
  by simp

lemma split_lines_plain:
  "CR \<notin> set xs \<Longrightarrow> LF \<notin> set xs \<Longrightarrow> split_lines cur (xs @ ys) = split_lines (cur @ xs) ys"
  by (induction xs arbitrary: cur) auto

lemma split_lines_two:
  assumes "CR \<notin> set a" "LF \<notin> set a" "CR \<notin> set b" "LF \<notin> set b" "b \<noteq> []"
  shows "split_lines [] (a @ LF # b) = [a, b]"
  using split_lines_plain [OF assms(1,2), of "[]" "LF # b"] split_lines_plain [OF assms(3,4), of "[]" "[]"]
    assms(5) by simp

lemma first_boundary_two:
  assumes "CR \<notin> set a" "LF \<notin> set a" "CR \<notin> set b" "LF \<notin> set b" "b \<noteq> []"
  shows "first_boundary ((a @ LF # b) @ [LF, LF] @ rest) = Some (length (a @ LF # b), 2)"
proof -
  have "first_boundary (b @ LF # LF # rest) = Some (length b, 2)"
    unfolding first_boundary_plain [OF assms(3,4)] by simp
  moreover obtain c b' where "b = c # b'" "c \<noteq> LF" using assms(4,5) by (cases b) auto
  ultimately have "first_boundary (LF # b @ LF # LF # rest) = Some (Suc (length b), 2)"
    using first_boundary_LF [of c "b' @ LF # LF # rest"] by simp
  then show ?thesis using first_boundary_plain [OF assms(1,2)] by simp
qed

lemma event_body_lines:
  assumes "plain_field e" and "plain_field d"
  shows "CR \<notin> set (''event: '' @ e)" "LF \<notin> set (''event: '' @ e)"
    "CR \<notin> set (''data: '' @ d)" "LF \<notin> set (''data: '' @ d)" "''data: '' @ d \<noteq> []"
  using assms by (simp_all add: plain_field_def CR_def LF_def)

lemma sse_frames_step:
  "first_boundary (m @ [LF, LF] @ rest) = Some (length m, 2) \<Longrightarrow>
   sse_frames (m @ [LF, LF] @ rest) = m # sse_frames rest"
  by (subst sse_frames.simps) simp

lemma encode_frames:
  assumes "plain_field e" and "plain_field d"
  shows "sse_frames (encode_event (e, d) @ rest) = event_body e d # sse_frames rest"
  using sse_frames_step [OF first_boundary_two [OF event_body_lines [OF assms], of rest]]
  by (simp add: encode_event_def event_body_def)

lemma encode_parse:
  assumes "plain_field e" and "plain_field d"
  shows "parse_msg (event_body e d) = (e, d)"
proof -
  have "splitSSELines (event_body e d) = [''event: '' @ e, ''data: '' @ d]"
    unfolding splitSSELines_def event_body_def using split_lines_two [OF event_body_lines [OF assms]] .
  moreover have "trim_space (CHR '' '' # f) = f" if "plain_field f" for f
    using that by (simp add: trim_space_blank plain_field_def)
  ultimately show ?thesis
    using assms by (simp add: parse_msg_def dispatch_line_def has_prefix_def)
qed

lemma stream_calls_encode:
  assumes "\<forall>(e, d) \<in> set evs. plain_field e \<and> plain_field d \<and> (e \<noteq> [] \<or> d \<noteq> [])"
  shows "stream_calls (concat (map encode_event evs)) = map (\<lambda>(e, d). OnEvent e d) evs"
  using assms
proof (induction evs)
  case Nil
  show ?case by (simp add: stream_calls_def sse_frames.simps [of "[]"])
next
  case (Cons ed evs)
  obtain e d where ed: "ed = (e, d)" by (cases ed)
  have p: "plain_field e" "plain_field d" "e \<noteq> [] \<or> d \<noteq> []" using Cons.prems ed by auto
  have "stream_calls (concat (map encode_event evs)) = map (\<lambda>(e, d). OnEvent e d) evs"
    using Cons by auto
  then show ?case
    using p encode_parse [OF p(1,2)] encode_frames [OF p(1,2), of "concat (map encode_event evs)"]
    by (auto simp: ed stream_calls_def frame_calls_def)
qed

lemma sse_reads_calls:
  assumes "overflows (sse_run (newSSETee ov) (map (\<lambda>c. Read c False) cs @ [Read c True])) = 0"
  shows "calls_log (sse_run (newSSETee ov) (map (\<lambda>c. Read c False) cs @ [Read c True]))
     = stream_calls (concat cs @ c) @ [OnClose]"
proof -
  let ?t = "sse_run (newSSETee ov) (map (\<lambda>c. Read c False) cs)"
  have run: "sse_run (newSSETee ov) (map (\<lambda>c. Read c False) cs @ [Read c True]) = sse_step ?t (Read c True)"
    by (simp add: sse_run_def)
  have ov: "overflows ?t = 0" "overflows (sse_step ?t (Read c True)) = 0"
    using assms sse_step_overflows_mono [of ?t "Read c True"] unfolding run by auto
  have "once_invar ?t"
    using tee_once.run_invar [OF newSSETee_invar(1)] by (simp add: sse_run_def)
  moreover have "close_calls ?t = 0"
    using tee_once.run_calls [OF newSSETee_invar, of ov "map (\<lambda>c. Read c False) cs"]
    by (simp add: sse_run_def)
  ultimately have open_t: "\<not> once_done ?t" by (simp add: once_invar_def split: if_splits)
  have "drain True ((newSSETee ov)\<lparr>buf := concat cs @ c\<rparr>) = drain True (?t\<lparr>buf := buf ?t @ c\<rparr>)"
    using sse_reads_plain [of "newSSETee ov" cs True c] ov(1) by (simp add: newSSETee_def)
  moreover have "sse_step ?t (Read c True) = do_once (drain True (?t\<lparr>buf := buf ?t @ c\<rparr>))"
  proof (cases "c = []")
    case False
    have "length (buf ?t @ c) \<le> maxEventBytes"
      using ov False by (auto simp: sse_Read_def do_once_def log_call_def Let_def split: if_splits)
    then show ?thesis
      using False drain_append [of True "?t\<lparr>buf := buf ?t @ c\<rparr>" "[]"] by (simp add: sse_Read_def)
  qed (simp add: sse_Read_def)
  ultimately show ?thesis
    using open_t drain_True_log [of "(newSSETee ov)\<lparr>buf := concat cs @ c\<rparr>"]
    by (simp add: run do_once_def log_call_def) (simp add: newSSETee_def)
qed

subsection \<open>Properties\<close>

text \<open>
  C14: The events delivered do not depend on how the upstream's bytes were cut into reads. If
  no read overflowed the parse buffer, the calls made by the time the stream has ended are
  exactly the events of the whole byte stream, in order, followed by the close.
\<close>

theorem sse_chunking_irrelevant:
  assumes "overflows (sse_run (newSSETee ov) (map (\<lambda>c. Read c False) cs @ [Read c True])) = 0"
  shows "calls_log (sse_run (newSSETee ov) (map (\<lambda>c. Read c False) cs @ [Read c True]))
     = stream_calls (concat cs @ c) @ [OnClose]"
  using assms by (rule sse_reads_calls)

definition split_example :: "sse_op list" where
  "split_example = map (\<lambda>c. Read c False) [''data: x'', [CR, LF, CR], [LF], ''data: y''] @ [Read [] True]"

theorem sse_chunking_irrelevant_witness:
  "calls_log (sse_run (newSSETee False) split_example) =
     stream_calls (''data: x'' @ [CR, LF, CR, LF] @ ''data: y'') @ [OnClose]"
proof -
  have "overflows (sse_run (newSSETee False)
      (map (\<lambda>c. Read c False) [''data: x'', [CR, LF, CR], [LF], ''data: y''] @ [Read [] True])) = 0"
    using sse_run_memory [of "newSSETee False" split_example]
    by (simp add: split_example_def newSSETee_def maxEventBytes_def)
  from sse_chunking_irrelevant [OF this] show ?thesis by (simp add: split_example_def)
qed

text \<open>
  Over any sequence of reads and closes, in any order and number, the close callback runs
  exactly once if some read returned an error (end of stream included) or the tee was closed,
  and never otherwise.
\<close>

lemma sse_close_exactly_once:
  "close_calls (sse_run (newSSETee ov) ops) = (if \<exists>x \<in> set ops. closing_op x then 1 else 0)"
  unfolding sse_run_def using tee_once.run_calls by simp

text \<open>
  C16: The parse buffer never holds more than \<open>maxEventBytes\<close> between calls, and the overflow
  count is bounded by the traffic: each overflow accounts for more than \<open>maxEventBytes\<close> bytes
  received. Whatever the state of the parser, a read hands the bytes and the error of the
  upstream to the caller unchanged.
\<close>

theorem sse_memory_bounded:
  "length (buf (sse_run (newSSETee ov) ops)) \<le> maxEventBytes
   \<and> overflows (sse_run (newSSETee ov) ops) * Suc maxEventBytes \<le> sum_list (map op_bytes ops)
   \<and> fst (sse_Read c err (sse_run (newSSETee ov) ops)) = (c, err)"
  using sse_run_memory [of "newSSETee ov" ops] by (simp add: newSSETee_def sse_Read_def Let_def)

text \<open>
  C15: Round trip. Events written in the usual wire form (an event line, a data line, a blank
  line) and received in any number of reads are dispatched with the same names and payloads, in
  order, before the close, when the fields carry no line breaks and no surrounding white space
  and the stream fits the parse buffer.
\<close>

theorem sse_roundtrip:
  assumes "\<forall>(e, d) \<in> set evs. plain_field e \<and> plain_field d \<and> (e \<noteq> [] \<or> d \<noteq> [])"
    and "concat cs = concat (map encode_event evs)" and "length (concat cs) \<le> maxEventBytes"
  shows "calls_log (sse_run (newSSETee ov) (map (\<lambda>c. Read c False) cs @ [Read [] True]))
     = map (\<lambda>(e, d). OnEvent e d) evs @ [OnClose]"
proof -
  let ?ops = "map (\<lambda>c. Read c False) cs @ [Read [] True]"
  have "sum_list (map op_bytes ?ops) = length (concat cs)"
    by (simp add: length_concat o_def)
  then have "overflows (sse_run (newSSETee ov) ?ops) * Suc maxEventBytes \<le> maxEventBytes"
    using sse_run_memory [of "newSSETee ov" ?ops] assms(3) by (simp add: newSSETee_def)
  then have "overflows (sse_run (newSSETee ov) ?ops) = 0"
    by (cases "overflows (sse_run (newSSETee ov) ?ops)") auto
  from sse_reads_calls [OF this] show ?thesis
    using stream_calls_encode [OF assms(1)] assms(2) by simp
qed

theorem sse_roundtrip_witness:
  "calls_log (sse_run (newSSETee True)
       [Read (encode_event (''message_stop'', ''{}'')) False, Read (encode_event ([], ''[DONE]'')) False, Read [] True])
     = [OnEvent ''message_stop'' ''{}'', OnEvent [] ''[DONE]'', OnClose]"
proof -
  have "plain_field ''message_stop''" "plain_field ''{}''" "plain_field []" "plain_field ''[DONE]''"
    by code_simp+
  moreover have "length (concat (map encode_event [(''message_stop'', ''{}''), ([], ''[DONE]'')])) \<le> maxEventBytes"
    by (simp add: encode_event_def event_body_def maxEventBytes_def)
  ultimately show ?thesis
    using sse_roundtrip [of "[(''message_stop'', ''{}''), ([], ''[DONE]'')]"
        "map encode_event [(''message_stop'', ''{}''), ([], ''[DONE]'')]" True] by simp
qed

end
