(* ===== verification/Provider.thy ===== *)
theory Provider
  imports Genai SSE
begin

text \<open>
  What the two provider families share (\<open>internal/provider\<close>): the vendor-neutral \<open>Info\<close>, the
  handling of captured content, the matching of request paths, the response attributes, and the
  stream wrapper around the SSE tee.

  The JSON decoder is an argument of the operations that call it: a function from bytes to the
  decoded structure, \<open>None\<close> for a decoding error. Successive readings of the clock are
  \<open>clk 0\<close>, \<open>clk 1\<close>, and so on.
\<close>

record Info =
  i_System :: bytes
  i_Operation :: bytes
  i_RequestModel :: bytes
  i_ResponseModel :: bytes
  i_ResponseID :: bytes
  i_FinishReasons :: "bytes list"
  i_InputTokens :: int
  i_OutputTokens :: int
  i_Stream :: bool
  i_Started :: time
  i_FirstByteAt :: time
  i_FirstTokenAt :: time
  i_Finished :: time

definition new_Info :: "bytes \<Rightarrow> bytes \<Rightarrow> time \<Rightarrow> Info" where
  "new_Info system op now =
     \<lparr>i_System = system, i_Operation = op, i_RequestModel = [], i_ResponseModel = [], i_ResponseID = [],
      i_FinishReasons = [], i_InputTokens = 0, i_OutputTokens = 0, i_Stream = False, i_Started = now,
      i_FirstByteAt = zeroTime, i_FirstTokenAt = zeroTime, i_Finished = zeroTime\<rparr>"

text \<open>\<open>seconds\<close> is \<open>time.Duration.Seconds\<close>, a \<open>float64\<close>.\<close>

definition DurationSeconds :: "(duration \<Rightarrow> 'f::zero) \<Rightarrow> Info \<Rightarrow> 'f" where
  "DurationSeconds seconds i =
     (if time_IsZero (i_Started i) \<or> time_IsZero (i_Finished i) then 0
      else seconds (time_Sub (i_Finished i) (i_Started i)))"

definition TimeToFirstTokenSeconds :: "(duration \<Rightarrow> 'f::zero) \<Rightarrow> Info \<Rightarrow> 'f" where
  "TimeToFirstTokenSeconds seconds i =
     (if time_IsZero (i_Started i) \<or> time_IsZero (i_FirstTokenAt i) then 0
      else seconds (time_Sub (i_FirstTokenAt i) (i_Started i)))"

record ContentOpts =
  Capture :: bool
  Redact :: "(bytes \<Rightarrow> bytes) option"

definition Clean :: "ContentOpts \<Rightarrow> bytes \<Rightarrow> bytes" where
  "Clean opts s = (case Redact opts of None \<Rightarrow> s | Some f \<Rightarrow> f s)"

subsection \<open>Request paths\<close>

text \<open>
  \<open>path.Clean\<close> on the slash-separated elements, the output reversed: empty elements and \<open>.\<close> are
  dropped, \<open>..\<close> removes the element before it, is dropped at the root and kept otherwise.
\<close>

fun clean_elems :: "bool \<Rightarrow> bytes list \<Rightarrow> bytes list \<Rightarrow> bytes list" where
  "clean_elems rooted out [] = rev out"
| "clean_elems rooted out (e # es) =
     (if e = [] \<or> e = ''.'' then clean_elems rooted out es
      else if e = ''..'' then
        (case out of
           [] \<Rightarrow> clean_elems rooted (if rooted then [] else [e]) es
         | x # out' \<Rightarrow> clean_elems rooted (if x = ''..'' then e # out else out') es)
      else clean_elems rooted (e # out) es)"

definition path_Clean :: "bytes \<Rightarrow> bytes" where
  "path_Clean p =
     (let rooted = has_prefix p ''/'';
          out = join_on CHR ''/'' (clean_elems rooted [] (split_on CHR ''/'' p)) in
      if rooted then ''/'' @ out else if out = [] then ''.'' else out)"

definition pathSegments :: "bytes \<Rightarrow> bytes list" where
  "pathSegments urlPath =
     (if urlPath = [] \<or> urlPath = ''/'' then []
      else if has_suffix urlPath ''/'' then []
      else
        let cleaned = path_Clean urlPath in
        if cleaned = ''/'' \<or> cleaned = ''.'' then []
        else
          let cleaned = trim_prefix cleaned ''/'' in
          if cleaned = [] then [] else split_on CHR ''/'' cleaned)"

definition isVersionSegment :: "bytes \<Rightarrow> bool" where
  "isVersionSegment s \<longleftrightarrow>
     (if length s < 2 then False
      else if s ! 0 \<noteq> CHR ''v'' \<and> s ! 0 \<noteq> CHR ''V'' then False
      else \<forall>c \<in> set (tl s). is_digit c)"

definition isAPIParent :: "bytes list \<Rightarrow> bool" where
  "isAPIParent parents \<longleftrightarrow>
     (if parents = [] then False
      else if isVersionSegment (last parents) then True
      else if length parents \<ge> 2 \<and> parents ! (length parents - 2) = ''deployments'' then True
      else False)"

subsection \<open>Response attributes\<close>

definition responseAttrs :: "Info \<Rightarrow> 'f attr list" where
  "responseAttrs info =
     (if i_ResponseModel info \<noteq> [] then [(AttrResponseModel, AString (i_ResponseModel info))] else [])
     @ (if i_ResponseID info \<noteq> [] then [(AttrResponseID, AString (i_ResponseID info))] else [])
     @ (if i_FinishReasons info \<noteq> [] then [(AttrResponseFinishReasons, AStrings (i_FinishReasons info))] else [])
     @ (if i_InputTokens info > 0 then [(AttrUsageInputTokens, AInt (i_InputTokens info))] else [])
     @ (if i_OutputTokens info > 0 then [(AttrUsageOutputTokens, AInt (i_OutputTokens info))] else [])"

subsection \<open>Wrapped streams\<close>

text \<open>
  The state the two callbacks of a wrapped stream share: the call's \<open>Info\<close>, the assembled text,
  the first-token flag, how often the caller's \<open>onFirstToken\<close> and \<open>onDone\<close> ran, the calls on the
  span, and the number of clock readings taken.
\<close>

record 'f stream =
  st_info :: Info
  assembled :: bytes
  gotFirst :: bool
  first_calls :: nat
  done_calls :: nat
  span_log :: "'f span_op list"
  ticks :: nat

definition new_stream :: "Info \<Rightarrow> 'f stream" where
  "new_stream info =
     \<lparr>st_info = info, assembled = [], gotFirst = False, first_calls = 0, done_calls = 0, span_log = [], ticks = 0\<rparr>"

text \<open>The statement guarded by \<open>!gotFirst\<close>.\<close>

definition first_token :: "(nat \<Rightarrow> time) \<Rightarrow> 'f stream \<Rightarrow> 'f stream" where
  "first_token clk st =
     (if gotFirst st then st
      else st\<lparr>gotFirst := True, st_info := (st_info st)\<lparr>i_FirstTokenAt := clk (ticks st)\<rparr>,
              ticks := Suc (ticks st), first_calls := Suc (first_calls st)\<rparr>)"

text \<open>The close callback, the same in both families; \<open>n\<close> is \<open>tee.Overflows()\<close>.\<close>

definition stream_closer :: "(nat \<Rightarrow> time) \<Rightarrow> ContentOpts \<Rightarrow> nat \<Rightarrow> 'f stream \<Rightarrow> 'f stream" where
  "stream_closer clk content n st =
     (if \<not> time_IsZero (i_Finished (st_info st)) then st
      else
        let info = (st_info st)\<lparr>i_Finished := clk (ticks st)\<rparr> in
        st\<lparr>st_info := info, ticks := Suc (ticks st),
           span_log := span_log st @ [SetAttributes (responseAttrs info)]
             @ (if Capture content \<and> assembled st \<noteq> []
                then [AddEvent EventChoice [(''message'', AString (Clean content (assembled st)))]] else [])
             @ (if n > 0 then [SetAttributes [(''llmtap.sse_parser_overflows'', AInt (int n))]] else []),
           done_calls := Suc (done_calls st)\<rparr>)"

text \<open>
  The callbacks the tee makes during one operation, given to the family's event handler and to
  the closer. The tee of a provider has no overflow callback.
\<close>

fun stream_call ::
  "(bytes \<Rightarrow> 'f stream \<Rightarrow> 'f stream) \<Rightarrow> (nat \<Rightarrow> time) \<Rightarrow> ContentOpts \<Rightarrow> nat \<Rightarrow> 'f stream \<Rightarrow> sse_call \<Rightarrow> 'f stream"
  where
  "stream_call onEvent clk content n st (OnEvent event data) = onEvent data st"
| "stream_call onEvent clk content n st OnOverflow = st"
| "stream_call onEvent clk content n st OnClose = stream_closer clk content n st"

definition wrapped_step ::
  "(bytes \<Rightarrow> 'f stream \<Rightarrow> 'f stream) \<Rightarrow> (nat \<Rightarrow> time) \<Rightarrow> ContentOpts \<Rightarrow> sseTee \<times> 'f stream \<Rightarrow> sse_op \<Rightarrow>
   sseTee \<times> 'f stream" where
  "wrapped_step onEvent clk content ts x =
     (let (t, st) = ts; t' = sse_step t x in
      (t', foldl (stream_call onEvent clk content (overflows t')) st (drop (length (calls_log t)) (calls_log t'))))"

definition wrap_stream :: "Info \<Rightarrow> sseTee \<times> 'f stream" where
  "wrap_stream info = (newSSETee False, new_stream info)"

subsection \<open>Canonical paths\<close>

definition seg_ok :: "bytes \<Rightarrow> bool" where
  "seg_ok s \<longleftrightarrow> s \<noteq> [] \<and> CHR ''/'' \<notin> set s \<and> s \<noteq> ''.'' \<and> s \<noteq> ''..''"

lemma clean_elems_ok: "\<forall>s \<in> set segs. seg_ok s \<Longrightarrow> clean_elems rooted out segs = rev out @ segs"
  by (induction segs arbitrary: out) (auto simp: seg_ok_def)

lemma split_join:
  "segs \<noteq> [] \<Longrightarrow> \<forall>s \<in> set segs. c \<notin> set s \<Longrightarrow> split_on c (join_on c segs) = segs"
proof (induction segs rule: join_on.induct)
  case (3 c x y ys)
  then show ?case by (simp add: split_on_append)
qed (auto simp: split_on_no_sep)

lemma join_on_last:
  "segs \<noteq> [] \<Longrightarrow> \<forall>s \<in> set segs. seg_ok s \<Longrightarrow>
   join_on CHR ''/'' segs \<noteq> [] \<and> last (join_on CHR ''/'' segs) \<noteq> CHR ''/''"
proof (induction "CHR ''/''" segs rule: join_on.induct)
  case (2 x)
  then show ?case by (metis join_on.simps(2) last_in_set list.set_intros(1) seg_ok_def)
next
  case (3 x y ys)
  then show ?case by simp
qed simp

lemma join_on_not_slash:
  assumes "segs \<noteq> []" and "\<forall>s \<in> set segs. seg_ok s"
  shows "join_on CHR ''/'' segs \<noteq> [] \<and> \<not> suffix ''/'' (CHR ''/'' # join_on CHR ''/'' segs)"
proof -
  have "\<not> suffix ''/'' (CHR ''/'' # join_on CHR ''/'' segs)"
  proof
    assume "suffix ''/'' (CHR ''/'' # join_on CHR ''/'' segs)"
    then obtain zs where "CHR ''/'' # join_on CHR ''/'' segs = zs @ ''/''" by (auto simp: suffix_def)
    then have "last (CHR ''/'' # join_on CHR ''/'' segs) = CHR ''/''" by (metis last_snoc)
    with join_on_last [OF assms] show False by simp
  qed
  with join_on_last [OF assms] show ?thesis by simp
qed

lemma pathSegments_canonical:
  assumes "segs \<noteq> []" and "\<forall>s \<in> set segs. seg_ok s"
  shows "pathSegments (CHR ''/'' # join_on CHR ''/'' segs) = segs"
proof -
  let ?j = "join_on CHR ''/'' segs"
  have noslash: "\<forall>s \<in> set segs. CHR ''/'' \<notin> set s" using assms(2) by (simp add: seg_ok_def)
  have "split_on CHR ''/'' (CHR ''/'' # ?j) = [] # segs"
    using split_join [OF assms(1) noslash] by simp
  then have "path_Clean (CHR ''/'' # ?j) = CHR ''/'' # ?j"
    using clean_elems_ok [OF assms(2)] by (simp add: path_Clean_def has_prefix_def)
  then show ?thesis
    using join_on_not_slash [OF assms] split_join [OF assms(1) noslash]
    by (simp add: pathSegments_def has_suffix_def trim_prefix_def has_prefix_def)
qed

lemma pathSegments_trailing_slash: "pathSegments (p @ ''/'') = []"
  by (simp add: pathSegments_def has_suffix_def)

subsection \<open>The contract of a stream parser\<close>

definition first_ok :: "'f stream \<Rightarrow> bool" where
  "first_ok st \<longleftrightarrow> first_calls st = (if gotFirst st then 1 else 0)"

text \<open>
  What the event handler of a family promises: it fires the first-token callback at most once,
  never runs \<open>onDone\<close>, leaves the finish time and the span alone, and assembles no text unless
  content is captured. The lemmas about the wrapped stream follow from this, whatever the wire
  format, for a clock that never reads Go's zero time.
\<close>

locale stream_parser =
  fixes onEvent :: "bytes \<Rightarrow> 'f stream \<Rightarrow> 'f stream"
    and clk :: "nat \<Rightarrow> time"
    and content :: ContentOpts
  assumes event_finished: "i_Finished (st_info (onEvent d st)) = i_Finished (st_info st)"
    and event_done: "done_calls (onEvent d st) = done_calls st"
    and event_span: "span_log (onEvent d st) = span_log st"
    and event_first: "first_ok st \<Longrightarrow> first_ok (onEvent d st)"
    and event_capture: "\<not> Capture content \<Longrightarrow> assembled (onEvent d st) = assembled st"
begin

abbreviation "step \<equiv> wrapped_step onEvent clk content"
abbreviation "call \<equiv> stream_call onEvent clk content"

definition done_ok :: "'f stream \<Rightarrow> bool" where
  "done_ok st \<longleftrightarrow> (\<forall>n. clk n \<noteq> zeroTime) \<and> first_ok st \<and> done_calls st = (if time_IsZero (i_Finished (st_info st)) then 0 else 1)"

lemma closer_done: "done_ok st \<Longrightarrow> done_ok (stream_closer clk content n st) \<and> done_calls (stream_closer clk content n st) = 1"
  by (simp add: done_ok_def first_ok_def stream_closer_def time_IsZero_def Let_def)

lemma call_done:
  "done_ok st \<Longrightarrow> done_ok (call n st c) \<and> done_calls (call n st c) = (if c = OnClose then 1 else done_calls st)"
proof (cases c)
  case OnClose
  then show "done_ok st \<Longrightarrow> ?thesis" using closer_done by simp
qed (simp_all add: done_ok_def event_finished event_done event_first)

lemma calls_done:
  "done_ok st \<Longrightarrow> done_ok (foldl (call n) st cs)
     \<and> done_calls (foldl (call n) st cs) = (if OnClose \<in> set cs then 1 else done_calls st)"
proof (induction cs arbitrary: st)
  case (Cons c cs)
  from call_done [OF Cons.prems, of n c] Cons.IH [of "call n st c"] show ?case by auto
qed simp

definition wrapped_invar :: "sseTee \<times> 'f stream \<Rightarrow> bool" where
  "wrapped_invar ts \<longleftrightarrow> once_invar (fst ts) \<and> done_ok (snd ts) \<and> done_calls (snd ts) = close_calls (fst ts)"

lemma step_invar:
  assumes "wrapped_invar ts"
  shows "wrapped_invar (step ts x) \<and> fst (step ts x) = sse_step (fst ts) x"
proof -
  let ?t = "fst ts" and ?t' = "sse_step (fst ts) x"
  obtain new where new: "calls_log ?t' = calls_log ?t @ new"
    using sse_step_log_prefix [of ?t x] by (auto simp: prefix_def)
  have i: "once_invar ?t" "done_ok (snd ts)" "done_calls (snd ts) = close_calls ?t"
    using assms by (simp_all add: wrapped_invar_def)
  have step: "step ts x = (?t', foldl (call (overflows ?t')) (snd ts) new)"
    by (simp add: wrapped_step_def new Let_def case_prod_unfold)
  have "close_calls ?t' = close_calls ?t + count_list new OnClose" by (simp add: close_calls_def new)
  moreover have "close_calls ?t' \<le> 1" using sse_step_close [OF i(1), of x] by (simp add: once_invar_def)
  moreover have "OnClose \<in> set new \<longleftrightarrow> count_list new OnClose \<noteq> 0" by (simp add: count_list_0_iff)
  ultimately have eq: "(if OnClose \<in> set new then 1 else close_calls ?t) = close_calls ?t'"
    by (cases "OnClose \<in> set new") auto
  show ?thesis
    using calls_done [OF i(2), of "overflows ?t'" new, unfolded i(3) eq] sse_step_close [OF i(1), of x]
    unfolding wrapped_invar_def step by simp
qed

lemma run_fst: "wrapped_invar ts \<Longrightarrow> fst (foldl step ts ops) = sse_run (fst ts) ops"
proof (induction ops arbitrary: ts)
  case (Cons x ops)
  then show ?case using step_invar [OF Cons.prems, of x] by (simp add: sse_run_def)
qed (simp add: sse_run_def)

end

sublocale stream_parser \<subseteq> closing: close_once
  "wrapped_step onEvent clk content" "\<lambda>ts. done_calls (snd ts)" closing_op wrapped_invar
proof unfold_locales
  fix ts x
  assume i: "wrapped_invar ts"
  show "wrapped_invar (wrapped_step onEvent clk content ts x)" using step_invar [OF i] by simp
  have eq: "done_calls (snd (wrapped_step onEvent clk content ts x)) = close_calls (sse_step (fst ts) x)"
    "done_calls (snd ts) = close_calls (fst ts)" "once_invar (fst ts)"
    using step_invar [OF i, of x] i by (simp_all add: wrapped_invar_def)
  show "done_calls (snd (wrapped_step onEvent clk content ts x)) = (if closing_op x then 1 else 0)"
    if "done_calls (snd ts) = 0"
    using tee_once.step_open [OF eq(3), of x] that eq by simp
  show "done_calls (snd (wrapped_step onEvent clk content ts x)) = 1" if "done_calls (snd ts) = 1"
    using tee_once.step_closed [OF eq(3), of x] that eq by simp
qed

context stream_parser
begin

lemma newSSETee_log: "calls_log (newSSETee ov) = []"
  by (simp add: newSSETee_def)

lemma start_invar:
  "time_IsZero (i_Finished info) \<Longrightarrow> (\<And>n. clk n \<noteq> zeroTime) \<Longrightarrow> wrapped_invar (wrap_stream info) \<and> done_calls (snd (wrap_stream info)) = 0"
  by (simp add: wrapped_invar_def wrap_stream_def new_stream_def done_ok_def first_ok_def)

lemma stream_callbacks:
  assumes "time_IsZero (i_Finished info)" and "\<And>n. clk n \<noteq> zeroTime"
  shows "done_calls (snd (foldl step (wrap_stream info) ops)) = (if \<exists>x \<in> set ops. closing_op x then 1 else 0)
     \<and> first_calls (snd (foldl step (wrap_stream info) ops)) \<le> 1"
proof -
  note s = start_invar [OF assms(1) assms(2)]
  have "wrapped_invar (foldl step (wrap_stream info) ops)" using closing.run_invar s by blast
  then have "first_calls (snd (foldl step (wrap_stream info) ops)) \<le> 1"
    by (simp add: wrapped_invar_def done_ok_def first_ok_def)
  with closing.run_calls [OF conjunct1 [OF s] conjunct2 [OF s], of ops] show ?thesis by (rule conjI)
qed

text \<open>Without overflow the stream state is the fold of the handler over the tee's calls.\<close>

lemma run_no_overflow:
  assumes "overflows (sse_run (fst ts) ops) = 0" and "wrapped_invar ts"
    and "snd ts = foldl (call 0) (new_stream info) (calls_log (fst ts))"
  shows "snd (foldl step ts ops) = foldl (call 0) (new_stream info) (calls_log (sse_run (fst ts) ops))"
  using assms
proof (induction ops arbitrary: ts)
  case (Cons x ops)
  let ?t' = "sse_step (fst ts) x"
  obtain new where new: "calls_log ?t' = calls_log (fst ts) @ new"
    using sse_step_log_prefix [of "fst ts" x] by (auto simp: prefix_def)
  have run: "sse_run (fst ts) (x # ops) = sse_run ?t' ops" by (simp add: sse_run_def)
  have ov: "overflows ?t' = 0" using Cons.prems(1) sse_run_overflows_mono [of ?t' ops] by (simp add: run)
  have "step ts x = (?t', foldl (call 0) (snd ts) new)"
    by (simp add: wrapped_step_def new Let_def case_prod_unfold ov)
  then have "snd (step ts x) = foldl (call 0) (new_stream info) (calls_log ?t')"
    using Cons.prems(3) by (simp add: new)
  with Cons.IH [of "step ts x"] Cons.prems step_invar [OF Cons.prems(2), of x] show ?case by (simp add: run)
qed (simp add: sse_run_def)

lemma stream_chunking:
  assumes "time_IsZero (i_Finished info)" and "\<And>n. clk n \<noteq> zeroTime"
    and "overflows (sse_run (newSSETee False) (map (\<lambda>c. Read c False) cs @ [Read c True])) = 0"
  shows "snd (foldl step (wrap_stream info) (map (\<lambda>c. Read c False) cs @ [Read c True]))
     = stream_closer clk content 0 (foldl (call 0) (new_stream info) (stream_calls (concat cs @ c)))"
proof -
  let ?ops = "map (\<lambda>c. Read c False) cs @ [Read c True]"
  have "snd (foldl step (wrap_stream info) ?ops) =
      foldl (call 0) (new_stream info) (calls_log (sse_run (newSSETee False) ?ops))"
    using run_no_overflow [of "wrap_stream info" ?ops info, OF _ conjunct1 [OF start_invar [OF assms(1) assms(2)]]] assms(3)
    by (simp add: wrap_stream_def newSSETee_log del: map_append foldl_append)
  then show ?thesis by (simp add: sse_reads_calls [OF assms(3)])
qed

lemma calls_span:
  "OnClose \<notin> set cs \<Longrightarrow> span_log (foldl (call n) st cs) = span_log st
     \<and> (Capture content \<or> assembled (foldl (call n) st cs) = assembled st)"
proof (induction cs arbitrary: st)
  case (Cons c cs)
  have "c \<noteq> OnClose" "OnClose \<notin> set cs" using Cons.prems by auto
  then show ?case
    using Cons.IH [of "call n st c"]
    by (cases c; cases "Capture content") (simp_all add: event_span event_capture)
qed simp

end

text \<open>
  What may reach a span. Plain attributes carry metadata under a fixed set of keys, or the snippet
  of an error body; the attributes of an event are a role, an index, a finish reason, or a text
  under \<open>content\<close> or \<open>message\<close>. Events and the snippet need content capture, and snippet and texts
  have been through \<open>Clean\<close>.
\<close>

definition meta_keys :: "bytes set" where
  "meta_keys =
     {AttrSystem, AttrOperationName, AttrStream, AttrRequestModel, AttrRequestTemperature, AttrRequestTopP,
      AttrRequestTopK, AttrRequestMaxTokens, AttrRequestFrequencyPen, AttrRequestPresencePen, AttrRequestSeed,
      AttrRequestStopSequences, AttrRequestEncodingFmts, AttrResponseID, AttrResponseModel,
      AttrResponseFinishReasons, AttrUsageInputTokens, AttrUsageOutputTokens, AttrCostUSD, AttrTimeToFirstToken,
      ''http.response.status_code'', ''http.response.body_size'', ''llmtap.sse_parser_overflows''}"

lemma meta_keys_mem [simp]:
  "AttrSystem \<in> meta_keys" "AttrOperationName \<in> meta_keys" "AttrStream \<in> meta_keys" "AttrRequestModel \<in> meta_keys"
  "AttrRequestTemperature \<in> meta_keys" "AttrRequestTopP \<in> meta_keys" "AttrRequestTopK \<in> meta_keys"
  "AttrRequestMaxTokens \<in> meta_keys" "AttrRequestFrequencyPen \<in> meta_keys" "AttrRequestPresencePen \<in> meta_keys"
  "AttrRequestSeed \<in> meta_keys" "AttrRequestStopSequences \<in> meta_keys" "AttrRequestEncodingFmts \<in> meta_keys"
  "AttrResponseID \<in> meta_keys" "AttrResponseModel \<in> meta_keys" "AttrResponseFinishReasons \<in> meta_keys"
  "AttrUsageInputTokens \<in> meta_keys" "AttrUsageOutputTokens \<in> meta_keys" "AttrCostUSD \<in> meta_keys"
  "AttrTimeToFirstToken \<in> meta_keys" "''http.response.status_code'' \<in> meta_keys"
  "''http.response.body_size'' \<in> meta_keys" "''llmtap.sse_parser_overflows'' \<in> meta_keys"
  by (simp_all add: meta_keys_def)

definition clean_text :: "ContentOpts \<Rightarrow> 'f attr_value \<Rightarrow> bool" where
  "clean_text opts v \<longleftrightarrow> (\<exists>s. v = AString (Clean opts s))"

lemma clean_textI [simp]: "clean_text opts (AString (Clean opts s))"
  by (auto simp: clean_text_def)

definition clean_attr :: "ContentOpts \<Rightarrow> 'f attr \<Rightarrow> bool" where
  "clean_attr opts a \<longleftrightarrow>
     fst a \<in> {''role'', ''index'', ''finish_reason''} \<or> fst a \<in> {''content'', ''message''} \<and> clean_text opts (snd a)"

fun clean_op :: "ContentOpts \<Rightarrow> 'f span_op \<Rightarrow> bool" where
  "clean_op opts (AddEvent name attrs) = (Capture opts \<and> (\<forall>a \<in> set attrs. clean_attr opts a))"
| "clean_op opts (SetAttributes attrs) =
     (\<forall>a \<in> set attrs. fst a \<in> meta_keys
        \<or> fst a = ''http.response.body_snippet'' \<and> Capture opts \<and> clean_text opts (snd a))"
| "clean_op opts (SetName n) = True"

lemma responseAttrs_clean: "clean_op opts (SetAttributes (responseAttrs info))"
  by (auto simp: responseAttrs_def)

lemma stream_closer_clean:
  "\<forall>x \<in> set (span_log st). clean_op opts x \<Longrightarrow> \<forall>x \<in> set (span_log (stream_closer clk opts n st)). clean_op opts x"
proof -
  assume "\<forall>x \<in> set (span_log st). clean_op opts x"
  moreover have "clean_op opts (SetAttributes [(''llmtap.sse_parser_overflows'', AInt (int n))])" by simp
  ultimately show ?thesis
    using responseAttrs_clean by (auto simp: stream_closer_def Let_def clean_attr_def simp del: clean_op.simps(2))
qed

context stream_parser
begin

lemma run_clean:
  "\<forall>x \<in> set (span_log (snd ts)). clean_op content x \<Longrightarrow>
   \<forall>x \<in> set (span_log (snd (foldl step ts ops))). clean_op content x"
proof (induction ops arbitrary: ts)
  case (Cons x ops)
  have c: "\<forall>x \<in> set (span_log st). clean_op content x \<Longrightarrow> \<forall>x \<in> set (span_log (call n st y)). clean_op content x"
    for n st y
    using stream_closer_clean [of st content clk n] by (cases y) (simp_all add: event_span)
  have "\<forall>x \<in> set (span_log (foldl (call n) (snd ts) cs)). clean_op content x" for n cs
    using Cons.prems by (rule foldl_invariant) (use c in blast)
  then have "\<forall>y \<in> set (span_log (snd (step ts x))). clean_op content y"
    by (simp add: wrapped_step_def Let_def case_prod_unfold)
  with Cons.IH show ?case by simp
qed simp

end

end
