(* ===== verification/OpenAI.thy ===== *)
theory OpenAI
  imports Provider
begin

text \<open>
  The OpenAI wire format (\<open>openai.go\<close>). The decoders of \<open>encoding/json\<close> are the fields of
  \<open>openai_json\<close>; \<open>json.RawMessage\<close> fields hold the raw JSON text of the value.
\<close>

definition OpenAI_OperationFor :: "bytes \<Rightarrow> bytes" where
  "OpenAI_OperationFor urlPath =
     (let segs = pathSegments urlPath; n = length segs in
      if n \<ge> 3 \<and> segs ! (n - 1) = ''completions'' \<and> segs ! (n - 2) = ''chat'' \<and> isAPIParent (take (n - 2) segs)
      then OpChat
      else if n \<ge> 2 \<and> segs ! (n - 1) = ''embeddings'' \<and> isAPIParent (take (n - 1) segs)
      then OpEmbeddings
      else [])"

record openAIMessage =
  om_Role :: bytes
  om_Content :: bytes
  om_ToolCalls :: bytes

record 'f openAIRequest =
  or_Model :: bytes
  or_Messages :: "openAIMessage list"
  or_Input :: bytes
  or_Temperature :: "'f option"
  or_TopP :: "'f option"
  or_MaxTokens :: "int option"
  or_MaxComplTokens :: "int option"
  or_FrequencyPenalty :: "'f option"
  or_PresencePenalty :: "'f option"
  or_Seed :: "int option"
  or_Stop :: bytes
  or_Stream :: bool
  or_EncodingFormat :: bytes

record openAIUsage =
  ou_PromptTokens :: int
  ou_CompletionTokens :: int
  ou_TotalTokens :: int
  ou_InputTokens :: int
  ou_OutputTokens :: int

record openAIChoice =
  oc_Index :: int
  oc_Message :: openAIMessage
  oc_Delta :: openAIMessage
  oc_FinishReason :: bytes

record openAIResponse =
  os_ID :: bytes
  os_Model :: bytes
  os_Choices :: "openAIChoice list"
  os_Usage :: openAIUsage
  os_Data :: "int list"

record 'f openai_json =
  unmarshal_request :: "bytes \<Rightarrow> 'f openAIRequest option"
  unmarshal_response :: "bytes \<Rightarrow> openAIResponse option"
  unmarshal_string :: "bytes \<Rightarrow> bytes option"
  unmarshal_strings :: "bytes \<Rightarrow> bytes list option"

definition hasToolCalls :: "bytes \<Rightarrow> bool" where
  "hasToolCalls raw \<longleftrightarrow>
     (if length raw = 0 then False
      else let trimmed = trim_space raw in trimmed \<noteq> [] \<and> trimmed \<noteq> ''null'' \<and> trimmed \<noteq> ''[]'')"

definition decodeStopSequences :: "'f openai_json \<Rightarrow> bytes \<Rightarrow> bytes list" where
  "decodeStopSequences js raw =
     (if length raw = 0 then []
      else case unmarshal_string js raw of
             Some s \<Rightarrow> [s]
           | None \<Rightarrow> (case unmarshal_strings js raw of Some arr \<Rightarrow> arr | None \<Rightarrow> []))"

definition openai_event_name :: "bytes \<Rightarrow> bytes" where
  "openai_event_name role =
     (if role = ''system'' \<or> role = ''developer'' then EventSystemMessage
      else if role = ''assistant'' then EventAssistantMessage
      else if role = ''tool'' then EventToolMessage
      else EventUserMessage)"

definition emitOpenAIRequestEvents :: "openAIMessage list \<Rightarrow> ContentOpts \<Rightarrow> 'f span_op list" where
  "emitOpenAIRequestEvents msgs content =
     map (\<lambda>m. AddEvent (openai_event_name (om_Role m))
            [(''role'', AString (om_Role m)), (''content'', AString (Clean content (om_Content m)))]) msgs"

definition opt_attr :: "bytes \<Rightarrow> ('a \<Rightarrow> 'f attr_value) \<Rightarrow> 'a option \<Rightarrow> 'f attr list" where
  "opt_attr k f x = (case x of None \<Rightarrow> [] | Some v \<Rightarrow> [(k, f v)])"

definition openai_request_attrs :: "'f openai_json \<Rightarrow> Info \<Rightarrow> bytes \<Rightarrow> 'f openAIRequest \<Rightarrow> 'f attr list" where
  "openai_request_attrs js info op req =
     [(AttrSystem, AString (i_System info)), (AttrOperationName, AString (i_Operation info)),
      (AttrStream, ABool (or_Stream req))]
     @ (if or_Model req \<noteq> [] then [(AttrRequestModel, AString (or_Model req))] else [])
     @ opt_attr AttrRequestTemperature AFloat (or_Temperature req)
     @ opt_attr AttrRequestTopP AFloat (or_TopP req)
     @ (case or_MaxComplTokens req of
          Some n \<Rightarrow> [(AttrRequestMaxTokens, AInt n)]
        | None \<Rightarrow> opt_attr AttrRequestMaxTokens AInt (or_MaxTokens req))
     @ opt_attr AttrRequestFrequencyPen AFloat (or_FrequencyPenalty req)
     @ opt_attr AttrRequestPresencePen AFloat (or_PresencePenalty req)
     @ opt_attr AttrRequestSeed AInt (or_Seed req)
     @ (let stops = decodeStopSequences js (or_Stop req) in
        if stops \<noteq> [] then [(AttrRequestStopSequences, AStrings stops)] else [])
     @ (if or_EncodingFormat req \<noteq> [] \<and> op = OpEmbeddings
        then [(AttrRequestEncodingFmts, AStrings [or_EncodingFormat req])] else [])"

text \<open>\<open>ParseRequest\<close>: the \<open>Info\<close> returned and the calls made on the span.\<close>

definition OpenAI_ParseRequest ::
  "'f openai_json \<Rightarrow> time \<Rightarrow> bytes \<Rightarrow> bytes \<Rightarrow> ContentOpts \<Rightarrow> Info \<times> 'f span_op list" where
  "OpenAI_ParseRequest js now urlPath body content =
     (let op = OpenAI_OperationFor urlPath; info = new_Info SystemOpenAI op now in
      case unmarshal_request js body of
        None \<Rightarrow> (info, [SetAttributes [(AttrSystem, AString (i_System info))]])
      | Some req \<Rightarrow>
          (let info = info\<lparr>i_RequestModel := or_Model req, i_Stream := or_Stream req\<rparr> in
           (info,
            [SetAttributes (openai_request_attrs js info op req), SetName (SpanName op (i_RequestModel info))]
            @ (if Capture content \<and> op = OpChat then emitOpenAIRequestEvents (or_Messages req) content else []))))"

definition mergeOpenAIUsage :: "Info \<Rightarrow> openAIUsage \<Rightarrow> Info" where
  "mergeOpenAIUsage info u =
     (let info = (if ou_PromptTokens u > 0 then info\<lparr>i_InputTokens := ou_PromptTokens u\<rparr>
                  else if ou_InputTokens u > 0 then info\<lparr>i_InputTokens := ou_InputTokens u\<rparr> else info) in
      if ou_CompletionTokens u > 0 then info\<lparr>i_OutputTokens := ou_CompletionTokens u\<rparr>
      else if ou_OutputTokens u > 0 then info\<lparr>i_OutputTokens := ou_OutputTokens u\<rparr> else info)"

definition add_finish :: "Info \<Rightarrow> bytes \<Rightarrow> Info" where
  "add_finish info r = (if r \<noteq> [] then info\<lparr>i_FinishReasons := i_FinishReasons info @ [r]\<rparr> else info)"

definition set_model :: "bytes \<Rightarrow> Info \<Rightarrow> Info" where
  "set_model m info = (if m \<noteq> [] then info\<lparr>i_ResponseModel := m\<rparr> else info)"

definition set_id :: "bytes \<Rightarrow> Info \<Rightarrow> Info" where
  "set_id i info = (if i \<noteq> [] then info\<lparr>i_ResponseID := i\<rparr> else info)"

definition OpenAI_ParseResponseJSON ::
  "'f openai_json \<Rightarrow> Info \<Rightarrow> bytes \<Rightarrow> ContentOpts \<Rightarrow> Info \<times> 'f span_op list" where
  "OpenAI_ParseResponseJSON js info body content =
     (case unmarshal_response js body of
        None \<Rightarrow> (info, [])
      | Some resp \<Rightarrow>
          (let info = mergeOpenAIUsage info (os_Usage resp);
               info = set_id (os_ID resp) (set_model (os_Model resp) info);
               info = foldl add_finish info (map oc_FinishReason (os_Choices resp)) in
           (info,
            [SetAttributes (responseAttrs info)]
            @ (if Capture content \<and> i_Operation info = OpChat
               then map (\<lambda>c. AddEvent EventChoice
                      [(''index'', AInt (oc_Index c)), (''finish_reason'', AString (oc_FinishReason c)),
                       (''message'', AString (Clean content (om_Content (oc_Message c))))]) (os_Choices resp)
               else []))))"

subsection \<open>Streams\<close>

definition openai_choice :: "(nat \<Rightarrow> time) \<Rightarrow> ContentOpts \<Rightarrow> 'f stream \<Rightarrow> openAIChoice \<Rightarrow> 'f stream" where
  "openai_choice clk content st c =
     (let st = st\<lparr>st_info := add_finish (st_info st) (oc_FinishReason c)\<rparr>;
          delta = om_Content (oc_Delta c) in
      if delta \<noteq> [] \<or> hasToolCalls (om_ToolCalls (oc_Delta c)) then
        (let st = first_token clk st in
         if Capture content \<and> delta \<noteq> [] then st\<lparr>assembled := assembled st @ delta\<rparr> else st)
      else st)"

definition OpenAI_onEvent ::
  "'f openai_json \<Rightarrow> (nat \<Rightarrow> time) \<Rightarrow> ContentOpts \<Rightarrow> bytes \<Rightarrow> 'f stream \<Rightarrow> 'f stream" where
  "OpenAI_onEvent js clk content data st =
     (if length data = 0 then st
      else if data = ''[DONE]'' then st
      else case unmarshal_response js data of
             None \<Rightarrow> st
           | Some chunk \<Rightarrow>
               (let info = set_id (os_ID chunk) (set_model (os_Model chunk) (st_info st));
                    info = mergeOpenAIUsage info (os_Usage chunk) in
                foldl (openai_choice clk content) (st\<lparr>st_info := info\<rparr>) (os_Choices chunk)))"

definition OpenAI_WrapStream ::
  "'f openai_json \<Rightarrow> (nat \<Rightarrow> time) \<Rightarrow> ContentOpts \<Rightarrow> Info \<Rightarrow> sse_op list \<Rightarrow> sseTee \<times> 'f stream" where
  "OpenAI_WrapStream js clk content info ops =
     foldl (wrapped_step (OpenAI_onEvent js clk content) clk content) (wrap_stream info) ops"

subsection \<open>Lemmas\<close>

lemma info_updates [simp]:
  "i_Finished (mergeOpenAIUsage i u) = i_Finished i" "i_Finished (add_finish i r) = i_Finished i"
  "i_Finished (set_model m i) = i_Finished i" "i_Finished (set_id d i) = i_Finished i"
  by (simp_all add: mergeOpenAIUsage_def add_finish_def set_model_def set_id_def Let_def)

lemma first_token_frame [simp]:
  "i_Finished (st_info (first_token clk st)) = i_Finished (st_info st)"
  "done_calls (first_token clk st) = done_calls st" "span_log (first_token clk st) = span_log st"
  "assembled (first_token clk st) = assembled st" "gotFirst (first_token clk st)"
  by (simp_all add: first_token_def)

lemma first_token_ok [simp]: "first_ok st \<Longrightarrow> first_ok (first_token clk st)"
  by (auto simp: first_ok_def first_token_def)

lemma first_ok_updates [simp]:
  "first_ok (st\<lparr>st_info := i\<rparr>) = first_ok st" "first_ok (st\<lparr>assembled := a\<rparr>) = first_ok st"
  by (simp_all add: first_ok_def)

definition event_frame :: "ContentOpts \<Rightarrow> 'f stream \<Rightarrow> 'f stream \<Rightarrow> bool" where
  "event_frame content st st' \<longleftrightarrow>
     i_Finished (st_info st') = i_Finished (st_info st) \<and> done_calls st' = done_calls st
     \<and> span_log st' = span_log st \<and> (first_ok st \<longrightarrow> first_ok st')
     \<and> (\<not> Capture content \<longrightarrow> assembled st' = assembled st)"

lemma openai_choice_frame: "event_frame content st (openai_choice clk content st c)"
  by (simp add: event_frame_def openai_choice_def Let_def)

lemma event_frame_trans: "event_frame o1 a b \<Longrightarrow> event_frame o1 b c \<Longrightarrow> event_frame o1 a c"
  by (simp add: event_frame_def)

lemma openai_choices_frame: "event_frame content st (foldl (openai_choice clk content) st cs)"
proof (induction cs arbitrary: st)
  case (Cons c cs)
  from event_frame_trans [OF openai_choice_frame Cons.IH] show ?case by simp
qed (simp add: event_frame_def)

lemma OpenAI_onEvent_frame: "event_frame content st (OpenAI_onEvent js clk content d st)"
proof -
  have "event_frame content st (st\<lparr>st_info := i\<rparr>)" if "i_Finished i = i_Finished (st_info st)" for i
    using that by (simp add: event_frame_def)
  from event_frame_trans [OF this openai_choices_frame] show ?thesis
    by (simp add: OpenAI_onEvent_def Let_def event_frame_def [of content st st] split: option.split)
qed

interpretation openai: stream_parser "OpenAI_onEvent js clk content" clk content
  for js :: "'f openai_json" and clk and content
  using OpenAI_onEvent_frame [of content _ js clk]
  by unfold_locales (simp_all add: event_frame_def)

end
