(* ===== verification/Anthropic.thy ===== *)
theory Anthropic
  imports OpenAI
begin

text \<open>
  The Anthropic Messages wire format (\<open>anthropic.go\<close>), and the properties the two provider
  families have in common.
\<close>

definition Anthropic_OperationFor :: "bytes \<Rightarrow> bytes" where
  "Anthropic_OperationFor urlPath =
     (let segs = pathSegments urlPath; n = length segs in
      if n \<ge> 2 \<and> segs ! (n - 1) = ''messages'' \<and> isAPIParent (take (n - 1) segs) then OpChat else [])"

record anthropicMessage =
  am_Role :: bytes
  am_Content :: bytes

record 'f anthropicRequest =
  ar_Model :: bytes
  ar_System :: bytes
  ar_Messages :: "anthropicMessage list"
  ar_MaxTokens :: "int option"
  ar_Temperature :: "'f option"
  ar_TopP :: "'f option"
  ar_TopK :: "int option"
  ar_StopSeq :: "bytes list"
  ar_Stream :: bool

record anthropicUsage =
  au_InputTokens :: int
  au_OutputTokens :: int

record anthropicContent =
  ac_Type :: bytes
  ac_Text :: bytes

record anthropicResponse =
  as_ID :: bytes
  as_Model :: bytes
  as_StopReason :: bytes
  as_Usage :: anthropicUsage
  as_Content :: "anthropicContent list"

record anthropicDelta =
  ad_Type :: bytes
  ad_Text :: bytes
  ad_PartialJSON :: bytes
  ad_StopReason :: bytes

record anthropicStreamEvent =
  ae_Type :: bytes
  ae_Message :: "anthropicResponse option"
  ae_Delta :: "anthropicDelta option"
  ae_Usage :: "anthropicUsage option"

record 'f anthropic_json =
  unmarshal_arequest :: "bytes \<Rightarrow> 'f anthropicRequest option"
  unmarshal_aresponse :: "bytes \<Rightarrow> anthropicResponse option"
  unmarshal_aevent :: "bytes \<Rightarrow> anthropicStreamEvent option"

definition anthropic_request_attrs :: "Info \<Rightarrow> bytes \<Rightarrow> 'f anthropicRequest \<Rightarrow> 'f attr list" where
  "anthropic_request_attrs info op req =
     [(AttrSystem, AString (i_System info)), (AttrOperationName, AString op), (AttrStream, ABool (ar_Stream req))]
     @ (if ar_Model req \<noteq> [] then [(AttrRequestModel, AString (ar_Model req))] else [])
     @ opt_attr AttrRequestMaxTokens AInt (ar_MaxTokens req)
     @ opt_attr AttrRequestTemperature AFloat (ar_Temperature req)
     @ opt_attr AttrRequestTopP AFloat (ar_TopP req)
     @ opt_attr AttrRequestTopK AInt (ar_TopK req)
     @ (if ar_StopSeq req \<noteq> [] then [(AttrRequestStopSequences, AStrings (ar_StopSeq req))] else [])"

definition anthropic_request_events :: "ContentOpts \<Rightarrow> 'f anthropicRequest \<Rightarrow> 'f span_op list" where
  "anthropic_request_events content req =
     (if length (ar_System req) > 0
      then [AddEvent EventSystemMessage [(''content'', AString (Clean content (ar_System req)))]] else [])
     @ map (\<lambda>m. AddEvent (if am_Role m = ''assistant'' then EventAssistantMessage else EventUserMessage)
              [(''role'', AString (am_Role m)), (''content'', AString (Clean content (am_Content m)))])
         (ar_Messages req)"

definition Anthropic_ParseRequest ::
  "'f anthropic_json \<Rightarrow> time \<Rightarrow> bytes \<Rightarrow> bytes \<Rightarrow> ContentOpts \<Rightarrow> Info \<times> 'f span_op list" where
  "Anthropic_ParseRequest js now urlPath body content =
     (let op = Anthropic_OperationFor urlPath; info = new_Info SystemAnthropic op now in
      case unmarshal_arequest js body of
        None \<Rightarrow> (info, [SetAttributes [(AttrSystem, AString (i_System info))]])
      | Some req \<Rightarrow>
          (let info = info\<lparr>i_RequestModel := ar_Model req, i_Stream := ar_Stream req\<rparr> in
           (info,
            [SetAttributes (anthropic_request_attrs info op req), SetName (SpanName op (i_RequestModel info))]
            @ (if Capture content then anthropic_request_events content req else []))))"

definition text_of :: "anthropicContent list \<Rightarrow> bytes" where
  "text_of cs = concat (map ac_Text (filter (\<lambda>c. ac_Type c = ''text'') cs))"

definition Anthropic_ParseResponseJSON ::
  "'f anthropic_json \<Rightarrow> Info \<Rightarrow> bytes \<Rightarrow> ContentOpts \<Rightarrow> Info \<times> 'f span_op list" where
  "Anthropic_ParseResponseJSON js info body content =
     (case unmarshal_aresponse js body of
        None \<Rightarrow> (info, [])
      | Some resp \<Rightarrow>
          (let info = set_id (as_ID resp) (set_model (as_Model resp) info);
               info = add_finish info (as_StopReason resp);
               info = info\<lparr>i_InputTokens := au_InputTokens (as_Usage resp),
                           i_OutputTokens := au_OutputTokens (as_Usage resp)\<rparr> in
           (info,
            [SetAttributes (responseAttrs info)]
            @ (if Capture content then
                 (let b = text_of (as_Content resp) in
                  if b \<noteq> [] then [AddEvent EventChoice [(''message'', AString (Clean content b))]] else [])
               else []))))"

subsection \<open>Streams\<close>

definition anthropic_start :: "anthropicResponse \<Rightarrow> Info \<Rightarrow> Info" where
  "anthropic_start msg info =
     (let info = set_id (as_ID msg) (set_model (as_Model msg) info) in
      if au_InputTokens (as_Usage msg) > 0 then info\<lparr>i_InputTokens := au_InputTokens (as_Usage msg)\<rparr> else info)"

definition anthropic_delta :: "(nat \<Rightarrow> time) \<Rightarrow> ContentOpts \<Rightarrow> anthropicDelta \<Rightarrow> 'f stream \<Rightarrow> 'f stream" where
  "anthropic_delta clk content d st =
     (if ad_Type d = ''text_delta'' then
        (if ad_Text d \<noteq> [] then
           (let st = first_token clk st in
            if Capture content then st\<lparr>assembled := assembled st @ ad_Text d\<rparr> else st)
         else st)
      else if ad_Type d = ''input_json_delta'' then first_token clk st
      else st)"

definition anthropic_message_delta :: "anthropicStreamEvent \<Rightarrow> Info \<Rightarrow> Info" where
  "anthropic_message_delta ev info =
     (let info = (case ae_Delta ev of None \<Rightarrow> info | Some d \<Rightarrow> add_finish info (ad_StopReason d)) in
      case ae_Usage ev of
        None \<Rightarrow> info
      | Some u \<Rightarrow> if au_OutputTokens u > 0 then info\<lparr>i_OutputTokens := au_OutputTokens u\<rparr> else info)"

definition Anthropic_onEvent ::
  "'f anthropic_json \<Rightarrow> (nat \<Rightarrow> time) \<Rightarrow> ContentOpts \<Rightarrow> bytes \<Rightarrow> 'f stream \<Rightarrow> 'f stream" where
  "Anthropic_onEvent js clk content data st =
     (if length data = 0 then st
      else case unmarshal_aevent js data of
        None \<Rightarrow> st
      | Some ev \<Rightarrow>
          if ae_Type ev = ''message_start'' then
            (case ae_Message ev of None \<Rightarrow> st | Some msg \<Rightarrow> st\<lparr>st_info := anthropic_start msg (st_info st)\<rparr>)
          else if ae_Type ev = ''content_block_delta'' then
            (case ae_Delta ev of None \<Rightarrow> st | Some d \<Rightarrow> anthropic_delta clk content d st)
          else if ae_Type ev = ''message_delta'' then
            st\<lparr>st_info := anthropic_message_delta ev (st_info st)\<rparr>
          else st)"

definition Anthropic_WrapStream ::
  "'f anthropic_json \<Rightarrow> (nat \<Rightarrow> time) \<Rightarrow> ContentOpts \<Rightarrow> Info \<Rightarrow> sse_op list \<Rightarrow> sseTee \<times> 'f stream" where
  "Anthropic_WrapStream js clk content info ops =
     foldl (wrapped_step (Anthropic_onEvent js clk content) clk content) (wrap_stream info) ops"

subsection \<open>Lemmas\<close>

lemma anthropic_info_updates [simp]:
  "i_Finished (anthropic_start msg i) = i_Finished i" "i_Finished (anthropic_message_delta ev i) = i_Finished i"
  by (simp_all add: anthropic_start_def anthropic_message_delta_def Let_def split: option.split)

lemma Anthropic_onEvent_frame: "event_frame content st (Anthropic_onEvent js clk content d st)"
  by (simp add: event_frame_def Anthropic_onEvent_def anthropic_delta_def Let_def split: option.split)

interpretation anthropic: stream_parser "Anthropic_onEvent js clk content" clk content
  for js :: "'f anthropic_json" and clk and content
  using Anthropic_onEvent_frame [of content _ js clk]
  by unfold_locales (simp_all add: event_frame_def)

lemma isAPIParent_iff:
  "isAPIParent ps \<longleftrightarrow>
     (\<exists>q v. ps = q @ [v] \<and> isVersionSegment v) \<or> (\<exists>q name. ps = q @ [''deployments'', name])"
proof (cases ps rule: rev_cases)
  case Nil
  then show ?thesis by (simp add: isAPIParent_def)
next
  case (snoc q v)
  show ?thesis
  proof (cases q rule: rev_cases)
    case Nil
    then show ?thesis using snoc by (auto simp: isAPIParent_def)
  next
    case (snoc r w)
    then show ?thesis using \<open>ps = q @ [v]\<close> by (auto simp: isAPIParent_def nth_append)
  qed
qed

lemma ends_with_two:
  "length segs \<ge> 3 \<and> segs ! (length segs - 1) = b \<and> segs ! (length segs - 2) = a
     \<and> isAPIParent (take (length segs - 2) segs) \<longleftrightarrow>
   (\<exists>q. segs = q @ [a, b] \<and> isAPIParent q)"
proof (cases "length segs < 2")
  case True
  then show ?thesis by auto
next
  case False
  then obtain q x y where segs: "segs = q @ [x, y]"
    by (metis append.assoc append_Cons append_Nil le_neq_implies_less length_0_conv length_append_singleton
        less_2_cases_iff less_one linorder_not_less not_less_eq rev_exhaust)
  have "q \<noteq> []" if "isAPIParent q" using that by (auto simp: isAPIParent_def)
  with segs show ?thesis by (auto simp: nth_append Suc_le_eq numeral_3_eq_3)
qed

lemma ends_with_one:
  "length segs \<ge> 2 \<and> segs ! (length segs - 1) = b \<and> isAPIParent (take (length segs - 1) segs) \<longleftrightarrow>
   (\<exists>q. segs = q @ [b] \<and> isAPIParent q)"
proof (cases segs rule: rev_cases)
  case (snoc q x)
  have "q \<noteq> []" if "isAPIParent q" using that by (auto simp: isAPIParent_def)
  with snoc show ?thesis by (auto simp: Suc_le_eq numeral_2_eq_2)
qed simp

lemmas operation_ends = ends_with_two ends_with_one

lemma OperationFor_segments:
  assumes "segs \<noteq> []" and "\<forall>s \<in> set segs. seg_ok s"
  shows "OpenAI_OperationFor (CHR ''/'' # join_on CHR ''/'' segs) =
      (if \<exists>q. segs = q @ [''chat'', ''completions''] \<and> isAPIParent q then OpChat
       else if \<exists>q. segs = q @ [''embeddings''] \<and> isAPIParent q then OpEmbeddings else [])"
    and "Anthropic_OperationFor (CHR ''/'' # join_on CHR ''/'' segs) =
      (if \<exists>q. segs = q @ [''messages''] \<and> isAPIParent q then OpChat else [])"
  unfolding OpenAI_OperationFor_def Anthropic_OperationFor_def Let_def pathSegments_canonical [OF assms]
    operation_ends [symmetric] by (rule refl)+

text \<open>The segment \<open>v\<close> or \<open>V\<close> and a number, which is positive or zero.\<close>

definition positive_version :: "bytes \<Rightarrow> bool" where
  "positive_version s \<longleftrightarrow>
     (case s of [] \<Rightarrow> False
      | c # ds \<Rightarrow> c \<in> {CHR ''v'', CHR ''V''} \<and> list_all is_digit ds \<and> list_ex (\<lambda>d. d \<noteq> CHR ''0'') ds)"

definition zero_version :: "bytes \<Rightarrow> bool" where
  "zero_version s \<longleftrightarrow>
     (case s of [] \<Rightarrow> False | c # ds \<Rightarrow> c \<in> {CHR ''v'', CHR ''V''} \<and> ds \<noteq> [] \<and> list_all (\<lambda>d. d = CHR ''0'') ds)"

lemma isVersionSegment_iff: "isVersionSegment s \<longleftrightarrow> positive_version s \<or> zero_version s"
proof (cases s)
  case (Cons c ds)
  have digit: "is_digit CHR ''0''" by code_simp
  have zero: "list_all (\<lambda>d. d = CHR ''0'') ds \<Longrightarrow> list_all is_digit ds"
    by (erule list.pred_mono_strong) (simp only: digit)
  have ex: "list_ex (\<lambda>d. d \<noteq> CHR ''0'') ds \<longleftrightarrow> \<not> list_all (\<lambda>d. d = CHR ''0'') ds"
    by (simp add: list_ex_iff list_all_iff)
  have "isVersionSegment s \<longleftrightarrow> ds \<noteq> [] \<and> c \<in> {CHR ''v'', CHR ''V''} \<and> list_all is_digit ds"
    by (cases ds) (simp_all add: Cons isVersionSegment_def list_all_iff)
  then show ?thesis
    using zero unfolding positive_version_def zero_version_def Cons list.case ex by (cases ds) auto
qed (simp add: isVersionSegment_def positive_version_def zero_version_def)

lemma parent_ends:
  assumes "\<forall>s \<in> set segs. \<not> zero_version s"
  shows "(\<exists>q. segs = q @ ends \<and> isAPIParent q) \<longleftrightarrow>
     (\<exists>q v. segs = q @ v # ends \<and> positive_version v) \<or> (\<exists>q name. segs = q @ ''deployments'' # name # ends)"
proof -
  have "(\<exists>q. segs = q @ ends \<and> isAPIParent q) \<longleftrightarrow>
      (\<exists>q v. segs = q @ v # ends \<and> isVersionSegment v) \<or> (\<exists>q name. segs = q @ ''deployments'' # name # ends)"
    unfolding isAPIParent_iff by fastforce
  moreover have "segs = q @ v # ends \<and> isVersionSegment v \<longleftrightarrow> segs = q @ v # ends \<and> positive_version v" for q v
    using assms isVersionSegment_iff [of v] by auto
  ultimately show ?thesis by simp
qed

lemma AddEvent_clean_map:
  "\<forall>x \<in> set xs. clean_op opts (f x) \<Longrightarrow> \<forall>y \<in> set (map f xs). clean_op opts y"
  by auto

lemma opt_attr_keys: "a \<in> set (opt_attr k f x) \<Longrightarrow> fst a = k"
  by (auto simp: opt_attr_def split: option.splits)

lemma openai_request_attrs_clean: "clean_op opts (SetAttributes (openai_request_attrs js info op req))"
  by (auto simp: openai_request_attrs_def Let_def dest!: opt_attr_keys split: option.splits if_splits)

lemma anthropic_request_attrs_clean: "clean_op opts (SetAttributes (anthropic_request_attrs info op req))"
  by (auto simp: anthropic_request_attrs_def dest!: opt_attr_keys split: if_splits)

lemma OpenAI_onEvent_ops_clean:
  "\<forall>x \<in> set (span_log (snd (OpenAI_WrapStream js clk opts info ops))). clean_op opts x"
  unfolding OpenAI_WrapStream_def
  by (rule openai.run_clean) (simp add: wrap_stream_def new_stream_def)

lemma Anthropic_onEvent_ops_clean:
  "\<forall>x \<in> set (span_log (snd (Anthropic_WrapStream js clk opts info ops))). clean_op opts x"
  unfolding Anthropic_WrapStream_def
  by (rule anthropic.run_clean) (simp add: wrap_stream_def new_stream_def)

lemma OpenAI_ParseRequest_clean:
  "\<forall>x \<in> set (snd (OpenAI_ParseRequest js now p body opts)). clean_op opts x"
  using openai_request_attrs_clean
  by (auto simp: OpenAI_ParseRequest_def Let_def emitOpenAIRequestEvents_def clean_attr_def
      simp del: clean_op.simps(2) split: option.split) simp

lemma OpenAI_ParseResponseJSON_clean:
  "\<forall>x \<in> set (snd (OpenAI_ParseResponseJSON js info body opts)). clean_op opts x"
  using responseAttrs_clean
  by (auto simp: OpenAI_ParseResponseJSON_def Let_def clean_attr_def simp del: clean_op.simps(2)
      split: option.split)

lemma Anthropic_ParseRequest_clean:
  "\<forall>x \<in> set (snd (Anthropic_ParseRequest js now p body opts)). clean_op opts x"
  using anthropic_request_attrs_clean
  by (auto simp: Anthropic_ParseRequest_def Let_def anthropic_request_events_def clean_attr_def
      simp del: clean_op.simps(2) split: option.split) simp

lemma Anthropic_ParseResponseJSON_clean:
  "\<forall>x \<in> set (snd (Anthropic_ParseResponseJSON js info body opts)). clean_op opts x"
  using responseAttrs_clean
  by (auto simp: Anthropic_ParseResponseJSON_def Let_def clean_attr_def simp del: clean_op.simps(2)
      split: option.split)

subsection \<open>Concrete decoders\<close>

text \<open>For the witnesses: decoders that know one request and one stream chunk.\<close>

definition hello_message :: openAIMessage where
  "hello_message = \<lparr>om_Role = ''user'', om_Content = ''hello'', om_ToolCalls = []\<rparr>"

definition hello_request :: "rat openAIRequest" where
  "hello_request = \<lparr>or_Model = ''gpt-4o'', or_Messages = [hello_message], or_Input = [], or_Temperature = None,
     or_TopP = None, or_MaxTokens = None, or_MaxComplTokens = None, or_FrequencyPenalty = None,
     or_PresencePenalty = None, or_Seed = None, or_Stop = [], or_Stream = True, or_EncodingFormat = []\<rparr>"

definition empty_delta_chunk :: openAIResponse where
  "empty_delta_chunk = \<lparr>os_ID = ''c1'', os_Model = ''gpt-4o'',
     os_Choices = [\<lparr>oc_Index = 0, oc_Message = \<lparr>om_Role = [], om_Content = [], om_ToolCalls = []\<rparr>,
       oc_Delta = \<lparr>om_Role = ''assistant'', om_Content = [CHR 0x22, CHR 0x22], om_ToolCalls = []\<rparr>,
       oc_FinishReason = []\<rparr>],
     os_Usage = \<lparr>ou_PromptTokens = 0, ou_CompletionTokens = 0, ou_TotalTokens = 0, ou_InputTokens = 0, ou_OutputTokens = 0\<rparr>,
     os_Data = []\<rparr>"

definition hello_json :: "rat openai_json" where
  "hello_json = \<lparr>unmarshal_request = (\<lambda>b. Some (if b = ''a'' then hello_request else hello_request\<lparr>or_Messages := []\<rparr>)),
     unmarshal_response = (\<lambda>_. Some empty_delta_chunk),
     unmarshal_string = (\<lambda>_. None), unmarshal_strings = (\<lambda>_. None)\<rparr>"

definition stop_json :: "rat anthropic_json" where
  "stop_json = \<lparr>unmarshal_arequest = (\<lambda>_. None), unmarshal_aresponse = (\<lambda>_. None), unmarshal_aevent = (\<lambda>_. None)\<rparr>"

definition wall_clock :: "nat \<Rightarrow> time" where
  "wall_clock n = 63900000000 * second + int n"

lemma wall_clock_set: "wall_clock n \<noteq> zeroTime"
  by (simp add: wall_clock_def zeroTime_def second_def)

definition chat_info :: Info where
  "chat_info = new_Info SystemOpenAI OpChat 1"

subsection \<open>Properties\<close>

text \<open>
  C37: Operations are matched by path segment. On a path of ordinary segments none of which is a
  version zero, OpenAI's operation is \<open>chat\<close> exactly when the path ends in \<open>v\<close> and a positive
  integer, or in \<open>deployments\<close> and a name, followed by \<open>chat/completions\<close>, and \<open>embeddings\<close> exactly
  when it ends in one of these followed by \<open>embeddings\<close>. If moreover no segment is \<open>deployments\<close>,
  Anthropic's operation is \<open>chat\<close> exactly when the path ends in \<open>v\<close> and a positive integer followed by
  \<open>messages\<close>. In particular the sub-resources of other collections are not taken for operations,
  and a path with a trailing slash never is one.
\<close>

theorem OperationFor_shapes:
  assumes "segs \<noteq> []" and "\<forall>s \<in> set segs. seg_ok s \<and> \<not> zero_version s"
  defines "url \<equiv> CHR ''/'' # join_on CHR ''/'' segs"
  shows "OpenAI_OperationFor url =
      (if (\<exists>q v. segs = q @ [v, ''chat'', ''completions''] \<and> positive_version v)
          \<or> (\<exists>q name. segs = q @ [''deployments'', name, ''chat'', ''completions'']) then OpChat
       else if (\<exists>q v. segs = q @ [v, ''embeddings''] \<and> positive_version v)
          \<or> (\<exists>q name. segs = q @ [''deployments'', name, ''embeddings'']) then OpEmbeddings
       else [])
    \<and> (''deployments'' \<notin> set segs \<longrightarrow>
        Anthropic_OperationFor url =
          (if \<exists>q v. segs = q @ [v, ''messages''] \<and> positive_version v then OpChat else []))
    \<and> OpenAI_OperationFor (p @ ''/'') = [] \<and> Anthropic_OperationFor (p @ ''/'') = []"
proof -
  have ok: "\<forall>s \<in> set segs. seg_ok s" using assms(2) by blast
  note op = OperationFor_segments [OF assms(1) ok, folded url_def]
  have chat: "(\<exists>q. segs = q @ [''chat'', ''completions''] \<and> isAPIParent q) \<longleftrightarrow>
      (\<exists>q v. segs = q @ [v, ''chat'', ''completions''] \<and> positive_version v)
      \<or> (\<exists>q name. segs = q @ [''deployments'', name, ''chat'', ''completions''])"
    using assms(2) parent_ends [of segs "[''chat'', ''completions'']"] by simp
  have emb: "(\<exists>q. segs = q @ [''embeddings''] \<and> isAPIParent q) \<longleftrightarrow>
      (\<exists>q v. segs = q @ [v, ''embeddings''] \<and> positive_version v)
      \<or> (\<exists>q name. segs = q @ [''deployments'', name, ''embeddings''])"
    using assms(2) parent_ends [of segs "[''embeddings'']"] by simp
  have msg: "(\<exists>q. segs = q @ [''messages''] \<and> isAPIParent q) \<longleftrightarrow>
      (\<exists>q v. segs = q @ [v, ''messages''] \<and> positive_version v)" if "''deployments'' \<notin> set segs"
    using assms(2) parent_ends [of segs "[''messages'']"] that by auto
  show ?thesis
    using op msg unfolding chat emb
    by (simp add: OpenAI_OperationFor_def Anthropic_OperationFor_def pathSegments_trailing_slash)
qed

theorem OperationFor_shapes_witness:
  "OpenAI_OperationFor ''/v1/chat/completions'' = OpChat \<and> OpenAI_OperationFor ''/v1/files/chat/completions'' = []
   \<and> Anthropic_OperationFor ''/v1/messages'' = OpChat"
proof -
  have v: "positive_version ''v1''" "\<not> positive_version ''files''" by code_simp+
  have z: "\<forall>s \<in> set [''v1'', ''files'', ''chat'', ''completions'', ''messages'']. seg_ok s \<and> \<not> zero_version s"
    by code_simp
  have "OpenAI_OperationFor ''/v1/chat/completions'' = OpChat"
    using OperationFor_shapes [of "[''v1'', ''chat'', ''completions'']"] v z by simp
  moreover have "OpenAI_OperationFor ''/v1/files/chat/completions'' = []"
    using OperationFor_shapes [of "[''v1'', ''files'', ''chat'', ''completions'']"] v z by simp
  moreover have "Anthropic_OperationFor ''/v1/messages'' = OpChat"
    using OperationFor_shapes [of "[''v1'', ''messages'']"] v z by simp
  ultimately show ?thesis by simp
qed

text \<open>
  Outside these paths the two families are more liberal: a version zero is a version, and
  Anthropic's operation is also found below \<open>deployments\<close> and a name.
\<close>

lemma OperationFor_liberal:
  "OpenAI_OperationFor ''/v0/embeddings'' = OpEmbeddings \<and> Anthropic_OperationFor ''/v0/messages'' = OpChat
   \<and> Anthropic_OperationFor ''/deployments/x/messages'' = OpChat"
  by code_simp

text \<open>
  Captured content reaches a span only through the redactor. Of everything the two families
  do to a span for a request, a complete response or a stream under any sequence of reads and
  closes, span events exist only when capture is on and carry text only as the result of \<open>Clean\<close>;
  plain attributes carry only metadata keys.
\<close>

lemma content_only_through_Clean:
  "\<forall>x \<in> set (snd (OpenAI_ParseRequest js now path body opts) @ snd (OpenAI_ParseResponseJSON js info body opts)
         @ span_log (snd (OpenAI_WrapStream js clk opts info ops))
         @ snd (Anthropic_ParseRequest ajs now path body opts) @ snd (Anthropic_ParseResponseJSON ajs info body opts)
         @ span_log (snd (Anthropic_WrapStream ajs clk opts info ops))).
     clean_op opts x"
  using OpenAI_ParseRequest_clean [of js now path body opts] OpenAI_ParseResponseJSON_clean [of js info body opts]
    OpenAI_onEvent_ops_clean [of js clk opts info ops] Anthropic_ParseRequest_clean [of ajs now path body opts]
    Anthropic_ParseResponseJSON_clean [of ajs info body opts] Anthropic_onEvent_ops_clean [of ajs clk opts info ops]
  by (simp only: set_append ball_Un simp_thms)

text \<open>
  With capture off, what is recorded for an OpenAI request does not depend on the prompt:
  two bodies that decode to requests differing only in their messages and embedding input leave
  the same \<open>Info\<close> and the same calls on the span.
\<close>

lemma uncaptured_request_independent:
  assumes "\<not> Capture opts" and "unmarshal_request js body = Some req"
    and "unmarshal_request js body' = Some (req\<lparr>or_Messages := msgs, or_Input := inp\<rparr>)"
  shows "OpenAI_ParseRequest js now path body opts = OpenAI_ParseRequest js now path body' opts"
  using assms
  by (cases "or_MaxComplTokens req") (simp_all add: OpenAI_ParseRequest_def Let_def openai_request_attrs_def)

text \<open>
  C38: For both families and any sequence of reads and closes on a wrapped stream, \<open>onDone\<close> runs
  exactly once if the stream ended or was closed and never otherwise, and \<open>onFirstToken\<close> runs at
  most once, provided \<open>Finished\<close> was not set before and the clock is.
\<close>

theorem stream_callbacks_once:
  assumes "time_IsZero (i_Finished info)" and "\<And>n. clk n \<noteq> zeroTime"
  shows "done_calls (snd (OpenAI_WrapStream js clk opts info ops)) = (if \<exists>x \<in> set ops. closing_op x then 1 else 0)
     \<and> first_calls (snd (OpenAI_WrapStream js clk opts info ops)) \<le> 1
     \<and> done_calls (snd (Anthropic_WrapStream ajs clk opts info ops)) = (if \<exists>x \<in> set ops. closing_op x then 1 else 0)
     \<and> first_calls (snd (Anthropic_WrapStream ajs clk opts info ops)) \<le> 1"
  unfolding OpenAI_WrapStream_def Anthropic_WrapStream_def
  using openai.stream_callbacks [where clk = clk, OF assms] anthropic.stream_callbacks [where clk = clk, OF assms]
  by blast

theorem stream_callbacks_once_witness:
  "done_calls (snd (OpenAI_WrapStream hello_json wall_clock \<lparr>Capture = False, Redact = None\<rparr> chat_info
      [Read ''data: x'' False, Read [] True, Close])) = 1"
proof -
  have "time_IsZero (i_Finished chat_info)" by (simp add: chat_info_def new_Info_def time_IsZero_def)
  from stream_callbacks_once [where clk = wall_clock and js = hello_json and ajs = stop_json
      and opts = "\<lparr>Capture = False, Redact = None\<rparr>"
      and ops = "[Read ''data: x'' False, Read [] True, Close]", OF this wall_clock_set]
  show ?thesis by simp
qed

text \<open>
  C39: What is extracted from a stream depends on its bytes and not on how they were read. For a
  body all of whose frames leave room in the buffer for one more read of \<open>n\<close> bytes and an
  unfinished terminator, and any two ways of cutting it into reads of at most \<open>n\<close> bytes, the usage,
  models, finish reasons, span calls and callbacks are the same, for both families.
\<close>

theorem stream_extraction_chunking:
  assumes "time_IsZero (i_Finished info)" and "\<And>n. clk n \<noteq> zeroTime"
    and "concat cs @ c = concat ds @ d" and "\<forall>x \<in> set (c # cs) \<union> set (d # ds). length x \<le> n"
    and "\<forall>f \<in> set (sse_frames (concat cs @ c)). length f + 3 + n \<le> maxEventBytes"
  shows "snd (OpenAI_WrapStream js clk opts info (map (\<lambda>c. Read c False) cs @ [Read c True]))
       = snd (OpenAI_WrapStream js clk opts info (map (\<lambda>c. Read c False) ds @ [Read d True]))
     \<and> snd (Anthropic_WrapStream ajs clk opts info (map (\<lambda>c. Read c False) cs @ [Read c True]))
       = snd (Anthropic_WrapStream ajs clk opts info (map (\<lambda>c. Read c False) ds @ [Read d True]))"
proof -
  have ov: "overflows (sse_run (newSSETee False) (map (\<lambda>c. Read c False) cs @ [Read c True])) = 0"
    "overflows (sse_run (newSSETee False) (map (\<lambda>c. Read c False) ds @ [Read d True])) = 0"
    using sse_run_fits [of c cs n] sse_run_fits [of d ds n] assms(3-5) by simp_all
  show ?thesis
    unfolding OpenAI_WrapStream_def Anthropic_WrapStream_def
    by (simp only: openai.stream_chunking [where clk = clk, OF assms(1,2) ov(1)]
        openai.stream_chunking [where clk = clk, OF assms(1,2) ov(2)]
        anthropic.stream_chunking [where clk = clk, OF assms(1,2) ov(1)]
        anthropic.stream_chunking [where clk = clk, OF assms(1,2) ov(2)] assms(3) simp_thms)
qed

theorem stream_extraction_chunking_witness:
  "snd (OpenAI_WrapStream hello_json wall_clock \<lparr>Capture = True, Redact = None\<rparr> chat_info
       [Read ''data: {'' False, Read ''}'' True])
   = snd (OpenAI_WrapStream hello_json wall_clock \<lparr>Capture = True, Redact = None\<rparr> chat_info [Read ''data: {}'' True])"
proof -
  have z: "time_IsZero (i_Finished chat_info)" by (simp add: chat_info_def new_Info_def time_IsZero_def)
  have same: "concat [''data: {''] @ ''}'' = concat [] @ ''data: {}''" by simp
  have short: "\<forall>x \<in> set (''}'' # [''data: {'']) \<union> set (''data: {}'' # []). length x \<le> 10" by simp
  have "sse_frames (concat [''data: {''] @ ''}'') = [''data: {}'']" by code_simp
  then have fits: "\<forall>f \<in> set (sse_frames (concat [''data: {''] @ ''}'')). length f + 3 + 10 \<le> maxEventBytes"
    by (simp add: maxEventBytes_def)
  from stream_extraction_chunking [where clk = wall_clock and js = hello_json and ajs = stop_json
      and opts = "\<lparr>Capture = True, Redact = None\<rparr>", OF z wall_clock_set same short fits]
  show ?thesis by simp
qed

text \<open>
  The OpenAI stream parser compares and assembles the raw JSON text of a delta's content, not
  the string it denotes: the customary opening chunk with empty content, whose raw text is two
  quote characters, counts as the first token and its quotes enter the assembled text.
\<close>

lemma openai_empty_delta_is_token:
  assumes "unmarshal_response js data = Some chunk" and "data \<noteq> []" and "data \<noteq> ''[DONE]''"
    and "os_Choices chunk = [c]" and "om_Content (oc_Delta c) = [CHR 0x22, CHR 0x22]" and "\<not> gotFirst st"
  shows "gotFirst (OpenAI_onEvent js clk opts data st)
     \<and> first_calls (OpenAI_onEvent js clk opts data st) = Suc (first_calls st)
     \<and> i_FirstTokenAt (st_info (OpenAI_onEvent js clk opts data st)) = clk (ticks st)
     \<and> assembled (OpenAI_onEvent js clk opts data st)
         = assembled st @ (if Capture opts then [CHR 0x22, CHR 0x22] else [])"
  using assms by (simp add: OpenAI_onEvent_def openai_choice_def first_token_def Let_def)

end
