(* ===== verification/Longest_Prefix.thy ===== *)
theory Longest_Prefix
  imports Prelude
begin

text \<open>
  Longest-prefix lookup as an interface. Both the routing table and the price trie promise it:
  \<open>entry t p\<close> is what the table holds under exactly the key \<open>p\<close>, \<open>lookup t s\<close> what a search for
  \<open>s\<close> finds. What the clients use follows here once, from the two laws.
\<close>

definition longest_key :: "(bytes \<Rightarrow> 'v option) \<Rightarrow> bytes \<Rightarrow> bytes \<Rightarrow> bool" where
  "longest_key g s p \<longleftrightarrow>
     prefix p s \<and> g p \<noteq> None \<and> (\<forall>q. prefix q s \<longrightarrow> g q \<noteq> None \<longrightarrow> length q \<le> length p)"

lemma longest_key_exists:
  assumes "prefix p s" and "g p \<noteq> None"
  shows "\<exists>q. longest_key g s q"
proof -
  have "\<forall>q. prefix q s \<and> g q \<noteq> None \<longrightarrow> length q < Suc (length s)"
    by (auto dest: prefix_length_le)
  then show ?thesis
    using ex_has_greatest_nat [of "\<lambda>q. prefix q s \<and> g q \<noteq> None" p length "Suc (length s)"] assms
    by (auto simp: longest_key_def)
qed

lemma prefix_within: "prefix q (s @ x) \<Longrightarrow> length q \<le> length s \<Longrightarrow> prefix q s"
  by (rule prefix_length_prefix [of q "s @ x"]) simp_all

lemma longest_key_unique:
  assumes "longest_key g s p" and "longest_key g s q"
  shows "p = q"
proof -
  have "length p = length q" "prefix p s" "prefix q s"
    using assms by (auto simp: longest_key_def intro: le_antisym)
  then show ?thesis by (metis prefix_length_prefix prefix_order.antisym order_refl)
qed

locale longest_prefix =
  fixes entry :: "'t \<Rightarrow> bytes \<Rightarrow> 'v option"
    and lookup :: "'t \<Rightarrow> bytes \<Rightarrow> 'v option"
  assumes lookup_longest: "longest_key (entry t) s p \<Longrightarrow> lookup t s = entry t p"
    and lookup_none: "\<forall>p. prefix p s \<longrightarrow> entry t p = None \<Longrightarrow> lookup t s = None"
begin

lemma lookup_Some_iff: "lookup t s = Some v \<longleftrightarrow> (\<exists>p. longest_key (entry t) s p \<and> entry t p = Some v)"
  by (metis longest_key_exists lookup_longest lookup_none option.distinct(1))

lemma lookup_None_iff: "lookup t s = None \<longleftrightarrow> (\<forall>p. prefix p s \<longrightarrow> entry t p = None)"
  by (metis longest_key_def longest_key_exists lookup_longest lookup_none)

text \<open>The search sees the table only through its entries.\<close>

lemma lookup_cong: "entry t = entry u \<Longrightarrow> lookup t s = lookup u s"
  by (metis longest_key_exists lookup_longest lookup_none)

text \<open>A longer search string finds the same entry unless a longer key starts it.\<close>

lemma lookup_extend:
  assumes "\<forall>q. prefix q (s @ x) \<longrightarrow> length s < length q \<longrightarrow> entry t q = None"
  shows "lookup t (s @ x) = lookup t s"
proof (cases "\<exists>p. prefix p s \<and> entry t p \<noteq> None")
  case True
  then obtain p0 where "prefix p0 s" "entry t p0 \<noteq> None" by blast
  from longest_key_exists [of p0 s "entry t", OF this]
  obtain p where p: "longest_key (entry t) s p" by blast
  have "prefix q s" if "prefix q (s @ x)" "entry t q \<noteq> None" for q
  proof (rule prefix_within [OF that(1)], rule ccontr)
    assume "\<not> length q \<le> length s"
    with assms that(1) have "entry t q = None" by simp
    with that(2) show False by simp
  qed
  then have "longest_key (entry t) (s @ x) p" using p by (auto simp: longest_key_def)
  then show ?thesis using p lookup_longest by simp
next
  case False
  have "entry t q = None" if "prefix q (s @ x)" for q
  proof (cases "length q \<le> length s")
    case True
    with False prefix_within [OF that] show ?thesis by blast
  next
    case False
    with assms that show ?thesis by simp
  qed
  then have "lookup t (s @ x) = None" by (intro lookup_none) simp
  moreover have "lookup t s = None" using False by (intro lookup_none) simp
  ultimately show ?thesis by simp
qed

end

end
