(* ===== verification/Pricing.thy ===== *)
theory Pricing
  imports Go_Strings Longest_Prefix "HOL-Library.AList"
begin

text \<open>
  The cost catalogue of \<open>src/internal/pricing/pricing.go\<close> and its built-in data
  \<open>prices.yaml\<close>: byte tries per system, longest-prefix lookup, the merge of an operator's
  override and the cost of a call.

  A Go map is the list of its entries in the order one iteration happens to visit them; the
  keys are distinct. Amounts are of any type \<open>'f\<close> with the arithmetic the source uses
  (\<open>flt\<close> converts a token count), so the definitions apply to \<open>float64\<close> as to exact numbers;
  the built-in catalogue is given in exact decimals.
\<close>

subsection \<open>Tries\<close>

record 'f Rate =
  InputUSDPerMTok :: 'f
  OutputUSDPerMTok :: 'f

datatype 'f trieNode = TrieNode "char \<Rightarrow> 'f trieNode option" "'f Rate option"

definition empty_node :: "'f trieNode" where
  "empty_node = TrieNode (\<lambda>_. None) None"

fun trie_insert :: "'f trieNode \<Rightarrow> bytes \<Rightarrow> 'f Rate \<Rightarrow> 'f trieNode" where
  "trie_insert (TrieNode children _) [] rate = TrieNode children (Some rate)"
| "trie_insert (TrieNode children r) (c # p) rate =
     (let next = (case children c of Some n \<Rightarrow> n | None \<Rightarrow> empty_node)
      in TrieNode (children(c \<mapsto> trie_insert next p rate)) r)"

text \<open>The loop of \<open>lookup\<close>: remember the rate of the current node, then step down.\<close>

fun trie_lookup_loop :: "'f Rate option \<Rightarrow> 'f trieNode \<Rightarrow> bytes \<Rightarrow> 'f Rate option" where
  "trie_lookup_loop best (TrieNode children r) [] = (if r \<noteq> None then r else best)"
| "trie_lookup_loop best (TrieNode children r) (c # m) =
     (let best = (if r \<noteq> None then r else best) in
      case children c of
        None \<Rightarrow> best
      | Some next \<Rightarrow> trie_lookup_loop best next m)"

definition trie_lookup :: "'f trieNode \<Rightarrow> bytes \<Rightarrow> 'f Rate option" where
  "trie_lookup rt model = trie_lookup_loop None rt model"

subsection \<open>Tables\<close>

type_synonym 'f models = "(bytes \<times> 'f Rate) list"
type_synonym 'f rates = "(bytes \<times> 'f models) list"

record 'f Table =
  tb_rates :: "'f rates"
  trees :: "bytes \<rightharpoonup> 'f trieNode"

definition build_trie :: "'f models \<Rightarrow> 'f trieNode" where
  "build_trie models = foldl (\<lambda>rt (prefix, rate). trie_insert rt prefix rate) empty_node models"

definition newTable :: "'f rates \<Rightarrow> 'f Table" where
  "newTable rates =
     \<lparr>tb_rates = rates, trees = map_of (map (\<lambda>(sys, models). (sys, build_trie models)) rates)\<rparr>"

datatype pricing_error = ReadPricing bytes | ParsePricing bytes

definition merge_models :: "'f models \<Rightarrow> 'f models \<Rightarrow> 'f models" where
  "merge_models base models = foldl (\<lambda>t (k, v). AList.update k v t) base models"

definition merge_step :: "'f rates \<Rightarrow> bytes \<times> 'f models \<Rightarrow> 'f rates" where
  "merge_step merged sm =
     (let (sys, models) = sm in
      AList.update sys
        (merge_models (case map_of merged sys of None \<Rightarrow> [] | Some t \<Rightarrow> t) models) merged)"

definition merge_rates :: "'f rates \<Rightarrow> 'f rates \<Rightarrow> 'f rates" where
  "merge_rates base override = foldl merge_step base override"

text \<open>\<open>Load\<close>; \<open>dflt\<close> is \<open>defaultTable\<close>, \<open>yaml\<close> is \<open>yaml.Unmarshal\<close> into a rate map.\<close>

definition pricing_Load ::
  "(bytes \<Rightarrow> bytes option) \<Rightarrow> (bytes \<Rightarrow> 'f rates option) \<Rightarrow> 'f Table \<Rightarrow> bytes \<Rightarrow> bool \<Rightarrow>
   pricing_error + 'f Table" where
  "pricing_Load read_file yaml dflt path failOpen =
     (if path = [] then Inr dflt
      else case read_file path of
             None \<Rightarrow> if failOpen then Inr dflt else Inl (ReadPricing path)
           | Some raw \<Rightarrow>
               (case yaml raw of
                  None \<Rightarrow> if failOpen then Inr dflt else Inl (ParsePricing path)
                | Some override \<Rightarrow> Inr (newTable (merge_rates (tb_rates dflt) override))))"

definition table_lookup :: "(bytes \<Rightarrow> bytes) \<Rightarrow> 'f Table \<Rightarrow> bytes \<Rightarrow> bytes \<Rightarrow> 'f Rate option" where
  "table_lookup uni t system model =
     (case trees t system of
        None \<Rightarrow> None
      | Some rt \<Rightarrow> trie_lookup rt (to_lower uni model))"

definition Cost ::
  "(bytes \<Rightarrow> bytes) \<Rightarrow> (int \<Rightarrow> 'f) \<Rightarrow> 'f Table \<Rightarrow> bytes \<Rightarrow> bytes \<Rightarrow> int \<Rightarrow> int \<Rightarrow>
   'f::{zero, numeral, times, inverse} \<times> bool" where
  "Cost uni flt t system model inputTokens outputTokens =
     (case table_lookup uni t system model of
        None \<Rightarrow> (0, False)
      | Some r \<Rightarrow>
          ((flt inputTokens / 1000000) * InputUSDPerMTok r
           + (flt outputTokens / 1000000) * OutputUSDPerMTok r, True))"

subsection \<open>The built-in catalogue\<close>

definition usd :: "rat \<Rightarrow> rat \<Rightarrow> rat Rate" where
  "usd i out = \<lparr>InputUSDPerMTok = i, OutputUSDPerMTok = out\<rparr>"

definition builtin_rates :: "rat rates" where
  "builtin_rates =
     [(''openai'',
       [(''gpt-4o-mini'', usd (150 / 1000) (600 / 1000)),
        (''gpt-4o'', usd (2500 / 1000) 10),
        (''gpt-4-turbo'', usd 10 30),
        (''gpt-4'', usd 30 60),
        (''gpt-3.5-turbo'', usd (500 / 1000) (1500 / 1000)),
        (''o1-mini'', usd 3 12),
        (''o1-preview'', usd 15 60),
        (''o1'', usd 15 60),
        (''o3-mini'', usd (1100 / 1000) (4400 / 1000)),
        (''text-embedding-3-small'', usd (20 / 1000) 0),
        (''text-embedding-3-large'', usd (130 / 1000) 0),
        (''text-embedding-ada-002'', usd (100 / 1000) 0)]),
      (''anthropic'',
       [(''claude-3-5-haiku'', usd (800 / 1000) 4),
        (''claude-3-5-sonnet'', usd 3 15),
        (''claude-3-opus'', usd 15 75),
        (''claude-3-sonnet'', usd 3 15),
        (''claude-3-haiku'', usd (250 / 1000) (1250 / 1000))])]"

definition defaultTable :: "rat Table" where
  "defaultTable = newTable builtin_rates"

subsection \<open>Tries hold what was inserted\<close>

fun trie_get :: "'f trieNode \<Rightarrow> bytes \<Rightarrow> 'f Rate option" where
  "trie_get (TrieNode children r) [] = r"
| "trie_get (TrieNode children r) (c # p) =
     (case children c of None \<Rightarrow> None | Some n \<Rightarrow> trie_get n p)"

lemma trie_get_empty [simp]: "trie_get empty_node p = None"
  by (cases p) (simp_all add: empty_node_def)

lemma trie_get_insert: "trie_get (trie_insert t p r) = (trie_get t)(p \<mapsto> r)"
proof (rule ext)
  fix q
  show "trie_get (trie_insert t p r) q = ((trie_get t)(p \<mapsto> r)) q"
  proof (induction t p r arbitrary: q rule: trie_insert.induct)
    case (1 children x rate)
    then show ?case by (cases q) auto
  next
    case (2 children x c p rate)
    then show ?case by (cases q) (auto simp: Let_def split: option.splits)
  qed
qed

lemma trie_get_fold:
  "trie_get (foldl (\<lambda>rt (p, r). trie_insert rt p r) t ms) = trie_get t ++ map_of (rev ms)"
proof (induction ms arbitrary: t)
  case (Cons x ms)
  then show ?case by (cases x) (auto simp: trie_get_insert map_add_def fun_eq_iff split: option.split)
qed simp

lemma trie_get_build:
  assumes "distinct (map fst ms)"
  shows "trie_get (build_trie ms) = map_of ms"
proof -
  have "trie_get (build_trie ms) = map_of (rev ms)"
    using trie_get_fold [of empty_node ms]
    by (simp add: build_trie_def fun_eq_iff map_add_def split: option.split)
  then show ?thesis using map_of_rev_distinct [OF assms] by simp
qed

subsection \<open>Lookup finds the longest prefix\<close>

lemma trie_lookup_loop_none:
  "(\<And>p. prefix p m \<Longrightarrow> trie_get t p = None) \<Longrightarrow> trie_lookup_loop best t m = best"
proof (induction best t m rule: trie_lookup_loop.induct)
  case (1 best children r)
  from "1" [of "[]"] show ?case by simp
next
  case (2 best children r c m)
  have r: "r = None" using "2.prems" [of "[]"] by simp
  show ?case
  proof (cases "children c")
    case (Some n)
    have "trie_get n p = None" if "prefix p m" for p
      using "2.prems" [of "c # p"] that Some by simp
    then show ?thesis using "2.IH" [OF refl Some] Some r by simp
  qed (simp add: r)
qed

lemma trie_lookup_loop_longest:
  assumes "longest_key (trie_get t) m p"
  shows "trie_lookup_loop best t m = trie_get t p"
  using assms
proof (induction p arbitrary: best t m)
  case Nil
  obtain children r where t: "t = TrieNode children r" by (cases t)
  have r: "r \<noteq> None" using Nil by (simp add: longest_key_def t)
  have none: "trie_get t (c # q) = None" if "prefix (c # q) m" for c q
    using Nil that by (force simp: longest_key_def)
  show ?case
  proof (cases m)
    case (Cons c m')
    show ?thesis
    proof (cases "children c")
      case (Some n)
      have "trie_lookup_loop r n m' = r"
        by (rule trie_lookup_loop_none) (use none [of c] Some Cons in \<open>auto simp: t\<close>)
      with Some Cons r show ?thesis by (simp add: t)
    qed (simp add: t Cons r)
  qed (simp add: t r)
next
  case (Cons c p)
  obtain children r where t: "t = TrieNode children r" by (cases t)
  obtain m' where m: "m = c # m'" using Cons.prems by (auto simp: longest_key_def prefix_def)
  obtain n where n: "children c = Some n" "trie_get n p \<noteq> None"
    using Cons.prems by (auto simp: longest_key_def t split: option.splits)
  have "longest_key (trie_get n) m' p"
    unfolding longest_key_def
  proof (intro conjI allI impI)
    show "prefix p m'" "trie_get n p \<noteq> None" using Cons.prems n by (auto simp: longest_key_def m)
    fix q assume "prefix q m'" "trie_get n q \<noteq> None"
    then have "prefix (c # q) m" "trie_get t (c # q) \<noteq> None" using n by (auto simp: m t)
    then have "length (c # q) \<le> length (c # p)" using Cons.prems unfolding longest_key_def by blast
    then show "length q \<le> length p" by simp
  qed
  from Cons.IH [OF this] n show ?case by (simp add: t m)
qed

interpretation trie: longest_prefix trie_get trie_lookup
proof unfold_locales
  fix t :: "'f trieNode" and s p :: bytes
  show "trie_lookup t s = trie_get t p" if "longest_key (trie_get t) s p"
    using trie_lookup_loop_longest [OF that] by (simp add: trie_lookup_def)
  show "trie_lookup t s = None" if "\<forall>p. prefix p s \<longrightarrow> trie_get t p = None"
    using trie_lookup_loop_none [of s t None] that by (simp add: trie_lookup_def)
qed

subsection \<open>Tables\<close>

definition wf_rates :: "'f rates \<Rightarrow> bool" where
  "wf_rates rates \<longleftrightarrow> distinct (map fst rates) \<and> (\<forall>(sys, ms) \<in> set rates. distinct (map fst ms))"

definition rate_of :: "'f rates \<Rightarrow> bytes \<Rightarrow> bytes \<Rightarrow> 'f Rate option" where
  "rate_of rates sys p = (case map_of rates sys of None \<Rightarrow> None | Some ms \<Rightarrow> map_of ms p)"

lemma trees_newTable: "trees (newTable rates) sys = map_option build_trie (map_of rates sys)"
  by (simp add: newTable_def map_of_map)

lemma newTable_rates [simp]: "tb_rates (newTable rates) = rates"
  by (simp add: newTable_def)

lemma wf_rates_models: "wf_rates rates \<Longrightarrow> map_of rates sys = Some ms \<Longrightarrow> distinct (map fst ms)"
  by (auto simp: wf_rates_def dest: map_of_SomeD)

lemma table_lookup_iff:
  assumes "wf_rates rates"
  shows "table_lookup uni (newTable rates) sys model = Some r \<longleftrightarrow>
     (\<exists>p. longest_key (rate_of rates sys) (to_lower uni model) p \<and> rate_of rates sys p = Some r)"
proof (cases "map_of rates sys")
  case None
  then show ?thesis
    by (simp add: table_lookup_def trees_newTable rate_of_def longest_key_def)
next
  case (Some ms)
  then have "trie_get (build_trie ms) = rate_of rates sys"
    using wf_rates_models [OF assms Some] by (simp add: trie_get_build rate_of_def fun_eq_iff)
  with Some show ?thesis
    by (simp add: table_lookup_def trees_newTable trie.lookup_Some_iff)
qed

lemma table_lookup_cong:
  assumes "wf_rates rates" and "wf_rates rates'" and "rate_of rates sys = rate_of rates' sys"
  shows "table_lookup uni (newTable rates) sys model = table_lookup uni (newTable rates') sys model"
  using table_lookup_iff [OF assms(1)] table_lookup_iff [OF assms(2)] assms(3)
  by (metis not_Some_eq)

lemma merge_models_map_of: "map_of (merge_models base ms) = map_of base ++ map_of (rev ms)"
  unfolding merge_models_def
proof (induction ms arbitrary: base)
  case (Cons x ms)
  then show ?case
    by (cases x) (auto simp: update_conv' map_add_def fun_eq_iff split: option.split)
qed simp

lemma merge_models_distinct: "distinct (map fst base) \<Longrightarrow> distinct (map fst (merge_models base ms))"
  unfolding merge_models_def
  by (rule foldl_invariant) (auto intro: distinct_update split: prod.split)

lemma set_alist_update: "set (AList.update k v al) \<subseteq> insert (k, v) (set al)"
  by (induction al) auto

lemma merge_step_wf:
  assumes "wf_rates merged"
  shows "wf_rates (merge_step merged (sys, ms))"
proof -
  let ?b = "case map_of merged sys of None \<Rightarrow> [] | Some t \<Rightarrow> t"
  have d: "distinct (map fst (merge_models ?b ms))"
    using assms by (intro merge_models_distinct) (auto dest: wf_rates_models split: option.split)
  have "set (merge_step merged (sys, ms)) \<subseteq> insert (sys, merge_models ?b ms) (set merged)"
    unfolding merge_step_def Let_def prod.case by (rule set_alist_update)
  moreover have "distinct (map fst (merge_step merged (sys, ms)))"
    using assms by (simp add: wf_rates_def merge_step_def distinct_update)
  ultimately show ?thesis
    using assms d unfolding wf_rates_def by blast
qed

lemma merge_step_rate:
  "rate_of (merge_step merged (sys', ms)) sys p =
     (if sys = sys' then (case map_of (rev ms) p of Some r \<Rightarrow> Some r | None \<Rightarrow> rate_of merged sys p)
      else rate_of merged sys p)"
  by (simp add: rate_of_def merge_step_def update_conv' merge_models_map_of map_add_def
      split: option.split)

lemma merge_rates_wf: "wf_rates base \<Longrightarrow> wf_rates (merge_rates base over)"
  unfolding merge_rates_def by (rule foldl_invariant) (auto simp: merge_step_wf)

lemma rate_of_Cons:
  "rate_of ((sys', ms) # rates) sys p = (if sys = sys' then map_of ms p else rate_of rates sys p)"
  by (simp add: rate_of_def)

lemma merge_rates_rate:
  "wf_rates over \<Longrightarrow> rate_of (merge_rates base over) sys p =
     (case rate_of over sys p of Some r \<Rightarrow> Some r | None \<Rightarrow> rate_of base sys p)"
  unfolding merge_rates_def
proof (induction over arbitrary: base)
  case Nil
  then show ?case by (simp add: rate_of_def)
next
  case (Cons x over)
  obtain sys' ms where x: "x = (sys', ms)" by (cases x)
  have w: "wf_rates over" "sys' \<notin> fst ` set over" "distinct (map fst ms)"
    using Cons.prems by (auto simp: wf_rates_def x)
  have none: "rate_of over sys' p = None"
    using w(2) map_of_eq_None_iff [of over sys'] by (simp add: rate_of_def)
  have "rate_of (foldl merge_step base (x # over)) sys p =
     (case rate_of over sys p of Some r \<Rightarrow> Some r | None \<Rightarrow> rate_of (merge_step base (sys', ms)) sys p)"
    using Cons.IH [OF w(1)] by (simp add: x)
  then show ?case
    using none map_of_rev_distinct [OF w(3)]
    by (cases "sys = sys'") (simp_all add: merge_step_rate x rate_of_Cons split: option.split)
qed

definition layered :: "'f rates \<Rightarrow> 'f rates \<Rightarrow> bytes \<Rightarrow> bytes \<Rightarrow> 'f Rate option" where
  "layered base over sys p =
     (case rate_of over sys p of Some r \<Rightarrow> Some r | None \<Rightarrow> rate_of base sys p)"

lemma builtin_wf: "wf_rates builtin_rates"
  by (simp add: wf_rates_def builtin_rates_def)

definition example_override :: "rat rates" where
  "example_override = [(''openai'', [(''gpt-4o'', usd 2 8)]), (''local'', [(''llama'', usd 0 0)])]"

lemma example_override_wf: "wf_rates example_override"
  by (simp add: wf_rates_def example_override_def)

subsection \<open>Properties\<close>

text \<open>
  C35: A table built from a rate map prices a model by the longest configured prefix of its
  lower-cased name: the lookup returns a rate exactly when some prefix is configured for the
  system, and it is the rate of the longest one.
\<close>

theorem table_lookup_longest:
  assumes "wf_rates rates"
  shows "table_lookup uni (newTable rates) sys model = Some r \<longleftrightarrow>
     (\<exists>p. longest_key (rate_of rates sys) (to_lower uni model) p \<and> rate_of rates sys p = Some r)"
  using assms by (rule table_lookup_iff)

theorem table_lookup_longest_witness:
  "table_lookup id (newTable builtin_rates) ''openai'' ''GPT-4o-mini-2024-07-18''
     = Some (usd (150 / 1000) (600 / 1000))
   \<longleftrightarrow> (\<exists>p. longest_key (rate_of builtin_rates ''openai'') ''gpt-4o-mini-2024-07-18'' p
          \<and> rate_of builtin_rates ''openai'' p = Some (usd (150 / 1000) (600 / 1000)))"
proof -
  have "to_lower id ''GPT-4o-mini-2024-07-18'' = ''gpt-4o-mini-2024-07-18''" by code_simp
  then show ?thesis
    using table_lookup_longest [OF builtin_wf, of id "''openai''" "''GPT-4o-mini-2024-07-18''"] by simp
qed

text \<open>
  The order in which Go's map iteration visits systems and prefixes while the tries are
  built has no effect on any lookup.
\<close>

lemma table_order_irrelevant:
  assumes "wf_rates rates" and "wf_rates rates'" and "\<forall>sys p. rate_of rates sys p = rate_of rates' sys p"
  shows "table_lookup uni (newTable rates) sys model = table_lookup uni (newTable rates') sys model"
  using assms by (intro table_lookup_cong) auto

text \<open>
  C36: A configured override that can be read and parsed is always applied, \<open>fail_open\<close> or not:
  every lookup in the loaded table is priced by the longest prefix of the lower-cased model name
  among the override's prefixes and the built-in ones together, with the override's rate where
  both have the prefix. Only without a path, or under \<open>fail_open\<close> when the file cannot be read or
  parsed, is the table the built-in one; otherwise the error says which of the two failed.
\<close>

theorem pricing_Load_merge:
  assumes "\<forall>raw rates. yaml raw = Some rates \<longrightarrow> wf_rates rates" and "wf_rates (tb_rates dflt)"
  shows "case pricing_Load read_file yaml dflt path failOpen of
       Inl e \<Rightarrow> path \<noteq> [] \<and> \<not> failOpen \<and> Option.bind (read_file path) yaml = None \<and>
         e = (if read_file path = None then ReadPricing path else ParsePricing path)
     | Inr t \<Rightarrow>
         (case (if path = [] then None else Option.bind (read_file path) yaml) of
            None \<Rightarrow> t = dflt \<and> (path = [] \<or> failOpen)
          | Some over \<Rightarrow> \<forall>uni sys model r. table_lookup uni t sys model = Some r \<longleftrightarrow>
              (\<exists>p. longest_key (layered (tb_rates dflt) over sys) (to_lower uni model) p
                 \<and> layered (tb_rates dflt) over sys p = Some r))"
proof (cases "path = [] \<or> Option.bind (read_file path) yaml = None")
  case True
  then show ?thesis by (cases "read_file path") (auto simp: pricing_Load_def split: option.split)
next
  case False
  then obtain raw over where f: "path \<noteq> []" "read_file path = Some raw" "yaml raw = Some over"
    by (cases "read_file path") auto
  then have "wf_rates over" using assms(1) by blast
  then have "rate_of (merge_rates (tb_rates dflt) over) = layered (tb_rates dflt) over"
    by (simp add: fun_eq_iff merge_rates_rate layered_def)
  with f table_lookup_iff [OF merge_rates_wf [OF assms(2), of over]] show ?thesis
    by (simp add: pricing_Load_def)
qed

theorem pricing_Load_merge_witness:
  "case pricing_Load (\<lambda>_. Some []) (\<lambda>_. Some example_override) defaultTable ''p.yaml'' True of
     Inl e \<Rightarrow> False
   | Inr t \<Rightarrow> \<forall>uni sys model r. table_lookup uni t sys model = Some r \<longleftrightarrow>
       (\<exists>p. longest_key (layered builtin_rates example_override sys) (to_lower uni model) p
          \<and> layered builtin_rates example_override sys p = Some r)"
proof -
  have y: "\<forall>raw rates. (\<lambda>_::bytes. Some example_override) raw = Some rates \<longrightarrow> wf_rates rates"
    using example_override_wf by simp
  have d: "wf_rates (tb_rates defaultTable)" by (simp add: defaultTable_def builtin_wf)
  from pricing_Load_merge [OF y d, where read_file = "\<lambda>_. Some []" and path = "''p.yaml''"
      and failOpen = True]
  show ?thesis by (simp add: defaultTable_def split: sum.splits)
qed

text \<open>
  The model name is lower-cased before the search but the configured prefixes are not: a
  prefix with an upper-case letter in an operator's override can never match an ASCII model
  name, so adding such a key changes no lookup.
\<close>

lemma uppercase_prefix_never_matches:
  assumes "wf_rates rates" and "wf_rates rates'" and "is_ascii model"
    and "\<forall>p. rate_of rates sys p \<noteq> rate_of rates' sys p \<longrightarrow> (\<exists>c \<in> set p. ascii_lower c \<noteq> c)"
  shows "table_lookup uni (newTable rates) sys model = table_lookup uni (newTable rates') sys model"
proof -
  let ?m = "to_lower uni model"
  have low: "\<forall>c \<in> set ?m. ascii_lower c = c" using assms(3) by (simp add: to_lower_def)
  have same: "rate_of rates sys p = rate_of rates' sys p" if "prefix p ?m" for p
    using that low assms(4) by (meson in_mono set_mono_prefix)
  then have "longest_key (rate_of rates sys) ?m p \<longleftrightarrow> longest_key (rate_of rates' sys) ?m p" for p
    by (auto simp: longest_key_def)
  then show ?thesis
    using same table_lookup_iff [OF assms(1)] table_lookup_iff [OF assms(2)]
    by (metis (no_types, lifting) longest_key_def not_Some_eq)
qed

end
