(* ===== verification/Labels.thy ===== *)
theory Labels
  imports Go_Strings "HOL-Library.Multiset"
begin

text \<open>
  The metric-label bound of \<open>src/internal/labels/labels.go\<close>. \<open>Normalize\<close> is the function as one
  goroutine runs it alone. It is also given as a sequence of atomic steps on the shared
  \<open>sync.Map\<close> and the atomic counter, and \<open>label_step\<close> interleaves any number of goroutines,
  because the source relies on a post-check after a race.
\<close>

subsection \<open>Normalisation\<close>

definition OtherLabel :: bytes where
  "OtherLabel = ''_other''"

definition DefaultMaxCardinality :: int where
  "DefaultMaxCardinality = 200"

text \<open>
  What follows the hyphen in a match of the pattern: a dashed date, eight digits, or a \<open>v\<close> and
  digits, up to the end of the text.
\<close>

definition is_date_suffix :: "bytes \<Rightarrow> bool" where
  "is_date_suffix r \<longleftrightarrow>
     (case split_on CHR ''-'' r of
        [y, m, d] \<Rightarrow> length y = 4 \<and> length m = 2 \<and> length d = 2
                     \<and> list_all is_digit y \<and> list_all is_digit m \<and> list_all is_digit d
      | _ \<Rightarrow> False)
     \<or> (length r = 8 \<and> list_all is_digit r)
     \<or> (case r of v # ds \<Rightarrow> v = CHR ''v'' \<and> ds \<noteq> [] \<and> list_all is_digit ds | [] \<Rightarrow> False)"

text \<open>\<open>dateSuffix.ReplaceAllString(s, "")\<close>: the leftmost match runs to the end.\<close>

fun strip_date :: "bytes \<Rightarrow> bytes" where
  "strip_date [] = []"
| "strip_date (c # s) = (if c = CHR ''-'' \<and> is_date_suffix s then [] else c # strip_date s)"

record ModelLabel =
  ml_cap :: int
  observed :: "bytes set"
  ml_size :: int

definition NewModelLabel :: "int \<Rightarrow> ModelLabel" where
  "NewModelLabel maxCardinality =
     \<lparr>ml_cap = (if maxCardinality \<le> 0 then DefaultMaxCardinality else maxCardinality),
      observed = {}, ml_size = 0\<rparr>"

definition norm_of :: "(bytes \<Rightarrow> bytes) \<Rightarrow> bytes \<Rightarrow> bytes" where
  "norm_of uni model = strip_date (to_lower uni model)"

definition Normalize :: "(bytes \<Rightarrow> bytes) \<Rightarrow> ModelLabel \<Rightarrow> bytes \<Rightarrow> bytes \<times> ModelLabel" where
  "Normalize uni m model =
     (if model = [] then ([], m)
      else
        (let norm = norm_of uni model in
         if norm \<in> observed m then (norm, m)
         else if ml_size m \<ge> ml_cap m then (OtherLabel, m)
         else if norm \<in> observed m then (norm, m)
         else
           (let m = m\<lparr>observed := insert norm (observed m)\<rparr>;
                m = m\<lparr>ml_size := ml_size m + 1\<rparr>
            in if ml_size m > ml_cap m then
                 (OtherLabel, m\<lparr>observed := observed m - {norm}, ml_size := ml_size m - 1\<rparr>)
               else (norm, m))))"

definition AcceptedCount :: "ModelLabel \<Rightarrow> int" where
  "AcceptedCount m = ml_size m"

subsection \<open>Atomic steps\<close>

text \<open>
  Where a goroutine stands: before the \<open>Load\<close>, the size check, the \<open>LoadOrStore\<close>, the \<open>Add(1)\<close>,
  the \<open>Delete\<close>, the \<open>Add(-1)\<close>, or done with the label it returned.
\<close>

datatype label_pc = AtLoad | AtSize | AtStore | AtAdd | AtDelete | AtSub | Done bytes

fun norm_step :: "bytes \<Rightarrow> ModelLabel \<times> label_pc \<Rightarrow> ModelLabel \<times> label_pc" where
  "norm_step n (m, AtLoad) = (m, if n \<in> observed m then Done n else AtSize)"
| "norm_step n (m, AtSize) = (m, if ml_size m \<ge> ml_cap m then Done OtherLabel else AtStore)"
| "norm_step n (m, AtStore) =
     (if n \<in> observed m then (m, Done n) else (m\<lparr>observed := insert n (observed m)\<rparr>, AtAdd))"
| "norm_step n (m, AtAdd) =
     (m\<lparr>ml_size := ml_size m + 1\<rparr>, if ml_size m + 1 > ml_cap m then AtDelete else Done n)"
| "norm_step n (m, AtDelete) = (m\<lparr>observed := observed m - {n}\<rparr>, AtSub)"
| "norm_step n (m, AtSub) = (m\<lparr>ml_size := ml_size m - 1\<rparr>, Done OtherLabel)"
| "norm_step n (m, Done l) = (m, Done l)"

type_synonym goroutine = "bytes \<times> label_pc"
type_synonym label_sys = "ModelLabel \<times> goroutine multiset"

inductive label_step :: "label_sys \<Rightarrow> label_sys \<Rightarrow> bool" where
  spawn: "label_step (m, G) (m, add_mset (n, AtLoad) G)"
| move: "norm_step n (m, pc) = (m', pc') \<Longrightarrow>
     label_step (m, add_mset (n, pc) G) (m', add_mset (n, pc') G)"

inductive label_reach :: "int \<Rightarrow> label_sys \<Rightarrow> bool" for cap where
  start: "label_reach cap (NewModelLabel cap, {#})"
| step: "label_reach cap s \<Longrightarrow> label_step s t \<Longrightarrow> label_reach cap t"

text \<open>A goroutine alone takes at most six steps, and they compute \<open>Normalize\<close>.\<close>

lemma Normalize_steps:
  assumes "model \<noteq> []"
  shows "(norm_step (norm_of uni model) ^^ 6) (m, AtLoad) =
     (snd (Normalize uni m model), Done (fst (Normalize uni m model)))"
  using assms by (simp add: Normalize_def Let_def numeral_eq_Suc)

subsection \<open>The invariant\<close>

definition at_pc :: "label_pc \<Rightarrow> goroutine multiset \<Rightarrow> int" where
  "at_pc pc G = int (size (filter_mset (\<lambda>g. snd g = pc) G))"

definition owns :: "goroutine \<Rightarrow> bool" where
  "owns g \<longleftrightarrow> snd g = AtAdd \<or> snd g = AtDelete"

definition owned :: "goroutine multiset \<Rightarrow> bytes multiset" where
  "owned G = image_mset fst (filter_mset owns G)"

text \<open>
  Between its \<open>LoadOrStore\<close> and its \<open>Delete\<close> a goroutine is the only owner of its key; the
  counter is the number of keys, corrected for goroutines between two writes; and the keys
  nobody is about to take back number at most the cap.
\<close>

definition label_inv :: "int \<Rightarrow> label_sys \<Rightarrow> bool" where
  "label_inv c s \<longleftrightarrow>
     (let (m, G) = s in
      ml_cap m = c \<and> 0 < c \<and> finite (observed m)
      \<and> set_mset (owned G) \<subseteq> observed m \<and> (\<forall>x. count (owned G) x \<le> 1)
      \<and> ml_size m = int (card (observed m)) - at_pc AtAdd G + at_pc AtSub G
      \<and> int (card (observed m)) - at_pc AtAdd G - at_pc AtDelete G \<le> c)"

lemma at_pc_add [simp]:
  "at_pc pc (add_mset g G) = (if snd g = pc then 1 else 0) + at_pc pc G"
  by (simp add: at_pc_def)

lemma at_pc_nonneg [simp]: "0 \<le> at_pc pc G"
  by (simp add: at_pc_def)

lemma owned_add [simp]:
  "owned (add_mset g G) = (if owns g then add_mset (fst g) (owned G) else owned G)"
  by (simp add: owned_def)

lemma owns_simps [simp]:
  "owns (n, AtAdd)" "owns (n, AtDelete)" "\<not> owns (n, AtLoad)" "\<not> owns (n, AtSize)"
  "\<not> owns (n, AtStore)" "\<not> owns (n, AtSub)" "\<not> owns (n, Done l)"
  by (simp_all add: owns_def)

lemma owned_unique:
  assumes "\<forall>x. count (add_mset n K) x \<le> 1"
  shows "n \<notin># K" "\<forall>x. count K x \<le> 1"
proof -
  from assms have "count (add_mset n K) n \<le> 1" by blast
  then show "n \<notin># K" by (simp add: count_greater_zero_iff [symmetric])
  show "\<forall>x. count K x \<le> 1"
    using assms by (metis count_add_mset le_Suc_eq not_less_eq_eq)
qed

lemma owned_add_unique:
  "n \<notin># K \<Longrightarrow> \<forall>x. count K x \<le> 1 \<Longrightarrow> \<forall>x. count (add_mset n K) x \<le> 1"
  by (simp add: not_in_iff)

lemma label_inv_move:
  assumes "label_inv c (m, add_mset (n, pc) G)" and "norm_step n (m, pc) = (m', pc')"
  shows "label_inv c (m', add_mset (n, pc') G)"
proof (cases pc)
  case AtStore
  have "n \<notin># owned G" if "n \<notin> observed m"
    using assms(1) that by (auto simp: label_inv_def AtStore)
  then show ?thesis
    using assms AtStore by (auto simp: label_inv_def owned_add_unique not_in_iff split: if_splits)
next
  case AtAdd
  then show ?thesis
    using assms owned_unique [of n "owned G"] at_pc_nonneg [of AtSub G] at_pc_nonneg [of AtDelete G]
    by (auto simp: label_inv_def owned_add_unique simp del: at_pc_nonneg split: if_splits)
next
  case AtDelete
  have "n \<in> observed m" "n \<notin># owned G" "\<forall>x. count (owned G) x \<le> 1"
    using assms(1) owned_unique [of n "owned G"] by (auto simp: label_inv_def AtDelete)
  moreover from this(1) have "int (card (observed m - {n})) = int (card (observed m)) - 1"
    using assms(1) card.remove [of "observed m" n] by (simp add: label_inv_def)
  ultimately show ?thesis
    using assms AtDelete by (auto simp: label_inv_def simp del: card_Diff_insert)
qed (use assms in \<open>auto simp: label_inv_def split: if_splits\<close>)

lemma label_inv_step: "label_step s t \<Longrightarrow> label_inv c s \<Longrightarrow> label_inv c t"
proof (induction rule: label_step.induct)
  case (spawn m G n)
  then show ?case by (simp add: label_inv_def)
next
  case (move n m pc m' pc' G)
  then show ?case using label_inv_move by blast
qed

lemma label_reach_inv: "label_reach cap s \<Longrightarrow> label_inv (ml_cap (NewModelLabel cap)) s"
proof (induction rule: label_reach.induct)
  case start
  show ?case
    by (simp add: label_inv_def NewModelLabel_def DefaultMaxCardinality_def owned_def at_pc_def)
next
  case (step s t)
  then show ?case using label_inv_step by blast
qed

definition quiescent :: "goroutine multiset \<Rightarrow> bool" where
  "quiescent G \<longleftrightarrow> (\<forall>g \<in># G. \<exists>l. snd g = Done l)"

lemma quiescent_at_pc: "quiescent G \<Longrightarrow> (\<And>l. pc \<noteq> Done l) \<Longrightarrow> at_pc pc G = 0"
  by (auto simp: quiescent_def at_pc_def filter_mset_eq_mempty_iff)

subsection \<open>Sequential use\<close>

fun normalize_all :: "(bytes \<Rightarrow> bytes) \<Rightarrow> ModelLabel \<Rightarrow> bytes list \<Rightarrow> bytes list \<times> ModelLabel" where
  "normalize_all uni m [] = ([], m)"
| "normalize_all uni m (x # xs) =
     (let (l, m) = Normalize uni m x; (ls, m) = normalize_all uni m xs in (l # ls, m))"

definition label_wf :: "ModelLabel \<Rightarrow> bool" where
  "label_wf m \<longleftrightarrow> finite (observed m) \<and> ml_size m = int (card (observed m)) \<and> ml_size m \<le> ml_cap m"

lemma Normalize_wf:
  assumes "label_wf m" and "Normalize uni m x = (l, m')"
  shows "label_wf m' \<and> ml_cap m' = ml_cap m \<and> observed m \<subseteq> observed m'
     \<and> (l \<in> observed m' \<or> l = [] \<or> l = OtherLabel)"
  using assms by (auto simp: Normalize_def label_wf_def Let_def split: if_splits)

lemma normalize_all_wf:
  "label_wf m \<Longrightarrow> normalize_all uni m xs = (ls, m') \<Longrightarrow>
   label_wf m' \<and> ml_cap m' = ml_cap m \<and> observed m \<subseteq> observed m'
   \<and> set ls \<subseteq> observed m' \<union> {[], OtherLabel}"
proof (induction xs arbitrary: m ls)
  case (Cons x xs)
  obtain l m1 where n: "Normalize uni m x = (l, m1)" by fastforce
  obtain ls1 where r: "normalize_all uni m1 xs = (ls1, m')" and ls: "ls = l # ls1"
    using Cons.prems(2) n by (auto split: prod.splits)
  note a = Normalize_wf [OF Cons.prems(1) n]
  then have "label_wf m1" by simp
  from Cons.IH [OF this r] a show ?case by (auto simp: ls)
qed simp

lemma NewModelLabel_wf: "label_wf (NewModelLabel cap)"
  by (simp add: NewModelLabel_def label_wf_def DefaultMaxCardinality_def)

subsection \<open>Properties\<close>

text \<open>
  C27: Whatever the interleaving of any number of concurrent \<open>Normalize\<close> calls, the admitted keys
  that no goroutine is about to withdraw never exceed the cap; and when all calls have
  returned, the counter equals the number of keys in the map and is at most the cap: the
  post-check trims every overshoot.
\<close>

theorem label_cap_concurrent:
  assumes "label_reach cap (m, G)"
  shows "int (card (observed m)) - at_pc AtAdd G - at_pc AtDelete G \<le> ml_cap (NewModelLabel cap)
     \<and> (quiescent G \<longrightarrow> AcceptedCount m = int (card (observed m))
          \<and> AcceptedCount m \<le> ml_cap (NewModelLabel cap))"
proof -
  have inv: "label_inv (ml_cap (NewModelLabel cap)) (m, G)" using label_reach_inv [OF assms] .
  moreover have "at_pc AtAdd G = 0" "at_pc AtSub G = 0" "at_pc AtDelete G = 0" if "quiescent G"
    using quiescent_at_pc [OF that] by simp_all
  ultimately show ?thesis by (auto simp: label_inv_def AcceptedCount_def)
qed

text \<open>
  A race at cap 1: two goroutines store different keys before either counts; the second finds
  itself over the cap, but before it withdraws its key a third goroutine sees the key.
\<close>

definition race_end :: label_sys where
  "race_end = (\<lparr>ml_cap = 1, observed = {''a''}, ml_size = 1\<rparr>,
     {#(''a'', Done ''a''), (''b'', Done OtherLabel), (''b'', Done ''b'')#})"

lemma label_move:
  "label_reach cap (m, add_mset (n, pc) G) \<Longrightarrow> norm_step n (m, pc) = (m', pc') \<Longrightarrow>
   label_reach cap (m', add_mset (n, pc') G)"
  using label_reach.step label_step.move by blast

lemma label_spawn: "label_reach cap (m, G) \<Longrightarrow> label_reach cap (m, add_mset (n, AtLoad) G)"
  using label_reach.step label_step.spawn by blast

lemma race_end_reach: "label_reach 1 race_end"
proof -
  let ?m0 = "\<lparr>ml_cap = 1, observed = {}, ml_size = 0\<rparr>"
  let ?m2 = "\<lparr>ml_cap = 1, observed = {''b'', ''a''}, ml_size = 0\<rparr>"
  have "label_reach 1 (?m0, {#})" using label_reach.start [of 1] by (simp add: NewModelLabel_def)
  then have "label_reach 1 (?m0, {#(''a'', AtLoad)#})" by (rule label_spawn)
  then have "label_reach 1 (?m0, {#(''a'', AtSize)#})" by (rule label_move) simp
  then have "label_reach 1 (?m0, {#(''a'', AtStore)#})" by (rule label_move) simp
  then have "label_reach 1 (?m0, {#(''b'', AtLoad), (''a'', AtStore)#})" by (rule label_spawn)
  then have "label_reach 1 (?m0, {#(''b'', AtSize), (''a'', AtStore)#})" by (rule label_move) simp
  then have "label_reach 1 (?m0, {#(''b'', AtStore), (''a'', AtStore)#})" by (rule label_move) simp
  then have "label_reach 1 (?m0, {#(''a'', AtStore), (''b'', AtStore)#})" by (simp add: add_mset_commute)
  then have "label_reach 1 (?m0\<lparr>observed := {''a''}\<rparr>, {#(''a'', AtAdd), (''b'', AtStore)#})"
    by (rule label_move) simp
  then have "label_reach 1 (?m0\<lparr>observed := {''a''}\<rparr>, {#(''b'', AtStore), (''a'', AtAdd)#})"
    by (simp add: add_mset_commute)
  then have "label_reach 1 (?m2, {#(''b'', AtAdd), (''a'', AtAdd)#})" by (rule label_move) simp
  then have "label_reach 1 (?m2, {#(''a'', AtAdd), (''b'', AtAdd)#})" by (simp add: add_mset_commute)
  then have "label_reach 1 (?m2\<lparr>ml_size := 1\<rparr>, {#(''a'', Done ''a''), (''b'', AtAdd)#})"
    by (rule label_move) simp
  then have "label_reach 1 (?m2\<lparr>ml_size := 1\<rparr>, {#(''b'', AtAdd), (''a'', Done ''a'')#})"
    by (simp add: add_mset_commute)
  then have "label_reach 1 (?m2\<lparr>ml_size := 2\<rparr>, {#(''b'', AtDelete), (''a'', Done ''a'')#})"
    by (rule label_move) simp
  then have "label_reach 1 (?m2\<lparr>ml_size := 2\<rparr>, {#(''b'', AtLoad), (''b'', AtDelete), (''a'', Done ''a'')#})"
    by (rule label_spawn)
  then have "label_reach 1 (?m2\<lparr>ml_size := 2\<rparr>, {#(''b'', Done ''b''), (''b'', AtDelete), (''a'', Done ''a'')#})"
    by (rule label_move) simp
  then have "label_reach 1 (?m2\<lparr>ml_size := 2\<rparr>, {#(''b'', AtDelete), (''b'', Done ''b''), (''a'', Done ''a'')#})"
    by (simp add: add_mset_commute)
  then have "label_reach 1 (\<lparr>ml_cap = 1, observed = {''a''}, ml_size = 2\<rparr>,
      {#(''b'', AtSub), (''b'', Done ''b''), (''a'', Done ''a'')#})"
    by (rule label_move) auto
  then have "label_reach 1 (\<lparr>ml_cap = 1, observed = {''a''}, ml_size = 1\<rparr>,
      {#(''b'', Done OtherLabel), (''b'', Done ''b''), (''a'', Done ''a'')#})"
    by (rule label_move) simp
  then show ?thesis by (simp add: race_end_def add_mset_commute)
qed

theorem label_cap_concurrent_witness:
  "AcceptedCount (fst race_end) \<le> 1 \<and> quiescent (snd race_end)"
proof -
  have q: "quiescent (snd race_end)" by (simp add: race_end_def quiescent_def)
  have "label_reach 1 (fst race_end, snd race_end)" using race_end_reach by simp
  from label_cap_concurrent [OF this] q show ?thesis by (simp add: NewModelLabel_def)
qed

text \<open>
  The bound is on the keys kept, not on the labels handed out: with cap 1 there is an
  interleaving after which all calls have returned, the map holds one key, and two different
  model labels have been returned to callers.
\<close>

lemma label_overshoot:
  "\<exists>m G. label_reach 1 (m, G) \<and> quiescent G \<and> AcceptedCount m = 1
     \<and> (''a'', Done ''a'') \<in># G \<and> (''b'', Done ''b'') \<in># G"
proof (intro exI conjI)
  show "label_reach 1 (fst race_end, snd race_end)" using race_end_reach by simp
qed (simp_all add: race_end_def quiescent_def AcceptedCount_def)

text \<open>
  Calls that do not overlap, however many and with whatever model names, return at most
  \<open>cap\<close> distinct labels besides the empty one and \<open>_other\<close>; all of them stay admitted.
\<close>

lemma label_cap_sequential:
  assumes "normalize_all uni (NewModelLabel cap) models = (ls, m)"
  shows "int (card (set ls - {[], OtherLabel})) \<le> ml_cap (NewModelLabel cap)
     \<and> set ls - {[], OtherLabel} \<subseteq> observed m \<and> AcceptedCount m = int (card (observed m))"
proof -
  note w = normalize_all_wf [OF NewModelLabel_wf assms]
  then have "card (set ls - {[], OtherLabel}) \<le> card (observed m)"
    by (intro card_mono) (auto simp: label_wf_def)
  with w show ?thesis by (auto simp: label_wf_def AcceptedCount_def)
qed

end
