(* ===== verification/Interceptor.thy ===== *)
theory Interceptor
  imports Body Anthropic Pricing Labels
begin

text \<open>
  What happens to the response of an enriched request (\<open>responseInterceptor\<close> of \<open>proxy.go\<close>): the
  \<open>ModifyResponse\<close> hook wraps the body by kind, the wrapped body runs the parser when it ends, and
  \<open>finalize\<close> records the metrics and ends the span, once. The state shared by these closures is
  \<open>interceptor\<close>; its \<open>it_call\<close> holds the call's \<open>Info\<close> and span, as for wrapped streams.
\<close>

text \<open>
  The \<open>Provider\<close> interface: path classification, the parsers of requests and complete responses,
  and the event handler of a wrapped stream. \<open>BuiltIn\<close> is the registry.
\<close>

record 'f provider =
  prv_OperationFor :: "bytes \<Rightarrow> bytes"
  prv_ParseRequest :: "time \<Rightarrow> bytes \<Rightarrow> bytes \<Rightarrow> ContentOpts \<Rightarrow> Info \<times> 'f span_op list"
  prv_ParseResponseJSON :: "Info \<Rightarrow> bytes \<Rightarrow> ContentOpts \<Rightarrow> Info \<times> 'f span_op list"
  prv_onEvent :: "(nat \<Rightarrow> time) \<Rightarrow> ContentOpts \<Rightarrow> bytes \<Rightarrow> 'f stream \<Rightarrow> 'f stream"

definition OpenAI_provider :: "'f openai_json \<Rightarrow> 'f provider" where
  "OpenAI_provider js =
     \<lparr>prv_OperationFor = OpenAI_OperationFor, prv_ParseRequest = OpenAI_ParseRequest js,
      prv_ParseResponseJSON = OpenAI_ParseResponseJSON js, prv_onEvent = OpenAI_onEvent js\<rparr>"

definition Anthropic_provider :: "'f anthropic_json \<Rightarrow> 'f provider" where
  "Anthropic_provider js =
     \<lparr>prv_OperationFor = Anthropic_OperationFor, prv_ParseRequest = Anthropic_ParseRequest js,
      prv_ParseResponseJSON = Anthropic_ParseResponseJSON js, prv_onEvent = Anthropic_onEvent js\<rparr>"

type_synonym 'f Registry = "bytes \<rightharpoonup> 'f provider"

definition BuiltIn :: "'f openai_json \<Rightarrow> 'f anthropic_json \<Rightarrow> 'f Registry" where
  "BuiltIn ojs ajs = [''openai'' \<mapsto> OpenAI_provider ojs, ''anthropic'' \<mapsto> Anthropic_provider ajs]"

datatype 'f metric =
    OperationDuration 'f "'f attr list"
  | TimeToFirstToken 'f "'f attr list"
  | TokenUsage int "'f attr list"
  | CostUSD 'f "'f attr list"
  | CostUSDTotal 'f "'f attr list"
  | RequestsTotal "'f attr list"

text \<open>The wrapped response body.\<close>

datatype resp_body =
    NoBody
  | ErrBody parseOnClose
  | JsonBody parseOnClose
  | StreamBody sseTee

record 'f interceptor =
  it_finalized :: bool
  it_status :: int
  it_errCapture :: "snippetCapture option"
  it_body :: resp_body
  it_call :: "'f stream"
  it_metrics :: "'f metric list"
  it_labels :: ModelLabel
  it_streams :: int
  it_span_status :: "bytes option list"
  it_ended :: nat

text \<open>
  The constants of one interceptor: provider, content options, upstream name, the pricing table,
  the clock, and Go's float operations and Unicode tables.
\<close>

record 'f icfg =
  ic_prv :: "'f provider"
  ic_content :: ContentOpts
  ic_upstream :: bytes
  ic_pricing :: "'f Table"
  ic_clk :: "nat \<Rightarrow> time"
  ic_seconds :: "duration \<Rightarrow> 'f"
  ic_of_int :: "int \<Rightarrow> 'f"
  ic_uni :: "bytes \<Rightarrow> bytes"

text \<open>The state at the start, after \<open>ParseRequest\<close> has made the calls \<open>sops\<close> on the span.\<close>

definition new_interceptor :: "Info \<Rightarrow> 'f span_op list \<Rightarrow> ModelLabel \<Rightarrow> int \<Rightarrow> 'f interceptor" where
  "new_interceptor info sops labels streams =
     \<lparr>it_finalized = False, it_status = 0, it_errCapture = None, it_body = NoBody,
      it_call = (new_stream info)\<lparr>span_log := sops\<rparr>,
      it_metrics = [], it_labels = labels, it_streams = streams, it_span_status = [], it_ended = 0\<rparr>"

definition set_attrs :: "'f attr list \<Rightarrow> 'f interceptor \<Rightarrow> 'f interceptor" where
  "set_attrs attrs it = it\<lparr>it_call := (it_call it)\<lparr>span_log := span_log (it_call it) @ [SetAttributes attrs]\<rparr>\<rparr>"

definition finishSpan :: "'f icfg \<Rightarrow> 'f interceptor \<Rightarrow> 'f interceptor" where
  "finishSpan ic it =
     (let it = (if it_status it \<ge> 400
                then it\<lparr>it_span_status := it_span_status it @ [Some (''HTTP '' @ itoa (it_status it))]\<rparr>
                else if it_status it > 0 then it\<lparr>it_span_status := it_span_status it @ [None]\<rparr> else it);
          it = set_attrs [(''http.response.status_code'', AInt (it_status it))] it;
          it = (case it_errCapture it of
                  None \<Rightarrow> it
                | Some c \<Rightarrow>
                    (let it = set_attrs [(''http.response.body_size'', AInt (int (sc_total c)))] it in
                     if Capture (ic_content ic)
                     then set_attrs [(''http.response.body_snippet'',
                            AString (Clean (ic_content ic) (truncateUTF8 (sc_head c) 1024)))] it
                     else it)) in
      it\<lparr>it_ended := Suc (it_ended it)\<rparr>)"

definition add_metric :: "'f metric \<Rightarrow> 'f interceptor \<Rightarrow> 'f interceptor" where
  "add_metric m it = it\<lparr>it_metrics := it_metrics it @ [m]\<rparr>"

definition usage_attrs :: "Info \<Rightarrow> bytes \<Rightarrow> bytes \<Rightarrow> 'f attr list" where
  "usage_attrs info reqLabel token_type =
     [(AttrSystem, AString (i_System info)), (AttrOperationName, AString (i_Operation info)),
      (AttrRequestModel, AString reqLabel), (''token_type'', AString token_type)]"

definition cost_model :: "Info \<Rightarrow> bytes" where
  "cost_model info = (if i_ResponseModel info = [] then i_RequestModel info else i_ResponseModel info)"

definition recordMetrics ::
  "'f::{zero,ord,numeral,times,inverse,plus} icfg \<Rightarrow> 'f interceptor \<Rightarrow> 'f interceptor" where
  "recordMetrics ic it =
     (let info = st_info (it_call it);
          (reqLabel, labels) = Normalize (ic_uni ic) (it_labels it) (i_RequestModel info);
          (respLabel, labels) = Normalize (ic_uni ic) labels (i_ResponseModel info);
          it = it\<lparr>it_labels := labels\<rparr>;
          attrs = [(AttrSystem, AString (i_System info)), (AttrOperationName, AString (i_Operation info)),
                   (AttrRequestModel, AString reqLabel), (''upstream'', AString (ic_upstream ic)),
                   (''http.response.status_code'', AInt (it_status it))];
          d = DurationSeconds (ic_seconds ic) info;
          it = (if 0 < d then add_metric (OperationDuration d attrs) it else it);
          t = TimeToFirstTokenSeconds (ic_seconds ic) info;
          it = (if 0 < t then set_attrs [(AttrTimeToFirstToken, AFloat t)] (add_metric (TimeToFirstToken t attrs) it)
                else it);
          it = (if i_InputTokens info > 0
                then add_metric (TokenUsage (i_InputTokens info) (usage_attrs info reqLabel TokenTypeInput)) it else it);
          it = (if i_OutputTokens info > 0
                then add_metric (TokenUsage (i_OutputTokens info) (usage_attrs info reqLabel TokenTypeOutput)) it else it);
          (usd, ok) = Cost (ic_uni ic) (ic_of_int ic) (ic_pricing ic) (i_System info) (cost_model info)
                        (i_InputTokens info) (i_OutputTokens info);
          costAttrs = [(AttrSystem, AString (i_System info)), (AttrRequestModel, AString reqLabel),
                       (AttrResponseModel, AString respLabel)];
          it = (if ok then set_attrs [(AttrCostUSD, AFloat usd)]
                             (add_metric (CostUSDTotal usd costAttrs) (add_metric (CostUSD usd costAttrs) it))
                else it) in
      add_metric (RequestsTotal attrs) it)"

definition finalize ::
  "'f::{zero,ord,numeral,times,inverse,plus} icfg \<Rightarrow> 'f interceptor \<Rightarrow> 'f interceptor" where
  "finalize ic it =
     (if it_finalized it then it
      else
        let it = it\<lparr>it_finalized := True\<rparr>;
            call = it_call it;
            it = (if time_IsZero (i_Finished (st_info call))
                  then it\<lparr>it_call := call\<lparr>st_info := (st_info call)\<lparr>i_Finished := ic_clk ic (ticks call)\<rparr>,
                                           ticks := Suc (ticks call)\<rparr>\<rparr>
                  else it) in
        finishSpan ic (recordMetrics ic it))"

text \<open>The hook: the status code and the content type of the upstream's response.\<close>

definition modify :: "'f icfg \<Rightarrow> int \<Rightarrow> bytes \<Rightarrow> 'f interceptor \<Rightarrow> 'f interceptor" where
  "modify ic status contentType it =
     (let call = it_call it;
          it = it\<lparr>it_status := status,
                  it_call := call\<lparr>st_info := (st_info call)\<lparr>i_FirstByteAt := ic_clk ic (ticks call)\<rparr>,
                                  ticks := Suc (ticks call)\<rparr>\<rparr>;
          it = set_attrs [(AttrSystem, AString (i_System (st_info (it_call it))))] it in
      if status \<ge> 400 then
        it\<lparr>it_errCapture := Some (new_capture 1024), it_body := ErrBody (new_parseOnClose 1024)\<rparr>
      else if isEventStream contentType then
        it\<lparr>it_streams := it_streams it + 1,
           it_call := (it_call it)\<lparr>st_info := (st_info (it_call it))\<lparr>i_Stream := True\<rparr>\<rparr>,
           it_body := StreamBody (newSSETee False)\<rparr>
      else it\<lparr>it_body := JsonBody (new_parseOnClose maxEnrichmentBodyBytes)\<rparr>)"

text \<open>
  One call the stream tee makes. The closer is that of wrapped streams; its \<open>onDone\<close> lowers the
  stream count and finalizes, unless the finish time was set before.
\<close>

fun tee_call ::
  "'f::{zero,ord,numeral,times,inverse,plus} icfg \<Rightarrow> nat \<Rightarrow> 'f interceptor \<Rightarrow> sse_call \<Rightarrow> 'f interceptor" where
  "tee_call ic n it (OnEvent event data) =
     it\<lparr>it_call := prv_onEvent (ic_prv ic) (ic_clk ic) (ic_content ic) data (it_call it)\<rparr>"
| "tee_call ic n it OnOverflow = it"
| "tee_call ic n it OnClose =
     (if \<not> time_IsZero (i_Finished (st_info (it_call it))) then it
      else finalize ic (it\<lparr>it_call := stream_closer (ic_clk ic) (ic_content ic) n (it_call it),
                           it_streams := it_streams it - 1\<rparr>))"

fun sse_op_of :: "body_op \<Rightarrow> sse_op" where
  "sse_op_of (BRead chunk err) = Read chunk (err \<noteq> NoErr)"
| "sse_op_of BClose = Close"

definition parse_json :: "'f icfg \<Rightarrow> bytes \<Rightarrow> 'f interceptor \<Rightarrow> 'f interceptor" where
  "parse_json ic head it =
     (let call = it_call it;
          (info, ops) = prv_ParseResponseJSON (ic_prv ic) (st_info call) head (ic_content ic) in
      it\<lparr>it_call := call\<lparr>st_info := info, span_log := span_log call @ ops\<rparr>\<rparr>)"

text \<open>One read or close of the wrapped body by the reverse proxy.\<close>

definition body_step ::
  "'f::{zero,ord,numeral,times,inverse,plus} icfg \<Rightarrow> body_op \<Rightarrow> 'f interceptor \<Rightarrow> 'f interceptor" where
  "body_step ic x it =
     (case it_body it of
        NoBody \<Rightarrow> it
      | ErrBody p \<Rightarrow>
          (let p' = pc_step p x; it = it\<lparr>it_body := ErrBody p', it_errCapture := Some (pc_capture p')\<rparr> in
           if length (pc_runs p') > length (pc_runs p) then finalize ic it else it)
      | JsonBody p \<Rightarrow>
          (let p' = pc_step p x; it = it\<lparr>it_body := JsonBody p'\<rparr> in
           if length (pc_runs p') > length (pc_runs p)
           then finalize ic (parse_json ic (sc_head (pc_capture p')) it) else it)
      | StreamBody t \<Rightarrow>
          (let t' = sse_step t (sse_op_of x) in
           foldl (tee_call ic (overflows t')) (it\<lparr>it_body := StreamBody t'\<rparr>)
             (drop (length (calls_log t)) (calls_log t'))))"

datatype icept_op = Modify int bytes | Body body_op | Finalize

fun icept_step ::
  "'f::{zero,ord,numeral,times,inverse,plus} icfg \<Rightarrow> 'f interceptor \<Rightarrow> icept_op \<Rightarrow> 'f interceptor" where
  "icept_step ic it (Modify status ct) = modify ic status ct it"
| "icept_step ic it (Body x) = body_step ic x it"
| "icept_step ic it Finalize = finalize ic it"

text \<open>
  \<open>WaitForStreams\<close>: the counter at the start, then what each wake-up sees, the counter and whether
  it was the context that ended. The list stands for the wake-ups until one returns; a context
  with a deadline guarantees one.
\<close>

fun wait_loop :: "(bool \<times> int) list \<Rightarrow> int option" where
  "wait_loop [] = None"
| "wait_loop ((ctxDone, n) # rest) = (if ctxDone then Some n else if n = 0 then Some 0 else wait_loop rest)"

definition WaitForStreams :: "int \<Rightarrow> (bool \<times> int) list \<Rightarrow> int option" where
  "WaitForStreams start wakes = (if start = 0 then Some 0 else wait_loop wakes)"

subsection \<open>Frames\<close>

definition requests_counted :: "'f interceptor \<Rightarrow> nat" where
  "requests_counted it = length (filter (\<lambda>m. case m of RequestsTotal _ \<Rightarrow> True | _ \<Rightarrow> False) (it_metrics it))"

lemma set_attrs_frame [simp]:
  "it_finalized (set_attrs a it) = it_finalized it" "it_ended (set_attrs a it) = it_ended it"
  "it_metrics (set_attrs a it) = it_metrics it" "it_streams (set_attrs a it) = it_streams it"
  "it_status (set_attrs a it) = it_status it" "it_body (set_attrs a it) = it_body it"
  "st_info (it_call (set_attrs a it)) = st_info (it_call it)" "it_errCapture (set_attrs a it) = it_errCapture it"
  "requests_counted (set_attrs a it) = requests_counted it"
  by (simp_all add: set_attrs_def requests_counted_def)

lemma add_metric_frame [simp]:
  "it_finalized (add_metric m it) = it_finalized it" "it_ended (add_metric m it) = it_ended it"
  "it_streams (add_metric m it) = it_streams it" "it_status (add_metric m it) = it_status it"
  "it_body (add_metric m it) = it_body it" "it_call (add_metric m it) = it_call it"
  "it_metrics (add_metric m it) = it_metrics it @ [m]"
  by (simp_all add: add_metric_def)

lemma requests_add_metric [simp]:
  "requests_counted (add_metric m it) =
     (case m of RequestsTotal _ \<Rightarrow> Suc (requests_counted it) | _ \<Rightarrow> requests_counted it)"
  by (simp add: requests_counted_def add_metric_def split: metric.split)

lemma finishSpan_frame [simp]:
  "it_finalized (finishSpan ic it) = it_finalized it" "it_ended (finishSpan ic it) = Suc (it_ended it)"
  "it_streams (finishSpan ic it) = it_streams it" "it_body (finishSpan ic it) = it_body it"
  "st_info (it_call (finishSpan ic it)) = st_info (it_call it)"
  "it_metrics (finishSpan ic it) = it_metrics it"
  by (simp_all add: finishSpan_def Let_def split: option.split)

lemma requests_finishSpan [simp]: "requests_counted (finishSpan ic it) = requests_counted it"
  by (simp add: requests_counted_def)

text \<open>\<open>recordMetrics\<close> counts the request once and changes neither the call's \<open>Info\<close> nor the counters.\<close>

definition metrics_frame :: "'f interceptor \<Rightarrow> 'f interceptor \<Rightarrow> bool" where
  "metrics_frame it it' \<longleftrightarrow>
     it_finalized it' = it_finalized it \<and> it_ended it' = it_ended it \<and> it_streams it' = it_streams it
     \<and> it_body it' = it_body it \<and> st_info (it_call it') = st_info (it_call it)"

lemma recordMetrics_frame:
  "metrics_frame it (recordMetrics ic it) \<and> requests_counted (recordMetrics ic it) = Suc (requests_counted it)"
proof -
  have l: "requests_counted (it\<lparr>it_labels := x\<rparr>) = requests_counted it" for x by (simp add: requests_counted_def)
  show ?thesis
    by (simp add: recordMetrics_def metrics_frame_def Let_def case_prod_unfold l)
qed

lemma finalize_frame:
  "it_streams (finalize ic it) = it_streams it" "it_body (finalize ic it) = it_body it"
  "it_finalized (finalize ic it)"
  "(\<forall>n. ic_clk ic n \<noteq> zeroTime) \<Longrightarrow> \<not> it_finalized it \<Longrightarrow> \<not> time_IsZero (i_Finished (st_info (it_call (finalize ic it))))"
  "\<not> time_IsZero (i_Finished (st_info (it_call it))) \<Longrightarrow> \<not> time_IsZero (i_Finished (st_info (it_call (finalize ic it))))"
  using recordMetrics_frame [of _ ic]
  by (simp_all add: finalize_def metrics_frame_def Let_def time_IsZero_def)

text \<open>Metrics and span end are in step with the flag.\<close>

definition once_ok :: "'f interceptor \<Rightarrow> bool" where
  "once_ok it \<longleftrightarrow> it_ended it = (if it_finalized it then 1 else 0) \<and> requests_counted it = it_ended it"

lemma finalize_once: "once_ok it \<Longrightarrow> once_ok (finalize ic it)"
  using recordMetrics_frame [of _ ic]
  by (simp add: once_ok_def finalize_def metrics_frame_def Let_def requests_counted_def)

lemma once_ok_upd:
  "once_ok it \<Longrightarrow> it_finalized it' = it_finalized it \<Longrightarrow> it_ended it' = it_ended it \<Longrightarrow> it_metrics it' = it_metrics it \<Longrightarrow>
   once_ok it'"
  by (simp add: once_ok_def requests_counted_def)

lemma tee_call_once: "once_ok it \<Longrightarrow> once_ok (tee_call ic n it c)"
  by (cases c) (auto intro!: finalize_once elim: once_ok_upd)

lemma tee_calls_once: "once_ok it \<Longrightarrow> once_ok (foldl (tee_call ic n) it cs)"
  by (rule foldl_invariant) (auto intro: tee_call_once)

lemma parse_json_frame [simp]:
  "it_finalized (parse_json ic head it) = it_finalized it" "it_ended (parse_json ic head it) = it_ended it"
  "it_metrics (parse_json ic head it) = it_metrics it"
  by (simp_all add: parse_json_def Let_def case_prod_unfold)

lemma modify_frame [simp]:
  "it_finalized (modify ic s ct it) = it_finalized it" "it_ended (modify ic s ct it) = it_ended it"
  "it_metrics (modify ic s ct it) = it_metrics it"
  by (simp_all add: modify_def Let_def)

lemma body_step_once:
  assumes "once_ok it"
  shows "once_ok (body_step ic x it)"
proof (cases "it_body it")
  case (ErrBody p)
  have "once_ok (it\<lparr>it_body := b, it_errCapture := c\<rparr>)" for b c using assms by (rule once_ok_upd) simp_all
  then show ?thesis using ErrBody by (auto simp: body_step_def Let_def intro!: finalize_once)
next
  case (JsonBody p)
  have "once_ok (it\<lparr>it_body := b\<rparr>)" "once_ok (parse_json ic head (it\<lparr>it_body := b\<rparr>))" for b head
    using assms by (rule once_ok_upd; simp)+
  then show ?thesis using JsonBody by (auto simp: body_step_def Let_def intro!: finalize_once)
next
  case (StreamBody t)
  have "once_ok (it\<lparr>it_body := b\<rparr>)" for b using assms by (rule once_ok_upd) simp_all
  then show ?thesis using StreamBody by (simp add: body_step_def Let_def tee_calls_once)
qed (simp add: body_step_def assms)

lemma icept_step_once: "once_ok it \<Longrightarrow> once_ok (icept_step ic it x)"
  by (cases x) (auto intro: finalize_once body_step_once elim: once_ok_upd)

lemma icept_run_once: "once_ok it \<Longrightarrow> once_ok (foldl (icept_step ic) it xs)"
  by (rule foldl_invariant) (auto intro: icept_step_once)

lemma tee_call_finalized: "it_finalized it \<Longrightarrow> it_finalized (tee_call ic n it c)"
  by (cases c) (auto simp: finalize_frame)

lemma tee_calls_finalized: "it_finalized it \<Longrightarrow> it_finalized (foldl (tee_call ic n) it cs)"
  by (rule foldl_invariant) (auto intro: tee_call_finalized)

lemma icept_step_finalized: "it_finalized it \<Longrightarrow> it_finalized (icept_step ic it x)"
  by (cases x; cases "it_body it")
    (auto simp: body_step_def Let_def finalize_frame intro: tee_calls_finalized)

lemma icept_run_finalized: "it_finalized it \<Longrightarrow> it_finalized (foldl (icept_step ic) it xs)"
  by (rule foldl_invariant) (auto intro: icept_step_finalized)

subsection \<open>The stream counter\<close>

definition family :: "'f icfg \<Rightarrow> bool" where
  "family ic \<longleftrightarrow> (\<exists>js. ic_prv ic = OpenAI_provider js) \<or> (\<exists>js. ic_prv ic = Anthropic_provider js)"

definition unfinished :: "'f interceptor \<Rightarrow> bool" where
  "unfinished it \<longleftrightarrow> time_IsZero (i_Finished (st_info (it_call it)))"

lemma family_event:
  "family ic \<Longrightarrow> i_Finished (st_info (prv_onEvent (ic_prv ic) clk content d st)) = i_Finished (st_info st)"
  by (auto simp: family_def OpenAI_provider_def Anthropic_provider_def
      openai.event_finished anthropic.event_finished)

lemma tee_call_finished:
  assumes "family ic" and "\<not> unfinished it"
  shows "it_streams (tee_call ic n it c) = it_streams it \<and> \<not> unfinished (tee_call ic n it c)
     \<and> it_body (tee_call ic n it c) = it_body it"
  using assms by (cases c) (simp_all add: unfinished_def family_event)

lemma tee_calls_finished:
  assumes "family ic" and "\<not> unfinished it"
  shows "it_streams (foldl (tee_call ic n) it cs) = it_streams it \<and> \<not> unfinished (foldl (tee_call ic n) it cs)
     \<and> it_body (foldl (tee_call ic n) it cs) = it_body it"
  using assms
proof (induction cs arbitrary: it)
  case (Cons c cs)
  from tee_call_finished [OF Cons.prems, of n c] Cons.IH [of "tee_call ic n it c"] Cons.prems(1) show ?case by simp
qed simp

lemma tee_call_unfinished:
  assumes "family ic" and "\<forall>n. ic_clk ic n \<noteq> zeroTime" and "unfinished it"
  shows "it_streams (tee_call ic n it c) = it_streams it - (if c = OnClose then 1 else 0)
     \<and> (unfinished (tee_call ic n it c) \<longleftrightarrow> c \<noteq> OnClose) \<and> it_body (tee_call ic n it c) = it_body it"
proof (cases c)
  case OnClose
  let ?it = "it\<lparr>it_call := stream_closer (ic_clk ic) (ic_content ic) n (it_call it), it_streams := it_streams it - 1\<rparr>"
  have "\<not> time_IsZero (i_Finished (st_info (it_call ?it)))"
    using assms(2,3) by (simp add: stream_closer_def unfinished_def Let_def time_IsZero_def)
  from finalize_frame(5) [OF this, of ic] have "\<not> unfinished (finalize ic ?it)"
    by (simp add: unfinished_def)
  then show ?thesis
    using assms(3) OnClose by (simp add: unfinished_def finalize_frame)
qed (use assms in \<open>simp_all add: unfinished_def family_event\<close>)

lemma tee_calls_unfinished:
  assumes "family ic" and "\<forall>n. ic_clk ic n \<noteq> zeroTime" and "unfinished it"
  shows "it_streams (foldl (tee_call ic n) it cs) = it_streams it - (if OnClose \<in> set cs then 1 else 0)
     \<and> (unfinished (foldl (tee_call ic n) it cs) \<longleftrightarrow> OnClose \<notin> set cs)
     \<and> it_body (foldl (tee_call ic n) it cs) = it_body it"
  using assms
proof (induction cs arbitrary: it)
  case (Cons c cs)
  note step = tee_call_unfinished [OF Cons.prems, of n c]
  show ?case
  proof (cases "c = OnClose")
    case True
    then have "\<not> unfinished (tee_call ic n it c)" using step by simp
    from tee_calls_finished [OF Cons.prems(1) this, of n cs] step True show ?thesis by simp
  next
    case False
    then have "unfinished (tee_call ic n it c)" using step by simp
    from Cons.IH [OF Cons.prems(1,2) this] step False show ?thesis by auto
  qed
qed simp

lemma body_step_stream:
  assumes "it_body it = StreamBody t"
  shows "\<exists>cs. calls_log (sse_step t (sse_op_of x)) = calls_log t @ cs
     \<and> body_step ic x it = foldl (tee_call ic (overflows (sse_step t (sse_op_of x))))
         (it\<lparr>it_body := StreamBody (sse_step t (sse_op_of x))\<rparr>) cs"
  using sse_step_log_prefix [of t "sse_op_of x"] assms
  by (auto simp: prefix_def body_step_def Let_def)

lemma body_steps_finished:
  assumes "family ic" and "\<not> unfinished it" and "it_body it = StreamBody t"
  shows "it_streams (foldl (icept_step ic) it (map Body xs)) = it_streams it"
  using assms
proof (induction xs arbitrary: it t)
  case (Cons x xs)
  obtain cs where b: "body_step ic x it = foldl (tee_call ic (overflows (sse_step t (sse_op_of x))))
         (it\<lparr>it_body := StreamBody (sse_step t (sse_op_of x))\<rparr>) cs"
    using body_step_stream [OF Cons.prems(3)] by blast
  let ?it = "it\<lparr>it_body := StreamBody (sse_step t (sse_op_of x))\<rparr>"
  have "\<not> unfinished ?it" using Cons.prems(2) by (simp add: unfinished_def)
  from tee_calls_finished [OF Cons.prems(1) this] Cons.IH [OF Cons.prems(1)] b show ?case by simp
qed simp

lemma body_steps_stream:
  "it_body it = StreamBody t \<Longrightarrow> \<exists>t. it_body (foldl (icept_step ic) it (map Body xs)) = StreamBody t"
proof (induction xs arbitrary: it t)
  case (Cons x xs)
  obtain cs where b: "body_step ic x it = foldl (tee_call ic (overflows (sse_step t (sse_op_of x))))
         (it\<lparr>it_body := StreamBody (sse_step t (sse_op_of x))\<rparr>) cs"
    using body_step_stream [OF Cons.prems] by blast
  have "it_body (tee_call ic n i c) = it_body i" for n i c
    by (cases c) (simp_all add: finalize_frame)
  then have "it_body (foldl (tee_call ic n) i cs) = it_body i" for n i
    by (induction cs arbitrary: i) simp_all
  then show ?case using Cons.IH [of "body_step ic x it" "sse_step t (sse_op_of x)"] b by simp
qed simp

lemma body_steps_unfinished:
  assumes "family ic" and "\<forall>n. ic_clk ic n \<noteq> zeroTime"
    and "unfinished it" and "it_body it = StreamBody t" and "once_invar t" and "close_calls t = 0"
  shows "it_streams (foldl (icept_step ic) it (map Body xs))
       = it_streams it - (if \<exists>x \<in> set xs. closing_op (sse_op_of x) then 1 else 0)
     \<and> (\<exists>t. it_body (foldl (icept_step ic) it (map Body xs)) = StreamBody t)"
  using assms(3-6)
proof (induction xs arbitrary: it t)
  case (Cons x xs)
  let ?t = "sse_step t (sse_op_of x)"
  let ?it = "it\<lparr>it_body := StreamBody ?t\<rparr>"
  obtain cs where log: "calls_log ?t = calls_log t @ cs"
    and b: "body_step ic x it = foldl (tee_call ic (overflows ?t)) ?it cs"
    using body_step_stream [OF Cons.prems(2)] by blast
  have "close_calls ?t = count_list cs OnClose" using Cons.prems(4) log by (simp add: close_calls_def)
  then have closing: "OnClose \<in> set cs \<longleftrightarrow> closing_op (sse_op_of x)"
    using tee_once.step_open [OF Cons.prems(3,4), of "sse_op_of x"] count_list_0_iff [of cs OnClose]
    by (cases "closing_op (sse_op_of x)") auto
  have "unfinished ?it" using Cons.prems(1) by (simp add: unfinished_def)
  note u = tee_calls_unfinished [OF assms(1,2) this, of "overflows ?t" cs]
  show ?case
  proof (cases "closing_op (sse_op_of x)")
    case True
    then have "\<not> unfinished (body_step ic x it)" "it_body (body_step ic x it) = StreamBody ?t"
      using u b closing by auto
    from body_steps_finished [OF assms(1) this] body_steps_stream [OF this(2)] True u b closing show ?thesis by simp
  next
    case False
    then have "unfinished (body_step ic x it)" "it_body (body_step ic x it) = StreamBody ?t"
      using u b closing by auto
    moreover have "once_invar ?t" "close_calls ?t = 0"
      using tee_once.invar_step [OF Cons.prems(3)] tee_once.step_open [OF Cons.prems(3,4), of "sse_op_of x"] False by auto
    ultimately show ?thesis using Cons.IH [of "body_step ic x it" ?t] False u b closing by simp
  qed
qed simp

text \<open>While a stream is unfinished, nothing has finalized it.\<close>

lemma tee_call_pending:
  assumes "family ic" and "\<forall>n. ic_clk ic n \<noteq> zeroTime" and "unfinished it \<longrightarrow> \<not> it_finalized it"
  shows "unfinished (tee_call ic n it c) \<longrightarrow> \<not> it_finalized (tee_call ic n it c)"
proof (cases "unfinished it")
  case True
  then show ?thesis using assms tee_call_unfinished [OF assms(1,2) True, of n c] by (cases c) auto
next
  case False
  then show ?thesis using tee_call_finished [OF assms(1) False, of n c] by simp
qed

lemma icept_finalized_finished:
  assumes "family ic" and "\<forall>n. ic_clk ic n \<noteq> zeroTime" and "unfinished it" and "\<not> it_finalized it"
    and "it_body it = StreamBody t"
  shows "unfinished (foldl (icept_step ic) it (map Body xs)) \<longrightarrow> \<not> it_finalized (foldl (icept_step ic) it (map Body xs))"
proof -
  have "(unfinished it \<longrightarrow> \<not> it_finalized it) \<Longrightarrow> it_body it = StreamBody t \<Longrightarrow> ?thesis"
  proof (induction xs arbitrary: it t)
    case (Cons x xs)
    let ?it = "it\<lparr>it_body := StreamBody (sse_step t (sse_op_of x))\<rparr>"
    obtain cs where b: "body_step ic x it = foldl (tee_call ic (overflows (sse_step t (sse_op_of x)))) ?it cs"
      using body_step_stream [OF Cons.prems(2)] by blast
    have "unfinished ?it \<longrightarrow> \<not> it_finalized ?it" using Cons.prems(1) by (simp add: unfinished_def)
    then have "unfinished (body_step ic x it) \<longrightarrow> \<not> it_finalized (body_step ic x it)"
      unfolding b by (rule foldl_invariant) (use tee_call_pending [OF assms(1,2)] in blast)
    moreover obtain t' where "it_body (body_step ic x it) = StreamBody t'"
      using body_steps_stream [OF Cons.prems(2), of ic "[x]"] by auto
    ultimately show ?case using Cons.IH [of "body_step ic x it"] by simp
  qed simp
  then show ?thesis using assms by blast
qed

lemma interceptor_streams:
  fixes ic :: "'f::{zero,ord,numeral,times,inverse,plus} icfg"
  assumes "family ic" and "\<forall>n. ic_clk ic n \<noteq> zeroTime" and "time_IsZero (i_Finished info)"
    and "status < 400" and "isEventStream ct"
  shows "it_streams (foldl (icept_step ic) (new_interceptor info sops labels n)
           (Modify status ct # map Body xs @ Finalize # map Body ys))
     = n + (if \<exists>x \<in> set xs. closing_op (sse_op_of x) then 0 else 1)"
proof -
  define it0 where "it0 = modify ic status ct (new_interceptor info sops labels n)"
  define it1 where "it1 = foldl (icept_step ic) it0 (map Body xs)"
  have m: "unfinished it0" "it_body it0 = StreamBody (newSSETee False)" "it_streams it0 = n + 1" "\<not> it_finalized it0"
    using assms(3-5)
    by (simp_all add: it0_def modify_def new_interceptor_def new_stream_def unfinished_def set_attrs_def Let_def)
  have run: "it_streams it1 = n + 1 - (if \<exists>x \<in> set xs. closing_op (sse_op_of x) then 1 else 0)"
    "\<exists>t. it_body it1 = StreamBody t"
    using body_steps_unfinished [OF assms(1,2) m(1,2) newSSETee_invar, of xs] m(3) by (simp_all add: it1_def)
  obtain t where t: "it_body (finalize ic it1) = StreamBody t" using run(2) by (auto simp: finalize_frame)
  have fin: "\<not> unfinished (finalize ic it1)"
  proof (cases "unfinished it1")
    case True
    have "\<not> it_finalized it1"
      using icept_finalized_finished [OF assms(1,2) m(1) m(4) m(2), of xs] True by (auto simp: it1_def)
    then show ?thesis using finalize_frame(4) [OF assms(2)] by (simp add: unfinished_def)
  next
    case False
    then show ?thesis using finalize_frame(5) by (simp add: unfinished_def)
  qed
  from body_steps_finished [OF assms(1) fin t, of ys] run(1) show ?thesis
    by (simp add: it0_def [symmetric] it1_def [symmetric] finalize_frame)
qed

text \<open>Any other body never touches the count.\<close>

definition is_stream :: "resp_body \<Rightarrow> bool" where
  "is_stream b \<longleftrightarrow> (\<exists>t. b = StreamBody t)"

lemma parse_json_streams [simp]:
  "it_streams (parse_json ic head it) = it_streams it" "it_body (parse_json ic head it) = it_body it"
  by (simp_all add: parse_json_def Let_def case_prod_unfold)

lemma body_step_plain:
  "\<not> is_stream (it_body it) \<Longrightarrow>
   it_streams (body_step ic x it) = it_streams it \<and> \<not> is_stream (it_body (body_step ic x it))"
  by (cases "it_body it") (auto simp: body_step_def Let_def finalize_frame is_stream_def)

lemma body_steps_plain:
  "\<not> is_stream (it_body it) \<Longrightarrow> it_streams (foldl (icept_step ic) it (map Body xs)) = it_streams it"
proof (induction xs arbitrary: it)
  case (Cons x xs)
  then show ?case using body_step_plain [OF Cons.prems, of ic x] by simp
qed simp

lemma interceptor_no_stream:
  assumes "\<not> (status < 400 \<and> isEventStream ct)"
  shows "it_streams (foldl (icept_step ic) (new_interceptor info sops labels n)
           (Modify status ct # map Body xs @ [Finalize])) = n"
proof -
  have "\<not> is_stream (it_body (modify ic status ct (new_interceptor info sops labels n)))"
    "it_streams (modify ic status ct (new_interceptor info sops labels n)) = n"
    using assms by (auto simp: modify_def Let_def is_stream_def new_interceptor_def)
  then show ?thesis by (simp add: finalize_frame body_steps_plain)
qed

subsection \<open>What reaches the span\<close>

definition span_clean :: "'f icfg \<Rightarrow> 'f interceptor \<Rightarrow> bool" where
  "span_clean ic it \<longleftrightarrow> (\<forall>x \<in> set (span_log (it_call it)). clean_op (ic_content ic) x)"

lemma span_clean_upd: "span_clean ic it \<Longrightarrow> span_log (it_call it') = span_log (it_call it) \<Longrightarrow> span_clean ic it'"
  by (simp add: span_clean_def)

lemma set_attrs_clean: "span_clean ic it \<Longrightarrow> clean_op (ic_content ic) (SetAttributes a) \<Longrightarrow> span_clean ic (set_attrs a it)"
  by (auto simp: span_clean_def set_attrs_def)

lemma add_metric_clean: "span_clean ic it \<Longrightarrow> span_clean ic (add_metric m it)"
  by (simp add: span_clean_def)

lemma finishSpan_clean:
  assumes "span_clean ic it"
  shows "span_clean ic (finishSpan ic it)"
proof -
  have st: "span_clean ic (it\<lparr>it_span_status := x\<rparr>)" for x using assms by (rule span_clean_upd) simp
  have e: "span_clean ic i \<Longrightarrow> span_clean ic (i\<lparr>it_ended := n\<rparr>)" for i n
    by (simp add: span_clean_def)
  show ?thesis
    unfolding finishSpan_def Let_def
    using assms st by (auto intro!: e set_attrs_clean split: option.split)
qed

lemma recordMetrics_clean:
  assumes "span_clean ic it"
  shows "span_clean ic (recordMetrics ic it)"
proof -
  have l: "span_clean ic (it\<lparr>it_labels := x\<rparr>)" for x using assms by (rule span_clean_upd) simp
  show ?thesis
    unfolding recordMetrics_def Let_def case_prod_unfold
    by (auto intro!: l add_metric_clean set_attrs_clean)
qed

lemma finalize_clean:
  assumes "span_clean ic it"
  shows "span_clean ic (finalize ic it)"
  unfolding finalize_def Let_def
  using assms by (auto intro!: finishSpan_clean recordMetrics_clean elim: span_clean_upd)

lemma modify_clean: "span_clean ic it \<Longrightarrow> span_clean ic (modify ic s ct it)"
  unfolding modify_def Let_def
  by (auto simp: span_clean_def set_attrs_def)

lemma family_clean:
  assumes "family ic"
  shows "x \<in> set (snd (prv_ParseResponseJSON (ic_prv ic) info head opts)) \<Longrightarrow> clean_op opts x"
    and "x \<in> set (snd (prv_ParseRequest (ic_prv ic) now p body opts)) \<Longrightarrow> clean_op opts x"
    and "span_log (prv_onEvent (ic_prv ic) clk opts d st) = span_log st"
  using assms bspec [OF OpenAI_ParseResponseJSON_clean] bspec [OF Anthropic_ParseResponseJSON_clean]
    bspec [OF OpenAI_ParseRequest_clean] bspec [OF Anthropic_ParseRequest_clean]
  by (auto simp: family_def OpenAI_provider_def Anthropic_provider_def openai.event_span anthropic.event_span)

lemma tee_call_clean:
  assumes "family ic" and "span_clean ic it"
  shows "span_clean ic (tee_call ic n it c)"
proof (cases c)
  case OnClose
  have "span_clean ic (it\<lparr>it_call := stream_closer (ic_clk ic) (ic_content ic) n (it_call it), it_streams := k\<rparr>)" for k
    using assms(2) stream_closer_clean by (simp add: span_clean_def)
  then show ?thesis using OnClose assms(2) by (simp add: finalize_clean)
qed (use assms family_clean(3) [OF assms(1)] in \<open>simp_all add: span_clean_def\<close>)

lemma tee_calls_clean:
  assumes "family ic" and "span_clean ic it"
  shows "span_clean ic (foldl (tee_call ic n) it cs)"
  using assms(2) by (rule foldl_invariant) (rule tee_call_clean [OF assms(1)])

lemma parse_json_clean: "family ic \<Longrightarrow> span_clean ic it \<Longrightarrow> span_clean ic (parse_json ic head it)"
  using family_clean(1) by (fastforce simp: span_clean_def parse_json_def Let_def case_prod_unfold)

lemma body_step_clean:
  assumes "family ic" and "span_clean ic it"
  shows "span_clean ic (body_step ic x it)"
proof -
  have b: "span_clean ic (it\<lparr>it_body := y\<rparr>)" "span_clean ic (it\<lparr>it_body := y, it_errCapture := z\<rparr>)" for y z
    using assms(2) by (rule span_clean_upd; simp)+
  then show ?thesis
    using assms(1)
    by (auto simp: body_step_def Let_def intro!: finalize_clean parse_json_clean tee_calls_clean assms(2) split: resp_body.split)
qed

lemma icept_step_clean: "family ic \<Longrightarrow> span_clean ic it \<Longrightarrow> span_clean ic (icept_step ic it x)"
  by (cases x) (simp_all add: modify_clean body_step_clean finalize_clean)

lemma icept_run_clean:
  assumes "family ic" and "span_clean ic it"
  shows "span_clean ic (foldl (icept_step ic) it xs)"
  using assms(2) by (rule foldl_invariant) (rule icept_step_clean [OF assms(1)])

subsection \<open>A concrete interceptor\<close>

definition demo_icfg :: "rat icfg" where
  "demo_icfg = \<lparr>ic_prv = OpenAI_provider hello_json, ic_content = \<lparr>Capture = False, Redact = None\<rparr>,
     ic_upstream = ''openai'', ic_pricing = defaultTable, ic_clk = wall_clock,
     ic_seconds = (\<lambda>d. rat_of_int d / rat_of_int second), ic_of_int = rat_of_int, ic_uni = id\<rparr>"

lemma demo_family: "family demo_icfg"
  by (auto simp: family_def demo_icfg_def)

subsection \<open>Properties\<close>

text \<open>
  Metrics and span of an enriched request are completed exactly once. Whatever the hook, the
  reads and closes of the wrapped body and \<open>finalize\<close> do, in any order and number, the span ends
  at most once and the request counter is raised in step with it; and as the pipeline always
  calls \<open>finalize\<close> at the end, both happen.
\<close>

lemma finalize_exactly_once:
  fixes ic :: "'f::{zero,ord,numeral,times,inverse,plus} icfg"
  shows "it_ended (foldl (icept_step ic) (new_interceptor info sops labels n) ops) \<le> 1
     \<and> requests_counted (foldl (icept_step ic) (new_interceptor info sops labels n) ops)
         = it_ended (foldl (icept_step ic) (new_interceptor info sops labels n) ops)
     \<and> (Finalize \<in> set ops \<longrightarrow> it_ended (foldl (icept_step ic) (new_interceptor info sops labels n) ops) = 1)"
proof -
  let ?it = "foldl (icept_step ic) (new_interceptor info sops labels n) ops"
  have "once_ok (new_interceptor info sops labels n :: 'f interceptor)"
    by (simp add: once_ok_def new_interceptor_def requests_counted_def)
  then have ok: "once_ok ?it" by (rule icept_run_once)
  have "it_finalized ?it" if f: "Finalize \<in> set ops"
  proof -
    obtain xs ys where ops: "ops = xs @ Finalize # ys" using split_list [OF f] by blast
    show ?thesis
      unfolding ops foldl_append foldl.simps by (rule icept_run_finalized) (simp add: finalize_frame)
  qed
  with ok show ?thesis by (auto simp: once_ok_def)
qed

text \<open>
  The count of active streams, on which shutdown waits. A stream raises it by one; it is
  lowered again if the body ended or was closed before \<open>finalize\<close> ran at the end of the request,
  and else never: once \<open>finalize\<close> has set the finish time, a later close leaves it raised.
\<close>

lemma stream_count:
  fixes ic :: "'f::{zero,ord,numeral,times,inverse,plus} icfg"
  assumes "family ic" and "\<forall>n. ic_clk ic n \<noteq> zeroTime" and "time_IsZero (i_Finished info)"
    and "status < 400" and "isEventStream ct"
  shows "it_streams (foldl (icept_step ic) (new_interceptor info sops labels n)
           (Modify status ct # map Body xs @ Finalize # map Body ys))
     = n + (if \<exists>x \<in> set xs. closing_op (sse_op_of x) then 0 else 1)"
  using assms by (rule interceptor_streams)

end
