(* ===== verification/Handler.thy ===== *)
theory Handler
  imports Pins Auth Admission Redact Interceptor
begin

text \<open>
  The request pipeline of \<open>proxy.go\<close>: construction, the gates of \<open>ServeHTTP\<close> in their order,
  admission and release of the per-upstream resources, the choice between transparent and
  enriched forwarding, and the interleaving of concurrent requests on one upstream.

  The reverse proxy of \<open>net/http/httputil\<close> is the argument \<open>e_upstream\<close> of the environment: for an
  upstream, a request and the body to forward, the calls it makes, in order, on the response hook,
  the wrapped response body and the response writer. Clock readings of one request are
  \<open>e_clk env 0\<close>, \<open>e_clk env 1\<close> and so on.
\<close>

subsection \<open>Headers\<close>

definition is_token_char :: "char \<Rightarrow> bool" where
  "is_token_char c \<longleftrightarrow>
     (let n = (of_char c :: nat) in
      48 \<le> n \<and> n \<le> 57 \<or> 65 \<le> n \<and> n \<le> 90 \<or> 97 \<le> n \<and> n \<le> 122
      \<or> n \<in> {33, 35, 36, 37, 38, 39, 42, 43, 45, 46, 94, 95, 96, 124, 126})"

definition ascii_upper :: "char \<Rightarrow> char" where
  "ascii_upper c = (let n = (of_char c :: nat) in if 97 \<le> n \<and> n \<le> 122 then char_of (n - 32) else c)"

fun canon_chars :: "bool \<Rightarrow> bytes \<Rightarrow> bytes" where
  "canon_chars up [] = []"
| "canon_chars up (c # s) = (if up then ascii_upper c else ascii_lower c) # canon_chars (c = CHR ''-'') s"

definition canonical_key :: "bytes \<Rightarrow> bytes" where
  "canonical_key k = (if list_all is_token_char k then canon_chars True k else k)"

type_synonym header = "(bytes \<times> bytes list) list"

definition header_Get :: "header \<Rightarrow> bytes \<Rightarrow> bytes" where
  "header_Get h k = (case map_of h (canonical_key k) of Some (v # _) \<Rightarrow> v | _ \<Rightarrow> [])"

definition header_Del :: "header \<Rightarrow> bytes \<Rightarrow> header" where
  "header_Del h k = filter (\<lambda>(n, _). n \<noteq> canonical_key k) h"

definition header_Set :: "header \<Rightarrow> bytes \<Rightarrow> bytes \<Rightarrow> header" where
  "header_Set h k v = (canonical_key k, [v]) # header_Del h k"

subsection \<open>Requests and responses\<close>

record request =
  r_Method :: bytes
  r_Path :: bytes
  r_Header :: header
  r_ContentLength :: int
  r_Body :: body_src

text \<open>A response: the calls on the writer, the \<open>Retry-After\<close> header set, the upstream contacted and the
  request sent to it.\<close>

record response =
  rs_calls :: "writer_call list"
  rs_RetryAfter :: "bytes option"
  rs_contacted :: "Upstream option"
  rs_forwarded :: "request option"

definition http_Error :: "bytes \<Rightarrow> int \<Rightarrow> writer_call list" where
  "http_Error msg code = [WriteHeader code, Write (msg @ [CHR 0x0A])]"

definition error_response :: "bytes \<Rightarrow> int \<Rightarrow> bytes option \<Rightarrow> response" where
  "error_response msg code retry = \<lparr>rs_calls = http_Error msg code, rs_RetryAfter = retry, rs_contacted = None, rs_forwarded = None\<rparr>"

subsection \<open>The handler\<close>

text \<open>
  \<open>h_rps\<close> maps an upstream name to the upstream its reverse proxy was built for, \<open>h_sems\<close> a name to
  the capacity and the use of its semaphore. \<open>h_inflight\<close> logs the calls on the in-flight counter and
  \<open>h_calls\<close> the span name and final state of the enriched calls.
\<close>

record 'f Handler =
  h_cfg :: Config
  h_providers :: "'f Registry"
  h_rps :: "bytes \<rightharpoonup> Upstream"
  h_sems :: "bytes \<rightharpoonup> nat \<times> nat"
  h_breakers :: "bytes \<rightharpoonup> breaker"
  h_auth :: Verifier
  h_authHeader :: bytes
  h_modelLabel :: ModelLabel
  h_pricing :: "'f Table"
  h_streams :: int
  h_inflight :: "(bytes \<times> int) list"
  h_calls :: "(bytes \<times> 'f interceptor) list"

datatype new_error =
    ProviderMissing bytes bytes
  | ParseTarget bytes
  | BuildTransport bytes pin_error
  | InflightCounter bytes
  | RequestsCounter bytes
  | NewPricing pricing_error
  | NewAuth auth_error

type_synonym new_maps = "(bytes \<rightharpoonup> Upstream) \<times> (bytes \<rightharpoonup> nat \<times> nat) \<times> (bytes \<rightharpoonup> breaker)"

text \<open>
  The loop over the upstreams; \<open>target_host\<close> is \<open>url.Parse\<close> followed by \<open>Hostname\<close>. For \<open>New\<close>, \<open>counter\<close> is
  the error, if any, of creating the counter of that name.
\<close>

fun New_upstreams ::
  "'f Registry \<Rightarrow> (bytes \<Rightarrow> bytes option) \<Rightarrow> new_maps \<Rightarrow> Upstream list \<Rightarrow> new_error + new_maps" where
  "New_upstreams providers target_host maps [] = Inr maps"
| "New_upstreams providers target_host (rps, sems, brs) (u # us) =
     (let sems = (if MaxInFlight u > 0 then sems(u_Name u \<mapsto> (nat (MaxInFlight u), 0)) else sems);
          brs = (if Failures (u_Breaker u) > 0 then brs(u_Name u \<mapsto> newBreaker (u_Breaker u)) else brs) in
      if providers (u_Provider u) = None then Inl (ProviderMissing (u_Provider u) (u_Name u))
      else case target_host (u_Target u) of
             None \<Rightarrow> Inl (ParseTarget (u_Name u))
           | Some host \<Rightarrow>
               (case buildUpstreamTransport host u of
                  Inl e \<Rightarrow> Inl (BuildTransport (u_Name u) e)
                | Inr _ \<Rightarrow> New_upstreams providers target_host (rps(u_Name u \<mapsto> u), sems, brs) us))"

definition New ::
  "(bytes \<Rightarrow> bytes option) \<Rightarrow> (bytes \<Rightarrow> bytes option) \<Rightarrow> (bytes \<Rightarrow> bool \<Rightarrow> pricing_error + 'f Table) \<Rightarrow>
   int \<Rightarrow> nat \<Rightarrow> Config \<Rightarrow> 'f Registry \<Rightarrow> new_error + 'f Handler" where
  "New target_host counter load_pricing version numCPU cfg providers =
     (case New_upstreams providers target_host (Map.empty, Map.empty, Map.empty) (Upstreams cfg) of
        Inl e \<Rightarrow> Inl e
      | Inr (rps, sems, brs) \<Rightarrow>
      case counter ''llmtap.requests.in_flight'' of Some e \<Rightarrow> Inl (InflightCounter e) | None \<Rightarrow>
      case counter ''llmtap.requests.total'' of Some e \<Rightarrow> Inl (RequestsCounter e) | None \<Rightarrow>
      case load_pricing (pr_Path (cfg_Pricing cfg)) (FailOpen (cfg_Pricing cfg)) of
        Inl e \<Rightarrow> Inl (NewPricing e)
      | Inr table \<Rightarrow>
      case NewVerifier version numCPU (Tokens (cfg_Auth cfg)) of
        Inl e \<Rightarrow> Inl (NewAuth e)
      | Inr verifier \<Rightarrow>
          Inr \<lparr>h_cfg = cfg, h_providers = providers, h_rps = rps, h_sems = sems, h_breakers = brs, h_auth = verifier,
               h_authHeader = HeaderName (cfg_Auth cfg),
               h_modelLabel = NewModelLabel DefaultMaxCardinality, h_pricing = table,
               h_streams = 0, h_inflight = [], h_calls = []\<rparr>)"

text \<open>One call of the reverse proxy: on the hook, on the response body, on the writer.\<close>

datatype rp_call = RpHook int bytes | RpBody body_op | RpWriter writer_call

fun icept_ops :: "rp_call list \<Rightarrow> icept_op list" where
  "icept_ops [] = []"
| "icept_ops (RpHook status ct # cs) = Modify status ct # icept_ops cs"
| "icept_ops (RpBody x # cs) = Body x # icept_ops cs"
| "icept_ops (RpWriter w # cs) = icept_ops cs"

fun writer_calls :: "rp_call list \<Rightarrow> writer_call list" where
  "writer_calls [] = []"
| "writer_calls (RpWriter w # cs) = w # writer_calls cs"
| "writer_calls (c # cs) = writer_calls cs"

record 'f env =
  e_idkey :: idkey
  e_sha :: "bytes \<Rightarrow> bytes"
  e_clk :: "nat \<Rightarrow> time"
  e_ready :: "bool option"
  e_upstream :: "Upstream \<Rightarrow> request \<Rightarrow> fwd_body option \<Rightarrow> rp_call list"
  e_seconds :: "duration \<Rightarrow> 'f"
  e_of_int :: "int \<Rightarrow> 'f"
  e_uni :: "bytes \<Rightarrow> bytes"

text \<open>
  The \<open>Rewrite\<close> hook on the headers; the target's scheme, host and path are those of the upstream
  the reverse proxy was built for.
\<close>

definition rp_Rewrite :: "request \<Rightarrow> request" where
  "rp_Rewrite r = r\<lparr>r_Header := header_Del (header_Set (r_Header r) ''Via'' ''llmtap'') ''Accept-Encoding''\<rparr>"

definition rp_ServeHTTP :: "'f env \<Rightarrow> Upstream \<Rightarrow> request \<Rightarrow> fwd_body option \<Rightarrow> rp_call list" where
  "rp_ServeHTTP env rp r body = e_upstream env rp (rp_Rewrite r) body"

subsection \<open>Gates\<close>

definition serveHealthz :: response where
  "serveHealthz = \<lparr>rs_calls = [WriteHeader StatusOK, Write ''ok''], rs_RetryAfter = None, rs_contacted = None, rs_forwarded = None\<rparr>"

definition serveReadyz :: "bool option \<Rightarrow> response" where
  "serveReadyz ready =
     (if ready = None \<or> ready = Some True
      then \<lparr>rs_calls = [WriteHeader StatusOK, Write ''ready''], rs_RetryAfter = None, rs_contacted = None, rs_forwarded = None\<rparr>
      else \<lparr>rs_calls = [WriteHeader StatusServiceUnavailable, Write ''not ready''],
            rs_RetryAfter = Some ''1'', rs_contacted = None, rs_forwarded = None\<rparr>)"

datatype authVerdict = authOK | authRejected | authBusy

definition checkAuth :: "'f env \<Rightarrow> 'f Handler \<Rightarrow> request \<Rightarrow> authVerdict \<times> 'f Handler \<times> request" where
  "checkAuth env h r =
     (let raw = header_Get (r_Header r) (h_authHeader h);
          r = r\<lparr>r_Header := header_Del (r_Header r) (h_authHeader h)\<rparr> in
      if raw = [] then (authRejected, h, r)
      else
        let raw = trim_prefix raw ''Bearer '';
            ((ok, busy), v) = Verify (e_idkey env) (e_sha env) (e_clk env 0) (e_clk env 1) raw (h_auth h);
            h = h\<lparr>h_auth := v\<rparr> in
        if ok then (authOK, h, r) else if busy then (authBusy, h, r) else (authRejected, h, r))"

definition applyAuthGate :: "'f env \<Rightarrow> 'f Handler \<Rightarrow> request \<Rightarrow> response option \<times> 'f Handler \<times> request" where
  "applyAuthGate env h r =
     (if \<not> Verifier_Enabled (Some (h_auth h)) then (None, h, r)
      else case checkAuth env h r of
             (authOK, h, r) \<Rightarrow> (None, h, r)
           | (authBusy, h, r) \<Rightarrow> (Some (error_response ''auth verifier busy'' StatusTooManyRequests (Some ''1'')), h, r)
           | (authRejected, h, r) \<Rightarrow> (Some (error_response ''unauthorized'' StatusUnauthorized None), h, r))"

definition matchUpstream :: "'f Handler \<Rightarrow> request \<Rightarrow> (Upstream \<times> Upstream) option" where
  "matchUpstream h r =
     (case Match (h_cfg h) (r_Path r) of
        (u, False) \<Rightarrow> None
      | (u, True) \<Rightarrow> (case h_rps h (u_Name u) of None \<Rightarrow> None | Some rp \<Rightarrow> Some (u, rp)))"

subsection \<open>Admission\<close>

record admission =
  a_name :: bytes
  a_br :: bool
  a_sem :: bool

definition admit :: "'f env \<Rightarrow> 'f Handler \<Rightarrow> Upstream \<Rightarrow> (response + admission) \<times> 'f Handler" where
  [handler_defs]: "admit env h u =
     (let n = u_Name u;
          gate = (case h_breakers h n of
                    None \<Rightarrow> Inr h
                  | Some b \<Rightarrow>
                      (case breaker_admit (e_clk env 2) (e_clk env 3) b of
                         ((True, _), b) \<Rightarrow> Inr (h\<lparr>h_breakers := (h_breakers h)(n \<mapsto> b)\<rparr>)
                       | ((False, retryAfter), b) \<Rightarrow>
                           Inl (error_response ''upstream circuit breaker open'' StatusServiceUnavailable
                                  (Some (itoa retryAfter)), h\<lparr>h_breakers := (h_breakers h)(n \<mapsto> b)\<rparr>))) in
      case gate of
        Inl (resp, h) \<Rightarrow> (Inl resp, h)
      | Inr h \<Rightarrow>
          (case h_sems h n of
             None \<Rightarrow> (Inr \<lparr>a_name = n, a_br = (h_breakers h n \<noteq> None), a_sem = False\<rparr>, h)
           | Some (cap, used) \<Rightarrow>
               if used < cap then
                 (Inr \<lparr>a_name = n, a_br = (h_breakers h n \<noteq> None), a_sem = True\<rparr>,
                  h\<lparr>h_sems := (h_sems h)(n \<mapsto> (cap, used + 1))\<rparr>)
               else
                 (Inl (error_response ''upstream concurrency limit reached'' StatusTooManyRequests (Some ''1'')),
                  case h_breakers h n of
                    None \<Rightarrow> h
                  | Some b \<Rightarrow>
                      h\<lparr>h_breakers := (h_breakers h)(n \<mapsto>
                          breaker_report StatusTooManyRequests (e_clk env 4) (e_clk env 5) b)\<rparr>)))"

definition release :: "'f env \<Rightarrow> 'f Handler \<Rightarrow> admission \<Rightarrow> int \<Rightarrow> 'f Handler" where
  [handler_defs]: "release env h adm status =
     (let n = a_name adm;
          h = (if a_sem adm then
                 (case h_sems h n of
                    None \<Rightarrow> h | Some (cap, used) \<Rightarrow> h\<lparr>h_sems := (h_sems h)(n \<mapsto> (cap, used - 1))\<rparr>)
               else h) in
      if a_br adm then
        (case h_breakers h n of
           None \<Rightarrow> h
         | Some b \<Rightarrow>
             h\<lparr>h_breakers := (h_breakers h)(n \<mapsto>
                breaker_report (release_code status) (e_clk env 4) (e_clk env 5) b)\<rparr>)
      else h)"

subsection \<open>Dispatch\<close>

text \<open>
  What becomes of a request: forwarded as it is with what is left of its body, refused, or
  enriched. A body whose reading failed is used up and fails on.
\<close>

datatype plan = Passthrough body_src | TooLarge | Enriched captured

definition plan_of :: "Config \<Rightarrow> bytes \<Rightarrow> request \<Rightarrow> plan" where
  "plan_of cfg op r =
     (let hardCap = MaxBodyBytes (cfg_Request cfg) in
      if op = [] then Passthrough (r_Body r)
      else if hardCap > 0 \<and> r_ContentLength r > hardCap then TooLarge
      else case captureHeadAndForward (r_Body r) hardCap of
             Inl ErrBodyTooLarge \<Rightarrow> TooLarge
           | Inl ErrRead \<Rightarrow> Passthrough \<lparr>bs_bytes = [], bs_fails = True\<rparr>
           | Inr cp \<Rightarrow> Enriched cp)"

text \<open>The operation of the request; the provider is registered, as \<open>New\<close> has checked.\<close>

definition operation_of :: "'f Handler \<Rightarrow> Upstream \<Rightarrow> request \<Rightarrow> bytes" where
  "operation_of h u r =
     (case h_providers h (u_Provider u) of None \<Rightarrow> [] | Some prv \<Rightarrow> prv_OperationFor prv (r_Path r))"

definition content_opts :: "Config \<Rightarrow> ContentOpts" where
  "content_opts cfg =
     \<lparr>Capture = (c_Mode (cfg_Content cfg) = CaptureEvents), Redact = Func (c_Redact (cfg_Content cfg))\<rparr>"

definition call_cfg :: "'f env \<Rightarrow> 'f Handler \<Rightarrow> Upstream \<Rightarrow> 'f provider \<Rightarrow> 'f icfg" where
  "call_cfg env h u prv =
     \<lparr>ic_prv = prv, ic_content = content_opts (h_cfg h), ic_upstream = u_Name u, ic_pricing = h_pricing h,
      ic_clk = (\<lambda>n. e_clk env (7 + n)), ic_seconds = e_seconds env, ic_of_int = e_of_int env, ic_uni = e_uni env\<rparr>"

text \<open>The enriched pipeline: span, request parser, interceptor, reverse proxy, finalize.\<close>

definition enrich ::
  "'f::{zero,ord,numeral,times,inverse,plus} env \<Rightarrow> 'f Handler \<Rightarrow> Upstream \<Rightarrow> 'f provider \<Rightarrow> bytes \<Rightarrow> bytes \<Rightarrow>
   bytes \<Rightarrow> rp_call list \<Rightarrow> 'f Handler" where
  "enrich env h u prv op path body calls =
     (let ic = call_cfg env h u prv;
          (info, sops) = prv_ParseRequest prv (e_clk env 6) path body (ic_content ic);
          it = foldl (icept_step ic) (new_interceptor info sops (h_modelLabel h) (h_streams h)) (icept_ops calls);
          it = finalize ic it in
      h\<lparr>h_modelLabel := it_labels it, h_streams := it_streams it, h_calls := h_calls h @ [(SpanName op [], it)]\<rparr>)"

definition inflight_Add :: "'f Handler \<Rightarrow> Upstream \<Rightarrow> int \<Rightarrow> 'f Handler" where
  "inflight_Add h u n = h\<lparr>h_inflight := h_inflight h @ [(u_Name u, n)]\<rparr>"

text \<open>
  The body of \<open>ServeHTTP\<close> after admission. A provider missing from the registry would be a nil
  interface, whose method call panics before anything is written; \<open>New\<close> rules that out.
\<close>

definition handler_dispatch ::
  "'f::{zero,ord,numeral,times,inverse,plus} env \<Rightarrow> 'f Handler \<Rightarrow> Upstream \<Rightarrow> Upstream \<Rightarrow> request \<Rightarrow>
   response \<times> 'f Handler" where
  "handler_dispatch env h u rp r =
     (case h_providers h (u_Provider u) of
        None \<Rightarrow> (\<lparr>rs_calls = [], rs_RetryAfter = None, rs_contacted = None, rs_forwarded = None\<rparr>, h)
      | Some prv \<Rightarrow>
          (let op = prv_OperationFor prv (r_Path r) in
           if op = [] then
             (\<lparr>rs_calls = writer_calls (rp_ServeHTTP env rp r None), rs_RetryAfter = None, rs_contacted = Some rp,
               rs_forwarded = Some (rp_Rewrite r)\<rparr>, h)
           else
             let h = inflight_Add h u 1;
                 (resp, h) =
                   (case plan_of (h_cfg h) op r of
                      Passthrough body \<Rightarrow>
                        (\<lparr>rs_calls = writer_calls (rp_ServeHTTP env rp (r\<lparr>r_Body := body\<rparr>) None), rs_RetryAfter = None,
                          rs_contacted = Some rp, rs_forwarded = Some (rp_Rewrite (r\<lparr>r_Body := body\<rparr>))\<rparr>, h)
                    | TooLarge \<Rightarrow> (error_response ''request body exceeds maximum'' StatusRequestEntityTooLarge None, h)
                    | Enriched cp \<Rightarrow>
                        (let r = r\<lparr>r_ContentLength := cp_ContentLength cp\<rparr>;
                             calls = rp_ServeHTTP env rp r (Some (cp_body cp)) in
                         (\<lparr>rs_calls = writer_calls calls, rs_RetryAfter = None, rs_contacted = Some rp,
                           rs_forwarded = Some (rp_Rewrite r)\<rparr>,
                          enrich env h u prv op (r_Path r) (cp_head cp) calls))) in
             (resp, inflight_Add h u (-1))))"

definition ServeHTTP ::
  "'f::{zero,ord,numeral,times,inverse,plus} env \<Rightarrow> 'f Handler \<Rightarrow> request \<Rightarrow> response \<times> 'f Handler" where
  "ServeHTTP env h r =
     (if r_Method r = ''GET'' \<and> r_Path r = ''/healthz'' then (serveHealthz, h)
      else if r_Method r = ''GET'' \<and> r_Path r = ''/readyz'' then (serveReadyz (e_ready env), h)
      else
        case applyAuthGate env h r of
          (Some resp, h, r) \<Rightarrow> (resp, h)
        | (None, h, r) \<Rightarrow>
            (case matchUpstream h r of
               None \<Rightarrow> (error_response ''404 page not found'' StatusNotFound None, h)
             | Some (u, rp) \<Rightarrow>
                 (case admit env h u of
                    (Inl resp, h) \<Rightarrow> (resp, h)
                  | (Inr adm, h) \<Rightarrow>
                      (let (resp, h) = handler_dispatch env h u rp r in
                       (resp, release env h adm (captured_status (rs_calls resp)))))))"

subsection \<open>Lemmas\<close>

lemma header_Get_Del [simp]: "header_Get (header_Del h k) k = []"
proof -
  have "map_of (filter (\<lambda>(n, _). n \<noteq> x) h) x = None" for x
    by (auto simp: map_of_eq_None_iff)
  then show ?thesis by (simp add: header_Get_def header_Del_def)
qed

lemma header_Get_Set: "header_Get (header_Set h k v) k' = (if canonical_key k' = canonical_key k then v else header_Get h k')"
proof -
  have "map_of (filter (\<lambda>(n, _). n \<noteq> x) h) y = map_of h y" if "x \<noteq> y" for x y
    using that by (induction h) auto
  then show ?thesis by (simp add: header_Get_def header_Set_def header_Del_def)
qed

lemma header_Get_Del_other: "canonical_key k' \<noteq> canonical_key k \<Longrightarrow> header_Get (header_Del h k) k' = header_Get h k'"
  using header_Get_Set [of h k "[]" k'] by (simp add: header_Get_def header_Set_def)

lemma Rewrite_headers:
  "header_Get (r_Header (rp_Rewrite r)) ''Accept-Encoding'' = []"
  "header_Get (r_Header (rp_Rewrite r)) ''Via'' = ''llmtap''"
  "header_Get (r_Header (rp_Rewrite r)) k \<in> {header_Get (r_Header r) k, [], ''llmtap''}"
proof -
  have "canonical_key ''Via'' \<noteq> canonical_key ''Accept-Encoding''" by code_simp
  then show "header_Get (r_Header (rp_Rewrite r)) ''Via'' = ''llmtap''"
    by (simp add: rp_Rewrite_def header_Get_Del_other header_Get_Set)
  show "header_Get (r_Header (rp_Rewrite r)) k \<in> {header_Get (r_Header r) k, [], ''llmtap''}"
  proof (cases "canonical_key k = canonical_key ''Accept-Encoding''")
    case True
    have "header_Get x k = header_Get x ''Accept-Encoding''" for x unfolding header_Get_def True ..
    then show ?thesis by (simp add: rp_Rewrite_def)
  next
    case False
    then show ?thesis by (simp add: rp_Rewrite_def header_Get_Del_other header_Get_Set)
  qed
qed (simp add: rp_Rewrite_def)

lemma Rewrite_frame [simp]:
  "r_Path (rp_Rewrite r) = r_Path r" "r_Method (rp_Rewrite r) = r_Method r" "r_Body (rp_Rewrite r) = r_Body r"
  by (simp_all add: rp_Rewrite_def)

text \<open>The handler after the auth gate differs only in the verifier.\<close>

lemma applyAuthGate_frame:
  assumes "applyAuthGate env h r = (x, h', r')"
  shows "h_cfg h' = h_cfg h \<and> h_rps h' = h_rps h \<and> h_sems h' = h_sems h \<and> h_breakers h' = h_breakers h
     \<and> h_providers h' = h_providers h \<and> h_streams h' = h_streams h \<and> h_inflight h' = h_inflight h \<and> h_calls h' = h_calls h
     \<and> r_Path r' = r_Path r \<and> r_Method r' = r_Method r \<and> r_Body r' = r_Body r \<and> r_ContentLength r' = r_ContentLength r"
  using assms
  by (auto simp: applyAuthGate_def checkAuth_def Let_def split: if_splits prod.splits authVerdict.splits)

definition presented_token :: "'f Handler \<Rightarrow> request \<Rightarrow> bytes" where
  "presented_token h r = trim_prefix (header_Get (r_Header r) (h_authHeader h)) ''Bearer ''"

definition authenticated :: "'f env \<Rightarrow> 'f Handler \<Rightarrow> request \<Rightarrow> bool" where
  "authenticated env h r \<longleftrightarrow>
     header_Get (r_Header r) (h_authHeader h) \<noteq> []
     \<and> fst (fst (Verify (e_idkey env) (e_sha env) (e_clk env 0) (e_clk env 1) (presented_token h r) (h_auth h)))"

lemma applyAuthGate_pass:
  assumes "applyAuthGate env h r = (None, h', r')" and "Verifier_Enabled (Some (h_auth h))"
  shows "authenticated env h r \<and> header_Get (r_Header r') (h_authHeader h) = []"
  using assms
  by (auto simp: applyAuthGate_def checkAuth_def authenticated_def presented_token_def Let_def
      split: if_splits prod.splits authVerdict.splits)

lemma applyAuthGate_refuse:
  assumes "applyAuthGate env h r = (Some resp, h', r')"
  shows "rs_contacted resp = None \<and> captured_status (rs_calls resp) \<in> {StatusUnauthorized, StatusTooManyRequests}
     \<and> Verifier_Enabled (Some (h_auth h)) \<and> \<not> authenticated env h r"
  using assms
  by (auto simp: applyAuthGate_def checkAuth_def authenticated_def presented_token_def error_response_def
      http_Error_def captured_status_def StatusUnauthorized_def StatusTooManyRequests_def Let_def
      split: if_splits prod.splits authVerdict.splits)

definition breaker_admits :: "'f env \<Rightarrow> 'f Handler \<Rightarrow> bytes \<Rightarrow> bool" where
  "breaker_admits env h n \<longleftrightarrow>
     (case h_breakers h n of None \<Rightarrow> True | Some b \<Rightarrow> fst (breaker_gate (e_clk env 2, e_clk env 3) b))"

definition slot_free :: "'f Handler \<Rightarrow> bytes \<Rightarrow> bool" where
  "slot_free h n \<longleftrightarrow> (case h_sems h n of None \<Rightarrow> True | Some (cap, used) \<Rightarrow> used < cap)"

lemma admit_cases:
  assumes "admit env h u = (x, h')"
  shows "h_cfg h' = h_cfg h \<and> h_rps h' = h_rps h \<and> h_providers h' = h_providers h
     \<and> h_streams h' = h_streams h \<and> h_inflight h' = h_inflight h \<and> h_calls h' = h_calls h
     \<and> (case x of
          Inr adm \<Rightarrow> breaker_admits env h (u_Name u) \<and> slot_free h (u_Name u) \<and> a_name adm = u_Name u
        | Inl resp \<Rightarrow> rs_contacted resp = None
            \<and> captured_status (rs_calls resp) =
                (if breaker_admits env h (u_Name u) then StatusTooManyRequests else StatusServiceUnavailable)
            \<and> (breaker_admits env h (u_Name u) \<longrightarrow> \<not> slot_free h (u_Name u)))"
  using assms
  by (auto simp: admit_def breaker_admits_def slot_free_def breaker_gate_def error_response_def http_Error_def
      captured_status_def StatusTooManyRequests_def StatusServiceUnavailable_def Let_def
      split: option.splits prod.splits bool.splits if_splits sum.splits)

definition breakers_idle :: "'f Handler \<Rightarrow> bool" where
  "breakers_idle h \<longleftrightarrow> (\<forall>n b. h_breakers h n = Some b \<longrightarrow> breaker_wf b \<and> \<not> half_open b)"

lemma breakers_idle_upd:
  "breakers_idle h \<Longrightarrow> breaker_wf b \<Longrightarrow> \<not> half_open b \<Longrightarrow> breakers_idle (h\<lparr>h_breakers := (h_breakers h)(n \<mapsto> b)\<rparr>)"
  by (simp add: breakers_idle_def)

lemma report_idle: "breaker_wf b \<Longrightarrow> breaker_wf (breaker_report c t1 t2 b) \<and> \<not> half_open (breaker_report c t1 t2 b)"
  by (simp add: breaker_report_wf report_resolved)

text \<open>A refused request leaves the semaphores alone and no breaker half-open.\<close>

lemma admit_refused:
  assumes "admit env h u = (Inl resp, h')" and "breakers_idle h"
  shows "h_sems h' = h_sems h \<and> dom (h_breakers h') = dom (h_breakers h) \<and> breakers_idle h'"
proof (cases "h_breakers h (u_Name u)")
  case None
  then show ?thesis using assms by (auto simp: admit_def Let_def split: option.splits prod.splits if_splits)
next
  case (Some b)
  obtain ok ra b' where g: "breaker_admit (e_clk env 2) (e_clk env 3) b = ((ok, ra), b')" by (metis prod.exhaust)
  have b: "breaker_wf b" "\<not> half_open b" using assms(2) Some by (auto simp: breakers_idle_def)
  then have wf: "breaker_wf b'" using breaker_admit_wf [OF b(1), of "e_clk env 2" "e_clk env 3"] g by simp
  have dom: "insert (u_Name u) (dom (h_breakers h)) = dom (h_breakers h)" using Some by auto
  show ?thesis
  proof (cases ok)
    case False
    then have "\<not> half_open b'"
      using breaker.admit_claims [OF b(2), of "(e_clk env 2, e_clk env 3)"] g by (auto simp: breaker_gate_def)
    then have "breakers_idle (h\<lparr>h_breakers := (h_breakers h)(u_Name u \<mapsto> b')\<rparr>)"
      using assms(2) wf by (intro breakers_idle_upd)
    moreover have "h' = h\<lparr>h_breakers := (h_breakers h)(u_Name u \<mapsto> b')\<rparr>"
      using assms(1) Some g False by (simp add: admit_def)
    ultimately show ?thesis using dom by simp
  next
    case True
    let ?r = "breaker_report StatusTooManyRequests (e_clk env 4) (e_clk env 5) b'"
    have "h' = h\<lparr>h_breakers := (h_breakers h)(u_Name u \<mapsto> ?r)\<rparr>"
      using assms(1) Some g True by (auto simp: admit_def Let_def split: option.splits prod.splits if_splits)
    then show ?thesis
      using breakers_idle_upd [OF assms(2), of ?r "u_Name u"] report_idle [OF wf] dom by simp
  qed
qed

text \<open>Admission followed by the release of what was claimed.\<close>

lemma admit_release:
  assumes "admit env h u = (Inr adm, h1)" and "breakers_idle h"
  shows "h_sems (release env h1 adm status) = h_sems h
     \<and> dom (h_breakers (release env h1 adm status)) = dom (h_breakers h)
     \<and> breakers_idle (release env h1 adm status)"
proof (cases "h_breakers h (u_Name u)")
  case None
  then show ?thesis
    using assms
    by (auto simp: admit_def release_def breakers_idle_def Let_def fun_upd_idem split: option.splits prod.splits if_splits)
next
  case (Some b)
  obtain ok ra b' where g: "breaker_admit (e_clk env 2) (e_clk env 3) b = ((ok, ra), b')" by (metis prod.exhaust)
  have ok using assms(1) Some g by (cases ok) (auto simp: admit_def)
  have "breaker_wf b'"
    using breaker_admit_wf [of b "e_clk env 2" "e_clk env 3"] g assms(2) Some by (auto simp: breakers_idle_def)
  let ?r = "breaker_report (release_code status) (e_clk env 4) (e_clk env 5) b'"
  have r: "breaker_wf ?r" "\<not> half_open ?r" using report_idle [OF \<open>breaker_wf b'\<close>] by auto
  have "release env h1 adm status = h\<lparr>h_breakers := (h_breakers h)(u_Name u \<mapsto> ?r)\<rparr>"
  proof (cases "h_sems h (u_Name u)")
    case None
    then show ?thesis
      using assms(1) Some g \<open>ok\<close> by (auto simp: admit_def release_def Let_def)
  next
    case sem: (Some cu)
    obtain cap used where cu: "cu = (cap, used)" by (cases cu)
    have "(h_sems h)(u_Name u \<mapsto> (cap, used)) = h_sems h" using sem cu by (simp add: fun_upd_idem)
    then show ?thesis
      using assms(1) Some g \<open>ok\<close> sem cu by (auto simp: admit_def release_def Let_def split: if_splits)
  qed
  then show ?thesis
    using breakers_idle_upd [OF assms(2) r] Some by auto
qed

lemma matchUpstream_Some:
  "matchUpstream h r = Some (u, rp) \<longleftrightarrow> Match (h_cfg h) (r_Path r) = (u, True) \<and> h_rps h (u_Name u) = Some rp"
  by (auto simp: matchUpstream_def split: prod.splits bool.splits option.splits)

lemma plan_of_cong:
  assumes "r_ContentLength r1 = r_ContentLength r" and "r_Body r1 = r_Body r"
  shows "plan_of cfg op r1 = plan_of cfg op r"
  unfolding plan_of_def assms by (rule refl)

lemma plan_TooLarge:
  assumes "op \<noteq> []" and "0 < MaxBodyBytes (cfg_Request cfg)"
    and "r_ContentLength r > MaxBodyBytes (cfg_Request cfg)
      \<or> MaxBodyBytes (cfg_Request cfg) < int (length (bs_bytes (r_Body r)))
        \<and> length (bs_bytes (r_Body r)) \<le> maxEnrichmentBodyBytes \<and> \<not> bs_fails (r_Body r)"
  shows "plan_of cfg op r = TooLarge"
  using assms by (auto simp: plan_of_def captureHeadAndForward_def read_limited_def Let_def)

lemma plan_not_TooLarge:
  assumes "r_ContentLength r \<le> MaxBodyBytes (cfg_Request cfg)"
    and "int (length (bs_bytes (r_Body r))) \<le> MaxBodyBytes (cfg_Request cfg)"
  shows "plan_of cfg op r \<noteq> TooLarge"
  using assms
  by (auto simp: plan_of_def captureHeadAndForward_def read_limited_def Let_def split: body_error.splits if_splits)

lemma plan_Enriched:
  "plan_of cfg op r = Enriched cp \<Longrightarrow> captureHeadAndForward (r_Body r) (MaxBodyBytes (cfg_Request cfg)) = Inr cp"
  by (auto simp: plan_of_def Let_def split: if_splits sum.splits body_error.splits)

lemma operation_of_cong: "h_providers h1 = h_providers h \<Longrightarrow> r_Path r1 = r_Path r \<Longrightarrow> operation_of h1 u r1 = operation_of h u r"
  by (simp add: operation_of_def split: option.split)

text \<open>What dispatch does: the plan decides, and the per-upstream resources are left alone.\<close>

lemma enrich_frame [simp]:
  "h_cfg (enrich env h u prv op p b cs) = h_cfg h" "h_rps (enrich env h u prv op p b cs) = h_rps h"
  "h_sems (enrich env h u prv op p b cs) = h_sems h" "h_breakers (enrich env h u prv op p b cs) = h_breakers h"
  "h_auth (enrich env h u prv op p b cs) = h_auth h" "h_inflight (enrich env h u prv op p b cs) = h_inflight h"
  by (simp_all add: enrich_def Let_def case_prod_unfold)

lemma inflight_frame [simp]:
  "h_cfg (inflight_Add h u n) = h_cfg h" "h_rps (inflight_Add h u n) = h_rps h" "h_providers (inflight_Add h u n) = h_providers h"
  "h_sems (inflight_Add h u n) = h_sems h" "h_breakers (inflight_Add h u n) = h_breakers h"
  "h_auth (inflight_Add h u n) = h_auth h" "h_calls (inflight_Add h u n) = h_calls h" "h_streams (inflight_Add h u n) = h_streams h"
  "h_inflight (inflight_Add h u n) = h_inflight h @ [(u_Name u, n)]"
  by (simp_all add: inflight_Add_def)

lemma handler_dispatch_frame:
  assumes "handler_dispatch env h u rp r = (resp, h')"
  shows "h_sems h' = h_sems h \<and> h_breakers h' = h_breakers h \<and> h_auth h' = h_auth h"
  using assms
  by (auto simp: handler_dispatch_def Let_def split: option.splits plan.splits if_splits)

lemma dispatch_cases:
  assumes "handler_dispatch env h u rp r = (resp, h')" and "h_providers h (u_Provider u) \<noteq> None"
  shows "case plan_of (h_cfg h) (operation_of h u r) r of
      TooLarge \<Rightarrow> rs_contacted resp = None \<and> captured_status (rs_calls resp) = StatusRequestEntityTooLarge
    | Passthrough body \<Rightarrow> rs_contacted resp = Some rp
        \<and> rs_forwarded resp = Some (rp_Rewrite (r\<lparr>r_Body := body\<rparr>))
        \<and> rs_calls resp = writer_calls (rp_ServeHTTP env rp (r\<lparr>r_Body := body\<rparr>) None)
    | Enriched cp \<Rightarrow> rs_contacted resp = Some rp
        \<and> rs_forwarded resp = Some (rp_Rewrite (r\<lparr>r_ContentLength := cp_ContentLength cp\<rparr>))
        \<and> rs_calls resp = writer_calls (rp_ServeHTTP env rp (r\<lparr>r_ContentLength := cp_ContentLength cp\<rparr>) (Some (cp_body cp)))"
proof -
  obtain prv where p: "h_providers h (u_Provider u) = Some prv" using assms(2) by blast
  show ?thesis
  proof (cases "prv_OperationFor prv (r_Path r) = []")
    case True
    then show ?thesis using assms(1) p by (auto simp: handler_dispatch_def operation_of_def plan_of_def)
  next
    case False
    then show ?thesis
      using assms(1) p
      by (auto simp: handler_dispatch_def operation_of_def Let_def error_response_def http_Error_def captured_status_def
          StatusRequestEntityTooLarge_def split: plan.splits)
  qed
qed

lemma release_cong:
  assumes "h_sems h2 = h_sems h1" and "h_breakers h2 = h_breakers h1"
  shows "h_sems (release env h2 adm st) = h_sems (release env h1 adm st)"
    and "h_breakers (release env h2 adm st) = h_breakers (release env h1 adm st)"
  using assms by (auto simp: release_def Let_def split: option.split)

lemma release_frame [simp]:
  "h_streams (release env h adm st) = h_streams h" "h_inflight (release env h adm st) = h_inflight h"
  "h_calls (release env h adm st) = h_calls h"
  by (auto simp: release_def Let_def split: option.split)

text \<open>
  The refusals of the gates, as status and \<open>Retry-After\<close>, from the state before the request.
\<close>

definition auth_fails :: "'f env \<Rightarrow> 'f Handler \<Rightarrow> request \<Rightarrow> bool" where
  "auth_fails env h r \<longleftrightarrow> Verifier_Enabled (Some (h_auth h)) \<and> \<not> authenticated env h r"

definition auth_busy :: "'f env \<Rightarrow> 'f Handler \<Rightarrow> request \<Rightarrow> bool" where
  "auth_busy env h r \<longleftrightarrow>
     header_Get (r_Header r) (h_authHeader h) \<noteq> []
     \<and> snd (fst (Verify (e_idkey env) (e_sha env) (e_clk env 0) (e_clk env 1) (presented_token h r) (h_auth h)))"

definition breaker_retry :: "'f env \<Rightarrow> 'f Handler \<Rightarrow> bytes \<Rightarrow> int" where
  "breaker_retry env h n =
     (case h_breakers h n of None \<Rightarrow> 0 | Some b \<Rightarrow> snd (fst (breaker_admit (e_clk env 2) (e_clk env 3) b)))"

definition refusal :: "'f env \<Rightarrow> 'f Handler \<Rightarrow> request \<Rightarrow> (int \<times> bytes option) option" where
  "refusal env h r =
     (if auth_fails env h r then Some (if auth_busy env h r then (429, Some ''1'') else (401, None))
      else case matchUpstream h r of
             None \<Rightarrow> Some (404, None)
           | Some (u, _) \<Rightarrow>
               if \<not> breaker_admits env h (u_Name u) then Some (503, Some (itoa (breaker_retry env h (u_Name u))))
               else if \<not> slot_free h (u_Name u) then Some (429, Some ''1'')
               else if plan_of (h_cfg h) (operation_of h u r) r = TooLarge then Some (413, None)
               else None)"

definition auth_refusal :: "'f env \<Rightarrow> 'f Handler \<Rightarrow> request \<Rightarrow> response" where
  "auth_refusal env h r =
     (if auth_busy env h r then error_response ''auth verifier busy'' 429 (Some ''1'')
      else error_response ''unauthorized'' 401 None)"

lemma error_response_simps [simp]:
  "rs_contacted (error_response m c ra) = None" "rs_RetryAfter (error_response m c ra) = ra"
  "c \<noteq> 0 \<Longrightarrow> captured_status (rs_calls (error_response m c ra)) = c"
  by (simp_all add: error_response_def http_Error_def captured_status_def)

lemma applyAuthGate_eq:
  assumes "applyAuthGate env h r = (x, h', r')"
  shows "x = (if auth_fails env h r then Some (auth_refusal env h r) else None)"
  using assms
  by (auto simp: applyAuthGate_def checkAuth_def auth_fails_def authenticated_def auth_busy_def auth_refusal_def
      presented_token_def StatusUnauthorized_def StatusTooManyRequests_def Let_def
      split: if_splits prod.splits authVerdict.splits)

lemma admit_refusal:
  assumes "admit env h u = (Inl resp, h')"
  shows "h_sems h' = h_sems h \<and> rs_contacted resp = None
     \<and> (if breaker_admits env h (u_Name u)
        then \<not> slot_free h (u_Name u) \<and> captured_status (rs_calls resp) = 429 \<and> rs_RetryAfter resp = Some ''1''
        else captured_status (rs_calls resp) = 503 \<and> rs_RetryAfter resp = Some (itoa (breaker_retry env h (u_Name u))))"
  using assms
  by (auto simp: admit_def breaker_admits_def slot_free_def breaker_gate_def breaker_retry_def
      StatusTooManyRequests_def StatusServiceUnavailable_def Let_def
      split: option.splits prod.splits bool.splits if_splits sum.splits)

lemma admit_release_sems:
  assumes "admit env h u = (Inr adm, h1)"
  shows "h_sems (release env h1 adm status) = h_sems h"
proof -
  have "a_name adm = u_Name u \<and> (case h_sems h (u_Name u) of
         None \<Rightarrow> \<not> a_sem adm \<and> h_sems h1 = h_sems h
       | Some (cap, used) \<Rightarrow> a_sem adm \<and> h_sems h1 = (h_sems h)(u_Name u \<mapsto> (cap, used + 1)))"
    using assms
    by (auto simp: admit_def Let_def split: option.splits prod.splits bool.splits if_splits sum.splits)
  then show ?thesis
    by (auto simp: release_def Let_def fun_upd_idem split: option.splits prod.splits)
qed

lemma matchUpstream_cong:
  "h_cfg h1 = h_cfg h \<Longrightarrow> h_rps h1 = h_rps h \<Longrightarrow> r_Path r1 = r_Path r \<Longrightarrow> matchUpstream h1 r1 = matchUpstream h r"
  unfolding matchUpstream_def by metis

lemma dispatch_retry:
  assumes "handler_dispatch env h u rp r = (resp, h')"
  shows "rs_RetryAfter resp = None"
  using assms
  by (auto simp: handler_dispatch_def Let_def split: option.splits plan.splits if_splits)

text \<open>Every upstream's provider is registered, as \<open>New\<close> ensures.\<close>

definition handler_ok :: "'f Handler \<Rightarrow> bool" where
  "handler_ok h \<longleftrightarrow> (\<forall>u \<in> set (Upstreams (h_cfg h)). h_providers h (u_Provider u) \<noteq> None)"

lemma dispatch_contact:
  "handler_dispatch env h u rp r = (resp, h') \<Longrightarrow> rs_contacted resp \<noteq> None \<Longrightarrow> h_providers h (u_Provider u) \<noteq> None"
  by (cases "h_providers h (u_Provider u)") (auto simp: handler_dispatch_def)

text \<open>What a contacted upstream is sent.\<close>

lemma dispatch_sent:
  assumes "handler_dispatch env h u rp r = (resp, h')" and "rs_contacted resp \<noteq> None"
  shows "\<exists>r2 body. rs_forwarded resp = Some (rp_Rewrite r2) \<and> rs_calls resp = writer_calls (e_upstream env rp (rp_Rewrite r2) body)
     \<and> r_Path r2 = r_Path r \<and> r_Method r2 = r_Method r \<and> r_Header r2 = r_Header r"
proof (cases "plan_of (h_cfg h) (operation_of h u r) r")
  case (Passthrough b)
  then show ?thesis
    using dispatch_cases [OF assms(1) dispatch_contact [OF assms]]
    by (intro exI [of _ "r\<lparr>r_Body := b\<rparr>"] exI [of _ None]) (simp add: rp_ServeHTTP_def)
next
  case (Enriched cp)
  then show ?thesis
    using dispatch_cases [OF assms(1) dispatch_contact [OF assms]]
    by (intro exI [of _ "r\<lparr>r_ContentLength := cp_ContentLength cp\<rparr>"] exI [of _ "Some (cp_body cp)"])
      (simp add: rp_ServeHTTP_def)
qed (use dispatch_cases [OF assms(1) dispatch_contact [OF assms]] assms(2) in simp)

text \<open>The ways through \<open>ServeHTTP\<close>.\<close>

lemma ServeHTTP_cases:
  assumes "ServeHTTP env h r = (resp, h')"
  obtains (probe) "r_Method r = ''GET''" "r_Path r \<in> {''/healthz'', ''/readyz''}" "h' = h" "rs_contacted resp = None"
  | (auth) r1 where "applyAuthGate env h r = (Some resp, h', r1)"
  | (nomatch) r1 where "applyAuthGate env h r = (None, h', r1)" "matchUpstream h' r1 = None"
      "resp = error_response ''404 page not found'' StatusNotFound None"
  | (refused) r1 h1 u rp where "applyAuthGate env h r = (None, h1, r1)" "matchUpstream h1 r1 = Some (u, rp)"
      "admit env h1 u = (Inl resp, h')"
  | (served) r1 h1 u rp adm h2 h3 where "applyAuthGate env h r = (None, h1, r1)" "matchUpstream h1 r1 = Some (u, rp)"
      "admit env h1 u = (Inr adm, h2)" "handler_dispatch env h2 u rp r1 = (resp, h3)"
      "h' = release env h3 adm (captured_status (rs_calls resp))"
proof (cases "r_Method r = ''GET'' \<and> r_Path r \<in> {''/healthz'', ''/readyz''}")
  case True
  then show thesis
    using assms by (intro probe) (auto simp: ServeHTTP_def serveHealthz_def serveReadyz_def split: if_splits)
next
  case False
  obtain x h1 r1 where g: "applyAuthGate env h r = (x, h1, r1)" by (metis prod.exhaust)
  have s: "ServeHTTP env h r = (case x of
      Some resp \<Rightarrow> (resp, h1)
    | None \<Rightarrow> (case matchUpstream h1 r1 of
         None \<Rightarrow> (error_response ''404 page not found'' StatusNotFound None, h1)
       | Some (u, rp) \<Rightarrow> (case admit env h1 u of
            (Inl resp, h) \<Rightarrow> (resp, h)
          | (Inr adm, h) \<Rightarrow> (let (resp, h) = handler_dispatch env h u rp r1 in
               (resp, release env h adm (captured_status (rs_calls resp)))))))"
    using False g by (auto simp: ServeHTTP_def split: option.split)
  show thesis
  proof (cases x)
    case (Some y)
    then show thesis using assms s g by (intro auth) simp
  next
    case None
    show thesis
    proof (cases "matchUpstream h1 r1")
      case None
      then show thesis using assms s g \<open>x = None\<close> by (intro nomatch) auto
    next
      case (Some m)
      obtain u rp where m: "m = (u, rp)" by (cases m)
      obtain a h2 where a: "admit env h1 u = (a, h2)" by fastforce
      show thesis
      proof (cases a)
        case (Inl e)
        then show thesis using assms s g \<open>x = None\<close> Some m a by (intro refused) auto
      next
        case (Inr adm)
        then show thesis using assms s g \<open>x = None\<close> Some m a by (intro served) (auto simp: Let_def case_prod_unfold)
      qed
    qed
  qed
qed

lemma New_upstreams_rps:
  "New_upstreams pv th (rps, sems, brs) us = Inr (rps', sems', brs') \<Longrightarrow>
   rps' n = (case find (\<lambda>u. u_Name u = n) (rev us) of Some u \<Rightarrow> Some u | None \<Rightarrow> rps n)"
proof (induction us arbitrary: rps sems brs)
  case (Cons u us)
  obtain sems1 brs1 where "New_upstreams pv th (rps(u_Name u \<mapsto> u), sems1, brs1) us = Inr (rps', sems', brs')"
    using Cons.prems by (auto simp: Let_def split: if_splits option.splits sum.splits)
  from Cons.IH [OF this] show ?case by (auto simp: find_append_case split: option.split)
qed simp

lemma New_rps:
  assumes "New th ct lp version n cfg pv = Inr h"
  shows "h_cfg h = cfg \<and> h_rps h = (\<lambda>m. find (\<lambda>u. u_Name u = m) (rev (Upstreams cfg)))"
proof -
  obtain rps sems brs where u: "New_upstreams pv th (Map.empty, Map.empty, Map.empty) (Upstreams cfg) = Inr (rps, sems, brs)"
    and h: "h_rps h = rps" "h_cfg h = cfg"
    using assms by (auto simp: New_def split: sum.splits prod.splits option.splits)
  have "rps m = find (\<lambda>u. u_Name u = m) (rev (Upstreams cfg))" for m
    using New_upstreams_rps [OF u, of m] by (simp split: option.splits)
  with h show ?thesis by auto
qed

lemma New_upstreams_providers:
  "New_upstreams pv th maps us = Inr maps' \<Longrightarrow> u \<in> set us \<Longrightarrow> pv (u_Provider u) \<noteq> None"
proof (induction us arbitrary: maps)
  case (Cons v us)
  obtain rps sems brs where m: "maps = (rps, sems, brs)" by (cases maps)
  obtain maps1 where "New_upstreams pv th maps1 us = Inr maps'" "pv (u_Provider v) \<noteq> None"
    using Cons.prems(1) unfolding m by (auto simp: Let_def split: if_splits option.splits sum.splits)
  then show ?case using Cons.IH [of maps1] Cons.prems(2) by auto
qed simp

lemma New_ok: "New th ct lp version n cfg pv = Inr h \<Longrightarrow> handler_ok h"
  using New_upstreams_providers [of pv th]
  by (auto simp: New_def handler_ok_def split: sum.splits prod.splits option.splits)

text \<open>\<open>New\<close> cannot fail on the upstreams of a validated configuration.\<close>

lemma transport_builds:
  assumes "upstream_ok url_ok u"
  shows "\<exists>tr. buildUpstreamTransport host u = Inr tr"
proof -
  obtain pins where "parsePins (PinSHA256 u) = Inr pins"
    using assms parsePins_ok [of "PinSHA256 u"] by (auto simp: upstream_ok_def)
  then show ?thesis by (simp add: buildUpstreamTransport_def Let_def)
qed

lemma New_upstreams_total:
  assumes "\<forall>u \<in> set us. upstream_ok url_ok u" and "\<forall>t. url_ok t \<longrightarrow> th t \<noteq> None"
    and "\<forall>u \<in> set us. pv (u_Provider u) \<noteq> None"
  shows "\<exists>maps'. New_upstreams pv th maps us = Inr maps'"
  using assms(1,3)
proof (induction us arbitrary: maps)
  case (Cons u us)
  obtain rps sems brs where m: "maps = (rps, sems, brs)" by (cases maps)
  have ok: "upstream_ok url_ok u" using Cons.prems(1) by simp
  then obtain host where "th (u_Target u) = Some host" using assms(2) by (auto simp: upstream_ok_def)
  moreover obtain tr where "buildUpstreamTransport host u = Inr tr" using transport_builds [OF ok] by blast
  ultimately show ?case using Cons by (simp add: m Let_def)
qed (auto split: prod.splits intro: exI)

lemma New_upstreams_fresh:
  assumes "New_upstreams pv th (rps, sems, brs) us = Inr (rps', sems', brs')"
    and "\<forall>n b. brs n = Some b \<longrightarrow> breaker_wf b \<and> \<not> half_open b"
    and "\<forall>n cap used. sems n = Some (cap, used) \<longrightarrow> 0 < cap \<and> used = 0"
  shows "(\<forall>n b. brs' n = Some b \<longrightarrow> breaker_wf b \<and> \<not> half_open b)
     \<and> (\<forall>n cap used. sems' n = Some (cap, used) \<longrightarrow> 0 < cap \<and> used = 0)"
  using assms
proof (induction us arbitrary: rps sems brs)
  case (Cons u us)
  let ?sems = "if MaxInFlight u > 0 then sems(u_Name u \<mapsto> (nat (MaxInFlight u), 0)) else sems"
  let ?brs = "if Failures (u_Breaker u) > 0 then brs(u_Name u \<mapsto> newBreaker (u_Breaker u)) else brs"
  have "New_upstreams pv th (rps(u_Name u \<mapsto> u), ?sems, ?brs) us = Inr (rps', sems', brs')"
    using Cons.prems(1) by (auto simp: Let_def split: if_splits option.splits sum.splits)
  then show ?case
    by (rule Cons.IH) (use Cons.prems(2,3) in \<open>auto simp: newBreaker_wf half_open_def\<close>)
qed simp

lemma New_fresh:
  assumes "New th ct lp version n cfg pv = Inr h"
  shows "breakers_idle h \<and> (\<forall>n cap used. h_sems h n = Some (cap, used) \<longrightarrow> 0 < cap \<and> used = 0)"
proof -
  obtain rps sems brs where "New_upstreams pv th (Map.empty, Map.empty, Map.empty) (Upstreams cfg) = Inr (rps, sems, brs)"
    and "h_sems h = sems" "h_breakers h = brs"
    using assms by (auto simp: New_def split: sum.splits prod.splits option.splits)
  with New_upstreams_fresh [OF this(1)] show ?thesis by (simp add: breakers_idle_def)
qed

lemma Load_upstreams:
  assumes "Load read_file yaml parse_float url_ok env path = Inr cfg"
  shows "(\<forall>u \<in> set (Upstreams cfg). upstream_ok url_ok u) \<and> distinct (map u_Prefix (Upstreams cfg))"
proof -
  obtain base where ok: "config_ok url_ok (applyEnv parse_float env base)"
    and c: "cfg = (applyEnv parse_float env base)
       \<lparr>cfg_Content := normalize_content (cfg_Content (applyEnv parse_float env base))\<rparr>"
    using Load_ok [OF assms] by blast
  define b where "b = applyEnv parse_float env base"
  have "Upstreams cfg = Upstreams b" unfolding c b_def [symmetric] by simp
  with ok [folded b_def] show ?thesis by (simp add: config_ok_def)
qed

lemma rps_defined:
  assumes "u \<in> set us"
  shows "\<exists>rp. find (\<lambda>v. u_Name v = u_Name u) (rev us) = Some rp \<and> u_Name rp = u_Name u"
proof -
  obtain rp where rp: "find (\<lambda>v. u_Name v = u_Name u) (rev us) = Some rp"
    using assms find_None_iff [of "\<lambda>v. u_Name v = u_Name u" "rev us"] by fastforce
  then have "u_Name rp = u_Name u" using find_SomeD(1) by fastforce
  with rp show ?thesis by blast
qed

lemma New_match:
  assumes "New th ct lp version n cfg pv = Inr h"
  shows "matchUpstream h r = None \<longleftrightarrow> (\<forall>u \<in> set (Upstreams cfg). \<not> prefix (u_Prefix u) (r_Path r))"
proof -
  have h: "h_cfg h = cfg" "h_rps h = (\<lambda>m. find (\<lambda>u. u_Name u = m) (rev (Upstreams cfg)))"
    using New_rps [OF assms] by auto
  obtain w b where w: "Match cfg (r_Path r) = (w, b)" by fastforce
  show ?thesis
  proof (cases b)
    case True
    then have l: "longest_match (r_Path r) (Upstreams cfg) w" using w by (intro Match_found) simp
    then obtain rp where "find (\<lambda>v. u_Name v = u_Name w) (rev (Upstreams cfg)) = Some rp"
      using rps_defined [of w] by (auto simp: longest_match_def)
    then have "matchUpstream h r = Some (w, rp)" using w True by (simp add: matchUpstream_Some h)
    then show ?thesis using l by (auto simp: longest_match_def)
  next
    case False
    then show ?thesis using w Match_not_found [of cfg "r_Path r" w] by (simp add: matchUpstream_def h)
  qed
qed

lemma New_own_prefix:
  assumes "New th ct lp version n cfg pv = Inr h" and "distinct (map u_Prefix (Upstreams cfg))"
    and "u \<in> set (Upstreams cfg)" and "r_Path r = u_Prefix u"
  shows "\<exists>rp. matchUpstream h r = Some (u, rp) \<and> u_Name rp = u_Name u"
proof -
  have h: "h_cfg h = cfg" "h_rps h = (\<lambda>m. find (\<lambda>u. u_Name u = m) (rev (Upstreams cfg)))"
    using New_rps [OF assms(1)] by auto
  have self: "longest_match (r_Path r) (Upstreams cfg) u"
    using assms(3,4) by (auto simp: longest_match_def prefix_length_le)
  obtain w rp where m: "matchUpstream h r = Some (w, rp)"
    using New_match [OF assms(1), of r] assms(3,4) by (metis not_None_eq prefix_order.order_refl surj_pair)
  then have "longest_match (r_Path r) (Upstreams cfg) w" by (intro Match_found) (simp add: matchUpstream_Some h)
  then have "w = u" using longest_match_unique [OF assms(2)] self by blast
  then show ?thesis using m rps_defined [OF assms(3)] by (auto simp: matchUpstream_Some h)
qed

lemma find_name_distinct:
  "distinct (map u_Name us) \<Longrightarrow> u \<in> set us \<Longrightarrow> find (\<lambda>v. u_Name v = u_Name u) us = Some u"
  by (induction us) auto

subsection \<open>A concrete handler\<close>

definition demo_providers :: "rat Registry" where
  "demo_providers = BuiltIn hello_json stop_json"

definition demo_handler :: "Config \<Rightarrow> rat Handler" where
  "demo_handler cfg = \<lparr>h_cfg = cfg, h_providers = demo_providers, h_rps = (\<lambda>m. find (\<lambda>u. u_Name u = m) (rev (Upstreams cfg))),
     h_sems = Map.empty, h_breakers = Map.empty,
     h_auth = \<lparr>allow = [], sem_cap = 1, sem = 0, cache = [], cacheOrder = []\<rparr>,
     h_authHeader = ''X-LLMTAP-Token'', h_modelLabel = NewModelLabel DefaultMaxCardinality, h_pricing = defaultTable,
     h_streams = 0, h_inflight = [], h_calls = []\<rparr>"

text \<open>The default configuration, its two upstreams renamed.\<close>

definition named :: "bytes \<Rightarrow> bytes \<Rightarrow> Config" where
  "named a b = Default\<lparr>Upstreams := [(Upstreams Default ! 0)\<lparr>u_Name := a\<rparr>, (Upstreams Default ! 1)\<lparr>u_Name := b\<rparr>]\<rparr>"

lemma named_ok: "a \<noteq> [] \<Longrightarrow> b \<noteq> [] \<Longrightarrow> config_ok (\<lambda>_. True) (named a b)"
  using Default_ok
  by (simp add: config_ok_def named_def Default_def listener_ok_def upstream_ok_def telemetry_ok_def)

lemma named_New: "New (\<lambda>_. Some ''api'') (\<lambda>_. None) (\<lambda>_ _. Inr defaultTable) 19 1 (named a b) demo_providers = Inr (demo_handler (named a b))"
  by (auto simp: New_def named_def Default_def zero_Upstream_def zero_breaker_cfg_def demo_providers_def BuiltIn_def
      config_consts buildUpstreamTransport_def NewVerifier_def demo_handler_def HeaderName_def fun_eq_iff)

definition demo_env :: "rat env" where
  "demo_env = \<lparr>e_idkey = pad_key, e_sha = id, e_clk = wall_clock, e_ready = None,
     e_upstream = (\<lambda>_ _ _. [RpHook 200 ''text/event-stream'', RpWriter (WriteHeader 200), RpBody BClose]),
     e_seconds = (\<lambda>d. rat_of_int d / rat_of_int second), e_of_int = rat_of_int, e_uni = id\<rparr>"

definition files_request :: request where
  "files_request = \<lparr>r_Method = ''POST'', r_Path = ''/v1/files'', r_Header = [], r_ContentLength = 0,
     r_Body = \<lparr>bs_bytes = [], bs_fails = False\<rparr>\<rparr>"

lemma Match_files: "Match (named a b) ''/v1/files'' = (Upstreams (named a b) ! 0, True)"
  by (simp add: Match_def named_def Default_def has_prefix_def)

lemma files_match:
  "matchUpstream (demo_handler (named a b)) files_request =
     Some (Upstreams (named a b) ! 0, if a = b then Upstreams (named a b) ! 1 else Upstreams (named a b) ! 0)"
  by (auto simp: matchUpstream_Some demo_handler_def files_request_def Match_files) (auto simp: named_def)

lemma files_no_op: "OpenAI_OperationFor ''/v1/files'' = []"
  by code_simp

lemma files_contact: "rs_contacted (fst (ServeHTTP demo_env (demo_handler (named ''a'' ''b'')) files_request)) = Some (Upstreams (named ''a'' ''b'') ! 0)"
proof -
  let ?h = "demo_handler (named ''a'' ''b'')" and ?u = "Upstreams (named ''a'' ''b'') ! 0"
  have gate: "applyAuthGate demo_env ?h files_request = (None, ?h, files_request)"
    by (simp add: applyAuthGate_def Verifier_Enabled_def demo_handler_def)
  have prv: "h_providers ?h (u_Provider ?u) = Some (OpenAI_provider hello_json)"
    by (simp add: demo_handler_def demo_providers_def BuiltIn_def named_def Default_def zero_Upstream_def ProviderOpenAI_def)
  have "prv_OperationFor (OpenAI_provider hello_json) (r_Path files_request) = []"
    by (simp add: OpenAI_provider_def files_request_def files_no_op)
  then have "rs_contacted (fst (handler_dispatch demo_env ?h ?u ?u files_request)) = Some ?u"
    by (simp add: handler_dispatch_def prv)
  moreover have "admit demo_env ?h ?u = (Inr \<lparr>a_name = u_Name ?u, a_br = False, a_sem = False\<rparr>, ?h)"
    by (simp add: admit_def demo_handler_def)
  moreover have "r_Method files_request = ''POST''" by (simp add: files_request_def)
  ultimately show ?thesis
    using gate files_match [of "''a''" "''b''"] by (simp add: ServeHTTP_def Let_def case_prod_unfold)
qed

lemma demo_ok: "handler_ok (demo_handler (named a b))"
  by (rule New_ok [OF named_New])

subsection \<open>Properties\<close>

text \<open>
  C1: No upstream is contacted before every gate has passed. If a request reaches an upstream,
  then, where tokens are configured, it presented one that verified; its path matched an upstream
  whose reverse proxy was used; the breaker of that upstream let it in and a concurrency slot was
  free; and the body was not refused. What is sent is the request with its headers rewritten: the
  token header is gone (unless the operator chose \<open>Via\<close> for it, which is replaced), \<open>Accept-Encoding\<close>
  is gone, \<open>Via\<close> names the proxy.
\<close>

theorem contact_after_gates:
  assumes "ServeHTTP env h r = (resp, h')" and "rs_contacted resp = Some rp"
  shows "(Verifier_Enabled (Some (h_auth h)) \<longrightarrow> authenticated env h r)
     \<and> (\<exists>u. Match (h_cfg h) (r_Path r) = (u, True) \<and> h_rps h (u_Name u) = Some rp
          \<and> breaker_admits env h (u_Name u) \<and> slot_free h (u_Name u)
          \<and> plan_of (h_cfg h) (operation_of h u r) r \<noteq> TooLarge)
     \<and> (\<exists>r2 body. rs_forwarded resp = Some r2 \<and> rs_calls resp = writer_calls (e_upstream env rp r2 body)
          \<and> r_Path r2 = r_Path r \<and> r_Method r2 = r_Method r
          \<and> (Verifier_Enabled (Some (h_auth h)) \<longrightarrow> header_Get (r_Header r2) (h_authHeader h) \<in> {[], ''llmtap''})
          \<and> header_Get (r_Header r2) ''Accept-Encoding'' = [] \<and> header_Get (r_Header r2) ''Via'' = ''llmtap'')"
  using assms(1)
proof (cases rule: ServeHTTP_cases)
  case (auth r1)
  then show ?thesis using applyAuthGate_refuse [OF auth] assms(2) by simp
next
  case (refused r1 h1 u rp')
  then show ?thesis using admit_cases [OF refused(3)] assms(2) by simp
next
  case (served r1 h1 u rp' adm h2 h3)
  note f = applyAuthGate_frame [OF served(1)]
  note a = admit_cases [OF served(3)]
  have m: "Match (h_cfg h) (r_Path r) = (u, True)" "h_rps h (u_Name u) = Some rp'"
    using served(2) f by (auto simp: matchUpstream_Some)
  have plan: "plan_of (h_cfg h2) (operation_of h2 u r1) r1 = plan_of (h_cfg h) (operation_of h u r) r"
    using f a plan_of_cong [of r1 r] operation_of_cong [of h2 h r1 r] by simp
  note d = dispatch_cases [OF served(4) dispatch_contact [OF served(4)], unfolded plan]
  have rp: "rp = rp'" "plan_of (h_cfg h) (operation_of h u r) r \<noteq> TooLarge"
    using d assms(2) by (auto split: plan.splits)
  obtain r2 body where sent: "rs_forwarded resp = Some (rp_Rewrite r2)" "rs_calls resp = writer_calls (e_upstream env rp (rp_Rewrite r2) body)"
    "r_Path r2 = r_Path r1" "r_Method r2 = r_Method r1" "r_Header r2 = r_Header r1"
    using dispatch_sent [OF served(4)] assms(2) rp by blast
  have "breaker_admits env h (u_Name u) \<and> slot_free h (u_Name u)"
    using a f by (simp add: breaker_admits_def slot_free_def)
  moreover have "authenticated env h r \<and> header_Get (r_Header (rp_Rewrite r2)) (h_authHeader h) \<in> {[], ''llmtap''}"
    if "Verifier_Enabled (Some (h_auth h))"
    using applyAuthGate_pass [OF served(1) that] Rewrite_headers(3) [of r2 "h_authHeader h"] sent(5) by auto
  ultimately show ?thesis
    using m rp sent f Rewrite_headers(1,2) [of r2] by (metis Rewrite_frame)
qed (use assms(2) in \<open>simp_all add: error_response_def\<close>)

theorem contact_after_gates_witness:
  "\<exists>u. Match (named ''a'' ''b'') ''/v1/files'' = (u, True)
     \<and> breaker_admits demo_env (demo_handler (named ''a'' ''b'')) (u_Name u)"
proof -
  obtain resp h' where s: "ServeHTTP demo_env (demo_handler (named ''a'' ''b'')) files_request = (resp, h')" by fastforce
  then have "rs_contacted resp = Some (Upstreams (named ''a'' ''b'') ! 0)" using files_contact by simp
  from contact_after_gates [OF s this] show ?thesis
    by (auto simp: files_request_def demo_handler_def)
qed

text \<open>
  C25: Which requests are refused, and how. A request that is not a health probe is answered by the
  first gate that objects, in this order: without a verified token 401, or 429 when the verifier
  was too busy to decide; on a path that matches no upstream 404; while the breaker holds requests
  back 503 with the breaker's own \<open>Retry-After\<close>; with no concurrency slot left 429; with a body
  that is refused 413. The upstream is then not contacted; and it is contacted if no gate objects.
  No path leaves a slot taken, and a refusal by the first two gates does not touch the breakers.
\<close>

theorem refusal_status:
  assumes "ServeHTTP env h r = (resp, h')" and "handler_ok h"
    and "\<not> (r_Method r = ''GET'' \<and> r_Path r \<in> {''/healthz'', ''/readyz''})"
  shows "(case refusal env h r of
       Some (code, retry) \<Rightarrow> rs_contacted resp = None \<and> captured_status (rs_calls resp) = code \<and> rs_RetryAfter resp = retry
     | None \<Rightarrow> \<exists>u rp. matchUpstream h r = Some (u, rp) \<and> rs_contacted resp = Some rp)
     \<and> h_sems h' = h_sems h
     \<and> (auth_fails env h r \<or> matchUpstream h r = None \<longrightarrow> h_breakers h' = h_breakers h)"
  using assms(1)
proof (cases rule: ServeHTTP_cases)
  case probe
  then show ?thesis using assms(3) by simp
next
  case (auth r1)
  then have "auth_fails env h r" "resp = auth_refusal env h r"
    using applyAuthGate_eq [OF auth] by (auto split: if_splits)
  then show ?thesis
    using applyAuthGate_frame [OF auth] by (simp add: refusal_def auth_refusal_def)
next
  case (nomatch r1)
  note f = applyAuthGate_frame [OF nomatch(1)]
  have "\<not> auth_fails env h r" using applyAuthGate_eq [OF nomatch(1)] by (auto split: if_splits)
  moreover have "matchUpstream h r = None" using nomatch(2) f matchUpstream_cong [of h' h r1 r] by simp
  ultimately show ?thesis using f nomatch(3) by (simp add: refusal_def StatusNotFound_def)
next
  case (refused r1 h1 u rp)
  note f = applyAuthGate_frame [OF refused(1)]
  have na: "\<not> auth_fails env h r" using applyAuthGate_eq [OF refused(1)] by (auto split: if_splits)
  have m: "matchUpstream h r = Some (u, rp)" using refused(2) f matchUpstream_cong [of h1 h r1 r] by simp
  have same: "breaker_admits env h1 n = breaker_admits env h n" "slot_free h1 n = slot_free h n"
    "breaker_retry env h1 n = breaker_retry env h n" for n
    using f by (simp_all add: breaker_admits_def slot_free_def breaker_retry_def)
  show ?thesis
    using admit_refusal [OF refused(3)] na m f by (auto simp: refusal_def same)
next
  case (served r1 h1 u rp adm h2 h3)
  note f = applyAuthGate_frame [OF served(1)]
  note a = admit_cases [OF served(3)]
  have na: "\<not> auth_fails env h r" using applyAuthGate_eq [OF served(1)] by (auto split: if_splits)
  have m: "matchUpstream h r = Some (u, rp)" using served(2) f matchUpstream_cong [of h1 h r1 r] by simp
  have M: "Match (h_cfg h) (r_Path r) = (u, True)" using m by (simp add: matchUpstream_Some)
  have ok: "breaker_admits env h (u_Name u)" "slot_free h (u_Name u)"
    using a f by (simp_all add: breaker_admits_def slot_free_def)
  have prv: "h_providers h2 (u_Provider u) \<noteq> None"
    using assms(2) Match_found [OF M] a f by (auto simp: handler_ok_def longest_match_def)
  have plan: "plan_of (h_cfg h2) (operation_of h2 u r1) r1 = plan_of (h_cfg h) (operation_of h u r) r"
    using f a plan_of_cong [of r1 r] operation_of_cong [of h2 h r1 r] by simp
  have "h_sems h' = h_sems h"
    using admit_release_sems [OF served(3)] release_cong(1) [of h3 h2] handler_dispatch_frame [OF served(4)] f
    by (simp add: served(5))
  with dispatch_cases [OF served(4) prv, unfolded plan] dispatch_retry [OF served(4)] na m ok show ?thesis
    by (auto simp: refusal_def StatusRequestEntityTooLarge_def split: plan.splits)
qed

theorem refusal_status_witness:
  "(let resp = fst (ServeHTTP demo_env (demo_handler (named ''a'' ''b'')) (files_request\<lparr>r_Path := ''/none''\<rparr>)) in
      captured_status (rs_calls resp) = 404 \<and> rs_contacted resp = None)"
proof -
  let ?r = "files_request\<lparr>r_Path := ''/none''\<rparr>"
  obtain resp h' where s: "ServeHTTP demo_env (demo_handler (named ''a'' ''b'')) ?r = (resp, h')" by fastforce
  have probe: "\<not> (r_Method ?r = ''GET'' \<and> r_Path ?r \<in> {''/healthz'', ''/readyz''})" by (simp add: files_request_def)
  have "matchUpstream (demo_handler (named ''a'' ''b'')) ?r = None"
    by (simp add: matchUpstream_def Match_def named_def Default_def has_prefix_def demo_handler_def files_request_def)
  then have "refusal demo_env (demo_handler (named ''a'' ''b'')) ?r = Some (404, None)"
    by (simp add: refusal_def auth_fails_def demo_handler_def Verifier_Enabled_def StatusNotFound_def)
  with refusal_status [OF s demo_ok probe] show ?thesis by (simp add: s)
qed

text \<open>
  C18: The limit on request bodies, on the paths that are parsed. A request whose declared length
  is above the limit, or whose body is and fits the enrichment buffer, is answered 413 and the
  upstream is not contacted. A request whose declared length and body are within the limit is
  never refused for its size. And with a limit above the enrichment buffer, an upstream that reads
  the body it is given to a clean end has read exactly the client's body, and that is within the
  limit.
\<close>

theorem body_cap_enforced:
  assumes "handler_dispatch env h u rp r = (resp, h')" and "operation_of h u r \<noteq> []"
    and "0 < MaxBodyBytes (cfg_Request (h_cfg h))"
  shows "(r_ContentLength r > MaxBodyBytes (cfg_Request (h_cfg h))
        \<or> MaxBodyBytes (cfg_Request (h_cfg h)) < int (length (bs_bytes (r_Body r)))
            \<and> length (bs_bytes (r_Body r)) \<le> maxEnrichmentBodyBytes \<and> \<not> bs_fails (r_Body r)
        \<longrightarrow> rs_contacted resp = None \<and> captured_status (rs_calls resp) = 413)
     \<and> (r_ContentLength r \<le> MaxBodyBytes (cfg_Request (h_cfg h))
        \<and> int (length (bs_bytes (r_Body r))) \<le> MaxBodyBytes (cfg_Request (h_cfg h))
        \<longrightarrow> rs_contacted resp = Some rp)
     \<and> (\<forall>cp ns bs. int maxEnrichmentBodyBytes < MaxBodyBytes (cfg_Request (h_cfg h))
        \<and> plan_of (h_cfg h) (operation_of h u r) r = Enriched cp \<and> forwarded ns (cp_body cp) = (bs, None)
        \<longrightarrow> bs = bs_bytes (r_Body r) \<and> int (length bs) \<le> MaxBodyBytes (cfg_Request (h_cfg h)))"
proof (intro conjI impI allI)
  let ?cap = "MaxBodyBytes (cfg_Request (h_cfg h))" and ?plan = "plan_of (h_cfg h) (operation_of h u r) r"
  have prv: "h_providers h (u_Provider u) \<noteq> None" using assms(2) by (auto simp: operation_of_def split: option.splits)
  note d = dispatch_cases [OF assms(1) prv]
  have "rs_contacted resp = None \<and> captured_status (rs_calls resp) = 413"
    if "r_ContentLength r > ?cap \<or> ?cap < int (length (bs_bytes (r_Body r)))
        \<and> length (bs_bytes (r_Body r)) \<le> maxEnrichmentBodyBytes \<and> \<not> bs_fails (r_Body r)"
    using d plan_TooLarge [OF assms(2,3) that] by (simp add: StatusRequestEntityTooLarge_def)
  then show "rs_contacted resp = None" "captured_status (rs_calls resp) = 413"
    if "r_ContentLength r > ?cap \<or> ?cap < int (length (bs_bytes (r_Body r)))
        \<and> length (bs_bytes (r_Body r)) \<le> maxEnrichmentBodyBytes \<and> \<not> bs_fails (r_Body r)"
    using that by blast+
  show "rs_contacted resp = Some rp"
    if "r_ContentLength r \<le> ?cap \<and> int (length (bs_bytes (r_Body r))) \<le> ?cap"
    using d plan_not_TooLarge [of r "h_cfg h" "operation_of h u r"] that by (auto split: plan.splits)
  fix cp ns bs
  assume "int maxEnrichmentBodyBytes < ?cap \<and> ?plan = Enriched cp \<and> forwarded ns (cp_body cp) = (bs, None)"
  then show "bs = bs_bytes (r_Body r)" "int (length bs) \<le> ?cap"
    using forwarded_clean [OF plan_Enriched] by blast+
qed

theorem body_cap_enforced_witness:
  "rs_contacted (fst (handler_dispatch demo_env (demo_handler (named ''a'' ''b'')) (Upstreams (named ''a'' ''b'') ! 0)
     (Upstreams (named ''a'' ''b'') ! 0)
     (files_request\<lparr>r_Path := ''/v1/chat/completions'', r_ContentLength := 33554433\<rparr>))) = None"
proof -
  let ?h = "demo_handler (named ''a'' ''b'')" and ?u = "Upstreams (named ''a'' ''b'') ! 0"
  let ?r = "files_request\<lparr>r_Path := ''/v1/chat/completions'', r_ContentLength := 33554433\<rparr>"
  obtain resp h' where d: "handler_dispatch demo_env ?h ?u ?u ?r = (resp, h')" by fastforce
  have "OpenAI_OperationFor ''/v1/chat/completions'' \<noteq> []" by code_simp
  then have op: "operation_of ?h ?u ?r \<noteq> []"
    by (simp add: operation_of_def demo_handler_def demo_providers_def BuiltIn_def named_def Default_def
        zero_Upstream_def ProviderOpenAI_def OpenAI_provider_def)
  have cap: "MaxBodyBytes (cfg_Request (h_cfg ?h)) = 33554432" by (simp add: demo_handler_def named_def Default_def)
  then have "0 < MaxBodyBytes (cfg_Request (h_cfg ?h))" by simp
  from body_cap_enforced [OF d op this] cap show ?thesis by (simp add: d)
qed

text \<open>
  C19: Validation is enough. From a configuration that loads, with the built-in providers and
  the URL parser validation used, the handler can fail to build only because a counter cannot be
  created, the price file cannot be loaded or a token hash is malformed: never on a provider, a
  target or a pin. If it builds, each path that starts with a configured prefix is routed and no
  other, each upstream's own prefix goes to that upstream, all breakers satisfy their invariant with none
  half-open, and all semaphores are free, as the properties of admission require.
\<close>

theorem loaded_config_builds:
  assumes "Load read_file yaml parse_float url_ok env path = Inr cfg" and "\<forall>t. url_ok t \<longrightarrow> target_host t \<noteq> None"
  shows "case New target_host counter load_pricing version numCPU cfg (BuiltIn ojs ajs) of
       Inl e \<Rightarrow> (\<exists>m. e \<in> {InflightCounter m, RequestsCounter m})
         \<or> (\<exists>pe. e = NewPricing pe \<and> load_pricing (pr_Path (cfg_Pricing cfg)) (FailOpen (cfg_Pricing cfg)) = Inl pe)
         \<or> (\<exists>ae. e = NewAuth ae \<and> NewVerifier version numCPU (Tokens (cfg_Auth cfg)) = Inl ae)
     | Inr h \<Rightarrow>
         (\<forall>r. matchUpstream h r \<noteq> None \<longleftrightarrow> (\<exists>u \<in> set (Upstreams cfg). prefix (u_Prefix u) (r_Path r)))
         \<and> (\<forall>u r. u \<in> set (Upstreams cfg) \<and> r_Path r = u_Prefix u \<longrightarrow>
              (\<exists>rp. matchUpstream h r = Some (u, rp) \<and> u_Name rp = u_Name u))
         \<and> handler_ok h
         \<and> (\<forall>name b. h_breakers h name = Some b \<longrightarrow> breaker_wf b \<and> \<not> half_open b)
         \<and> (\<forall>name cap used. h_sems h name = Some (cap, used) \<longrightarrow> 0 < cap \<and> used = 0)"
proof -
  let ?N = "New target_host counter load_pricing version numCPU cfg (BuiltIn ojs ajs)"
  have us: "\<forall>u \<in> set (Upstreams cfg). upstream_ok url_ok u" "distinct (map u_Prefix (Upstreams cfg))"
    using Load_upstreams [OF assms(1)] by auto
  then have "\<forall>u \<in> set (Upstreams cfg). BuiltIn ojs ajs (u_Provider u) \<noteq> None"
    by (auto simp: upstream_ok_def BuiltIn_def config_consts)
  then obtain maps where
    "New_upstreams (BuiltIn ojs ajs) target_host (Map.empty, Map.empty, Map.empty) (Upstreams cfg) = Inr maps"
    using New_upstreams_total [OF us(1) assms(2)] by blast
  then have err: "(\<exists>m. e \<in> {InflightCounter m, RequestsCounter m})
       \<or> (\<exists>pe. e = NewPricing pe \<and> load_pricing (pr_Path (cfg_Pricing cfg)) (FailOpen (cfg_Pricing cfg)) = Inl pe)
       \<or> (\<exists>ae. e = NewAuth ae \<and> NewVerifier version numCPU (Tokens (cfg_Auth cfg)) = Inl ae)" if "?N = Inl e" for e
    using that by (auto simp: New_def split: sum.splits prod.splits option.splits)
  have built: "(\<forall>r. matchUpstream h r \<noteq> None \<longleftrightarrow> (\<exists>u \<in> set (Upstreams cfg). prefix (u_Prefix u) (r_Path r)))
      \<and> (\<forall>u r. u \<in> set (Upstreams cfg) \<and> r_Path r = u_Prefix u \<longrightarrow>
           (\<exists>rp. matchUpstream h r = Some (u, rp) \<and> u_Name rp = u_Name u))
      \<and> handler_ok h \<and> (\<forall>name b. h_breakers h name = Some b \<longrightarrow> breaker_wf b \<and> \<not> half_open b)
      \<and> (\<forall>name cap used. h_sems h name = Some (cap, used) \<longrightarrow> 0 < cap \<and> used = 0)" if "?N = Inr h" for h
    using New_match [OF that] New_own_prefix [OF that us(2)] New_ok [OF that] New_fresh [OF that]
    by (simp only: breakers_idle_def) blast
  show ?thesis
  proof (cases ?N)
    case (Inl e)
    then show ?thesis using err [OF Inl] by simp
  next
    case (Inr h)
    show ?thesis unfolding Inr sum.case by (rule built [OF Inr])
  qed
qed

theorem loaded_config_builds_witness:
  "\<exists>h. New (\<lambda>_. Some ''api'') (\<lambda>_. None) (\<lambda>_ _. Inr defaultTable) 19 1 Default demo_providers = Inr h
     \<and> matchUpstream h (files_request\<lparr>r_Path := ''/v2''\<rparr>) = None"
proof -
  have d: "Default = named ''openai'' ''anthropic''" by (simp add: named_def Default_def)
  let ?h = "demo_handler Default"
  have new: "New (\<lambda>_. Some ''api'') (\<lambda>_. None) (\<lambda>_ _. Inr defaultTable) 19 1 Default demo_providers = Inr ?h"
    using named_New [of "''openai''" "''anthropic''"] by (simp only: d [symmetric])
  have "\<forall>t. True \<longrightarrow> (\<lambda>_::bytes. Some ''api'') t \<noteq> None" by simp
  from loaded_config_builds [OF Load_Default this, where counter = "\<lambda>_. None" and load_pricing = "\<lambda>_ _. Inr defaultTable"
      and version = 19 and numCPU = 1 and ojs = hello_json and ajs = stop_json] new
  have "matchUpstream ?h r \<noteq> None \<longleftrightarrow> (\<exists>u \<in> set (Upstreams Default). prefix (u_Prefix u) (r_Path r))" for r
    unfolding demo_providers_def by simp
  from this [of "files_request\<lparr>r_Path := ''/v2''\<rparr>"]
  have "matchUpstream ?h (files_request\<lparr>r_Path := ''/v2''\<rparr>) = None"
    by (simp add: Default_def zero_Upstream_def del: not_None_eq)
  with new show ?thesis by blast
qed

text \<open>
  A request that runs alone leaves every semaphore as it found it and no breaker half-open,
  on every path through the pipeline.
\<close>

lemma ServeHTTP_resources:
  assumes "ServeHTTP env h r = (resp, h')" and "\<forall>n b. h_breakers h n = Some b \<longrightarrow> breaker_wf b \<and> \<not> half_open b"
  shows "h_sems h' = h_sems h \<and> dom (h_breakers h') = dom (h_breakers h)
     \<and> (\<forall>n b. h_breakers h' n = Some b \<longrightarrow> breaker_wf b \<and> \<not> half_open b)"
proof -
  have i: "breakers_idle h" using assms(2) by (simp add: breakers_idle_def)
  have "h_sems h' = h_sems h \<and> dom (h_breakers h') = dom (h_breakers h) \<and> breakers_idle h'"
    using assms(1)
  proof (cases rule: ServeHTTP_cases)
    case (auth r1)
    then show ?thesis using applyAuthGate_frame [OF auth] i by (simp add: breakers_idle_def)
  next
    case (nomatch r1)
    then show ?thesis using applyAuthGate_frame [OF nomatch(1)] i by (simp add: breakers_idle_def)
  next
    case (refused r1 h1 u rp)
    note f = applyAuthGate_frame [OF refused(1)]
    then have "breakers_idle h1" using i by (simp add: breakers_idle_def)
    from admit_refused [OF refused(3) this] f show ?thesis by simp
  next
    case (served r1 h1 u rp adm h2 h3)
    note f = applyAuthGate_frame [OF served(1)]
    then have "breakers_idle h1" using i by (simp add: breakers_idle_def)
    from admit_release [OF served(3) this, of "captured_status (rs_calls resp)"] f handler_dispatch_frame [OF served(4)]
      release_cong [of h3 h2 env adm "captured_status (rs_calls resp)"]
    show ?thesis by (simp add: served(5) breakers_idle_def)
  qed (simp add: i)
  then show ?thesis by (simp add: breakers_idle_def)
qed

text \<open>
  Reverse proxies are kept by upstream name. A matched request is served by the proxy built
  for an upstream of the same name; if the names are distinct, that is the matched upstream.
\<close>

lemma routing_by_name:
  assumes "New th ct lp version n cfg pv = Inr h" and "matchUpstream h r = Some (u, rp)"
  shows "longest_match (r_Path r) (Upstreams cfg) u \<and> rp \<in> set (Upstreams cfg) \<and> u_Name rp = u_Name u
     \<and> (distinct (map u_Name (Upstreams cfg)) \<longrightarrow> rp = u)"
proof -
  have h: "h_cfg h = cfg" "h_rps h = (\<lambda>m. find (\<lambda>u. u_Name u = m) (rev (Upstreams cfg)))"
    using New_rps [OF assms(1)] by auto
  have m: "Match cfg (r_Path r) = (u, True)" "find (\<lambda>v. u_Name v = u_Name u) (rev (Upstreams cfg)) = Some rp"
    using assms(2) by (simp_all add: matchUpstream_Some h)
  then have l: "longest_match (r_Path r) (Upstreams cfg) u" by (intro Match_found)
  have rp: "rp \<in> set (Upstreams cfg)" "u_Name rp = u_Name u"
    using find_SomeD [OF m(2)] by auto
  have "rp = u" if "distinct (map u_Name (Upstreams cfg))"
    using find_name_distinct [of "rev (Upstreams cfg)" u] that m(2) l
    by (simp add: longest_match_def rev_map [symmetric])
  with l rp show ?thesis by blast
qed

text \<open>
  Validation does not require distinct names, and two upstreams of the same name share one
  proxy: there is a configuration that validates and builds a handler, and a request that matches
  one upstream and is sent to the target of the other.
\<close>

lemma duplicate_names_misroute:
  "\<exists>cfg (h :: rat Handler) r u rp. fst (Validate (\<lambda>_. True) cfg) = []
     \<and> New (\<lambda>_. Some ''api'') (\<lambda>_. None) (\<lambda>_ _. Inr defaultTable) 19 1 cfg demo_providers = Inr h
     \<and> matchUpstream h r = Some (u, rp) \<and> u_Target rp \<noteq> u_Target u"
proof (intro exI conjI)
  show "fst (Validate (\<lambda>_. True) (named ''a'' ''a'')) = []" by (simp add: Validate_Nil named_ok)
  show "New (\<lambda>_. Some ''api'') (\<lambda>_. None) (\<lambda>_ _. Inr defaultTable) 19 1 (named ''a'' ''a'') demo_providers = Inr (demo_handler (named ''a'' ''a''))"
    by (rule named_New)
  show "matchUpstream (demo_handler (named ''a'' ''a'')) files_request =
      Some (Upstreams (named ''a'' ''a'') ! 0, Upstreams (named ''a'' ''a'') ! 1)"
    using files_match [of "''a''" "''a''"] by simp
qed (simp add: named_def Default_def zero_Upstream_def)

end
