(* ===== verification/Pipeline.thy ===== *)
theory Pipeline
  imports Handler
begin

text \<open>
  Properties of the request pipeline that span its components: what one request leaves behind in
  the telemetry, in the count of active streams on which shutdown waits, and on the span.
\<close>

subsection \<open>The enriched call\<close>

text \<open>The final state of the interceptor of an enriched request.\<close>

definition call_state ::
  "'f::{zero,ord,numeral,times,inverse,plus} env \<Rightarrow> 'f Handler \<Rightarrow> Upstream \<Rightarrow> 'f provider \<Rightarrow> bytes \<Rightarrow> bytes \<Rightarrow>
   rp_call list \<Rightarrow> 'f interceptor" where
  "call_state env h u prv path body calls =
     (let ic = call_cfg env h u prv;
          (info, sops) = prv_ParseRequest prv (e_clk env 6) path body (ic_content ic) in
      foldl (icept_step ic) (new_interceptor info sops (h_modelLabel h) (h_streams h)) (icept_ops calls @ [Finalize]))"

lemma call_state_eq:
  assumes "prv_ParseRequest prv (e_clk env 6) path body (content_opts (h_cfg h)) = (info, sops)"
  shows "call_state env h u prv path body calls =
     finalize (call_cfg env h u prv) (foldl (icept_step (call_cfg env h u prv))
       (new_interceptor info sops (h_modelLabel h) (h_streams h)) (icept_ops calls))"
proof -
  have "ic_content (call_cfg env h u prv) = content_opts (h_cfg h)" by (simp add: call_cfg_def)
  then show ?thesis using assms by (simp add: call_state_def Let_def)
qed

lemma enrich_result:
  "h_calls (enrich env h u prv op path body calls) = h_calls h @ [(SpanName op [], call_state env h u prv path body calls)]
   \<and> h_streams (enrich env h u prv op path body calls) = it_streams (call_state env h u prv path body calls)"
  by (simp add: enrich_def call_state_def Let_def case_prod_unfold)

text \<open>Either nothing is recorded, or one call that ran through the interceptor.\<close>

lemma dispatch_result:
  assumes "handler_dispatch env h u rp r = (resp, h')"
  shows "(h_calls h' = h_calls h \<and> h_streams h' = h_streams h
       \<or> (\<exists>h0 prv name path body b r0. h_providers h (u_Provider u) = Some prv \<and> rs_contacted resp = Some rp
            \<and> h_calls h' = h_calls h @ [(name, call_state env h0 u prv path body (rp_ServeHTTP env rp r0 b))]
            \<and> h_streams h' = it_streams (call_state env h0 u prv path body (rp_ServeHTTP env rp r0 b))
            \<and> h_streams h0 = h_streams h \<and> h_cfg h0 = h_cfg h))
     \<and> (h_inflight h' = h_inflight h \<or> h_inflight h' = h_inflight h @ [(u_Name u, 1), (u_Name u, -1)])"
proof (cases "h_providers h (u_Provider u)")
  case None
  then show ?thesis using assms by (auto simp: handler_dispatch_def)
next
  case (Some prv)
  let ?op = "prv_OperationFor prv (r_Path r)"
  show ?thesis
  proof (cases "\<exists>cp. ?op \<noteq> [] \<and> plan_of (h_cfg h) ?op r = Enriched cp")
    case True
    then obtain cp where cp: "?op \<noteq> []" "plan_of (h_cfg h) ?op r = Enriched cp" by blast
    let ?r = "r\<lparr>r_ContentLength := cp_ContentLength cp\<rparr>" and ?b = "Some (cp_body cp)" and ?h = "inflight_Add h u 1"
    have "h' = inflight_Add (enrich env ?h u prv ?op (r_Path r) (cp_head cp) (rp_ServeHTTP env rp ?r ?b)) u (-1)"
      "rs_contacted resp = Some rp"
      using assms Some cp by (auto simp: handler_dispatch_def Let_def)
    moreover have "h_streams ?h = h_streams h" "h_cfg ?h = h_cfg h" by simp_all
    moreover note e = enrich_result [of env ?h u prv ?op "r_Path r" "cp_head cp" "rp_ServeHTTP env rp ?r ?b"]
    ultimately have "h_calls h' = h_calls h @ [(SpanName ?op [], call_state env ?h u prv (r_Path r) (cp_head cp) (rp_ServeHTTP env rp ?r ?b))]"
      "h_streams h' = it_streams (call_state env ?h u prv (r_Path r) (cp_head cp) (rp_ServeHTTP env rp ?r ?b))"
      "h_inflight h' = h_inflight h @ [(u_Name u, 1), (u_Name u, -1)]" "h_streams ?h = h_streams h" "h_cfg ?h = h_cfg h"
      "rs_contacted resp = Some rp" by simp_all
    with Some show ?thesis by blast
  next
    case False
    then show ?thesis using assms Some by (auto simp: handler_dispatch_def Let_def split: if_splits plan.splits)
  qed
qed

lemma ServeHTTP_result:
  assumes "ServeHTTP env h r = (resp, h')"
  shows "(h_calls h' = h_calls h \<and> h_streams h' = h_streams h
       \<or> (\<exists>h0 u prv name path body b r0 rp. h_providers h (u_Provider u) = Some prv \<and> rs_contacted resp = Some rp
            \<and> h_calls h' = h_calls h @ [(name, call_state env h0 u prv path body (rp_ServeHTTP env rp r0 b))]
            \<and> h_streams h' = it_streams (call_state env h0 u prv path body (rp_ServeHTTP env rp r0 b))
            \<and> h_streams h0 = h_streams h \<and> h_cfg h0 = h_cfg h))
     \<and> (h_inflight h' = h_inflight h \<or> (\<exists>n. h_inflight h' = h_inflight h @ [(n, 1), (n, -1)]))"
  using assms
proof (cases rule: ServeHTTP_cases)
  case (auth r1)
  then show ?thesis using applyAuthGate_frame [OF auth] by simp
next
  case (nomatch r1)
  then show ?thesis using applyAuthGate_frame [OF nomatch(1)] by simp
next
  case (refused r1 h1 u rp)
  then show ?thesis using applyAuthGate_frame [OF refused(1)] admit_cases [OF refused(3)] by simp
next
  case (served r1 h1 u rp adm h2 h3)
  have "h_calls h2 = h_calls h" "h_streams h2 = h_streams h" "h_inflight h2 = h_inflight h"
    "h_providers h2 = h_providers h" "h_cfg h2 = h_cfg h"
    using applyAuthGate_frame [OF served(1)] admit_cases [OF served(3)] by auto
  then show ?thesis
    using dispatch_result [OF served(4)] unfolding served(5) release_frame by metis
qed simp

text \<open>
  What the reverse proxy does to the response of a call, as documented for \<open>httputil\<close>: it calls
  the hook at most once, before it touches the body, and closes the body before it returns.
\<close>

fun body_call :: "icept_op \<Rightarrow> bool" where
  "body_call (Body x) = True"
| "body_call _ = False"

fun closing_call :: "icept_op \<Rightarrow> bool" where
  "closing_call (Body x) = closing_op (sse_op_of x)"
| "closing_call _ = False"

definition closes_body :: "rp_call list \<Rightarrow> bool" where
  "closes_body cs \<longleftrightarrow>
     (case icept_ops cs of
        [] \<Rightarrow> True
      | Modify status ct # ops \<Rightarrow> list_all body_call ops \<and> list_ex closing_call ops
      | _ \<Rightarrow> False)"

lemma body_calls_map: "list_all body_call ops \<Longrightarrow> \<exists>xs. ops = map Body xs"
proof (induction ops)
  case (Cons op ops)
  then obtain x xs where "op = Body x" "ops = map Body xs" by (cases op) auto
  then show ?case by (intro exI [of _ "x # xs"]) simp
qed simp

lemma registry_family:
  "BuiltIn ojs ajs name = Some prv \<Longrightarrow> ic_prv ic = prv \<Longrightarrow> family ic"
  unfolding BuiltIn_def family_def by (metis fun_upd_apply option.distinct(1) option.inject)

lemma BuiltIn_started:
  assumes "BuiltIn ojs ajs name = Some prv"
  shows "time_IsZero (i_Finished (fst (prv_ParseRequest prv now path body content)))"
  using assms
  by (auto simp: BuiltIn_def OpenAI_provider_def Anthropic_provider_def OpenAI_ParseRequest_def Anthropic_ParseRequest_def
      Let_def new_Info_def time_IsZero_def split: if_splits option.splits)

lemma call_streams:
  assumes "BuiltIn ojs ajs name = Some prv" and "\<forall>n. e_clk env n \<noteq> zeroTime" and "closes_body calls"
  shows "it_streams (call_state env h u prv path body calls) = h_streams h"
proof -
  let ?ic = "call_cfg env h u prv"
  define info where "info = fst (prv_ParseRequest prv (e_clk env 6) path body (ic_content ?ic))"
  define sops where "sops = snd (prv_ParseRequest prv (e_clk env 6) path body (ic_content ?ic))"
  have s: "call_state env h u prv path body calls =
      foldl (icept_step ?ic) (new_interceptor info sops (h_modelLabel h) (h_streams h)) (icept_ops calls @ [Finalize])"
    by (simp add: call_state_def info_def sops_def Let_def case_prod_unfold)
  have fam: "family ?ic" using registry_family [OF assms(1)] by (simp add: call_cfg_def)
  have clk: "\<forall>n. ic_clk ?ic n \<noteq> zeroTime" using assms(2) by (simp add: call_cfg_def)
  have z: "time_IsZero (i_Finished info)" unfolding info_def using BuiltIn_started [OF assms(1)] .
  show ?thesis
  proof (cases "icept_ops calls")
    case Nil
    then show ?thesis unfolding s by (simp add: finalize_frame) (simp add: new_interceptor_def)
  next
    case (Cons op ops)
    then obtain status ct where op: "op = Modify status ct" "list_all body_call ops" "list_ex closing_call ops"
      using assms(3) by (cases op) (auto simp: closes_body_def)
    obtain xs where xs: "ops = map Body xs" using body_calls_map [OF op(2)] by blast
    have cl: "\<exists>x \<in> set xs. closing_op (sse_op_of x)" using op(3) xs by (auto simp: list_ex_iff)
    show ?thesis
    proof (cases "status < 400 \<and> isEventStream ct")
      case True
      then show ?thesis
        using interceptor_streams [OF fam clk z, of status ct sops "h_modelLabel h" "h_streams h" xs "[]"] cl
        unfolding s Cons op xs by (simp del: foldl_append)
    next
      case False
      from interceptor_no_stream [OF this, of ?ic info sops "h_modelLabel h" "h_streams h" xs]
      show ?thesis unfolding s Cons op xs by (simp del: foldl_append)
    qed
  qed
qed

lemma call_once:
  "it_ended (call_state env h u prv path body calls) = 1 \<and> requests_counted (call_state env h u prv path body calls) = 1"
proof -
  let ?ic = "call_cfg env h u prv"
  obtain info sops where p: "prv_ParseRequest prv (e_clk env 6) path body (content_opts (h_cfg h)) = (info, sops)" by fastforce
  let ?it = "foldl (icept_step ?ic) (new_interceptor info sops (h_modelLabel h) (h_streams h)) (icept_ops calls)"
  have "once_ok ?it"
    by (rule icept_run_once) (simp add: once_ok_def new_interceptor_def requests_counted_def)
  then have "once_ok (finalize ?ic ?it)" by (rule finalize_once)
  then show ?thesis unfolding call_state_eq [OF p] by (simp add: once_ok_def finalize_frame)
qed

lemma call_clean:
  assumes "BuiltIn ojs ajs name = Some prv"
  shows "\<forall>x \<in> set (span_log (it_call (call_state env h u prv path body calls))). clean_op (content_opts (h_cfg h)) x"
proof -
  let ?ic = "call_cfg env h u prv"
  obtain info sops where p: "prv_ParseRequest prv (e_clk env 6) path body (content_opts (h_cfg h)) = (info, sops)" by fastforce
  have fam: "family ?ic" using registry_family [OF assms] by (simp add: call_cfg_def)
  have ic: "ic_prv ?ic = prv" "ic_content ?ic = content_opts (h_cfg h)" by (simp_all add: call_cfg_def)
  have "\<forall>x \<in> set sops. clean_op (ic_content ?ic) x"
    using family_clean(2) [OF fam, of _ "e_clk env 6" path body "ic_content ?ic"] p ic by auto
  then have "span_clean ?ic (new_interceptor info sops labels n)" for labels n
    by (simp add: span_clean_def new_interceptor_def)
  then have "span_clean ?ic (call_state env h u prv path body calls)"
    unfolding call_state_eq [OF p] by (intro finalize_clean icept_run_clean [OF fam])
  then show ?thesis by (simp add: span_clean_def ic)
qed

text \<open>Finishing a call only adds to what was done to its span.\<close>

definition extends :: "'f span_op list \<Rightarrow> 'f interceptor \<Rightarrow> bool" where
  "extends l it \<longleftrightarrow> prefix l (span_log (it_call it))"

lemma extends_upd: "extends l it \<Longrightarrow> span_log (it_call it') = span_log (it_call it) \<Longrightarrow> extends l it'"
  by (simp add: extends_def)

lemma set_attrs_extends: "extends l it \<Longrightarrow> extends l (set_attrs a it)"
  by (simp add: extends_def set_attrs_def)

lemma add_metric_extends: "extends l it \<Longrightarrow> extends l (add_metric m it)"
  by (simp add: extends_def)

lemma finishSpan_extends:
  assumes "extends l it"
  shows "extends l (finishSpan ic it)"
proof -
  have st: "extends l (it\<lparr>it_span_status := x\<rparr>)" for x using assms by (rule extends_upd) simp
  have e: "extends l i \<Longrightarrow> extends l (i\<lparr>it_ended := n\<rparr>)" for i n by (simp add: extends_def)
  show ?thesis
    unfolding finishSpan_def Let_def
    using assms st by (auto intro!: e set_attrs_extends split: option.split)
qed

lemma recordMetrics_extends:
  assumes "extends l it"
  shows "extends l (recordMetrics ic it)"
proof -
  have "extends l (it\<lparr>it_labels := x\<rparr>)" for x using assms by (rule extends_upd) simp
  then show ?thesis
    unfolding recordMetrics_def Let_def case_prod_unfold
    by (auto intro!: add_metric_extends set_attrs_extends)
qed

lemma finalize_log: "extends l it \<Longrightarrow> extends l (finalize ic it)"
  unfolding finalize_def Let_def
  by (auto intro!: finishSpan_extends recordMetrics_extends elim: extends_upd)

subsection \<open>A concrete enriched request\<close>

definition chat_request :: request where
  "chat_request = files_request\<lparr>r_Path := ''/v1/chat/completions'', r_ContentLength := 1,
     r_Body := \<lparr>bs_bytes = ''a'', bs_fails = False\<rparr>\<rparr>"

lemma chat_op: "OpenAI_OperationFor ''/v1/chat/completions'' = OpChat"
  by code_simp

lemma chat_call:
  fixes cfg env js ajs
  defines "h \<equiv> (demo_handler cfg)\<lparr>h_providers := BuiltIn js ajs\<rparr>"
  assumes us: "Upstreams cfg = Upstreams (named ''a'' ''b'')" and cap: "MaxBodyBytes (cfg_Request cfg) = 33554432"
  shows "\<exists>r0 b. h_calls (snd (ServeHTTP env h chat_request)) =
     [(SpanName OpChat [], call_state env (inflight_Add h (Upstreams cfg ! 0) 1) (Upstreams cfg ! 0) (OpenAI_provider js)
        ''/v1/chat/completions'' ''a'' (rp_ServeHTTP env (Upstreams cfg ! 0) r0 b))]"
proof -
  let ?u = "Upstreams cfg ! 0"
  have gate: "applyAuthGate env h chat_request = (None, h, chat_request)"
    by (simp add: applyAuthGate_def Verifier_Enabled_def demo_handler_def h_def)
  have "Match (named ''a'' ''b'') ''/v1/chat/completions'' = (Upstreams (named ''a'' ''b'') ! 0, True)"
    by (simp add: Match_def named_def Default_def has_prefix_def)
  then have m: "Match cfg ''/v1/chat/completions'' = (?u, True)" by (simp add: Match_def us)
  then have match: "matchUpstream h chat_request = Some (?u, ?u)"
    by (simp add: matchUpstream_def demo_handler_def chat_request_def h_def us) (simp add: named_def)
  have prv: "h_providers h (u_Provider ?u) = Some (OpenAI_provider js)"
    by (simp add: h_def us BuiltIn_def named_def Default_def zero_Upstream_def ProviderOpenAI_def)
  have op: "prv_OperationFor (OpenAI_provider js) (r_Path chat_request) = OpChat" "OpChat \<noteq> []"
    by (simp_all add: OpenAI_provider_def chat_request_def chat_op) (simp add: OpChat_def)
  let ?cp = "\<lparr>cp_head = ''a'', cp_body = \<lparr>fb_head = ''a'', fb_rest = None\<rparr>, cp_ContentLength = 1\<rparr>"
  have "captureHeadAndForward (r_Body chat_request) 33554432 = Inr ?cp"
    by (simp add: captureHeadAndForward_def read_limited_def chat_request_def maxEnrichmentBodyBytes_def)
  then have plan: "plan_of (h_cfg h) OpChat chat_request = Enriched ?cp"
    using op(2) by (simp add: plan_of_def h_def demo_handler_def cap) (simp add: chat_request_def)
  have empty: "h_calls h = []" "h_cfg h = cfg" by (simp_all add: h_def demo_handler_def)
  have path: "r_Path chat_request = ''/v1/chat/completions''" by (simp add: chat_request_def)
  have "\<exists>r0 b. h_calls (snd (handler_dispatch env h ?u ?u chat_request)) =
      [(SpanName OpChat [], call_state env (inflight_Add h ?u 1) ?u (OpenAI_provider js) ''/v1/chat/completions'' ''a''
         (rp_ServeHTTP env ?u r0 b))]"
    using op plan prv empty path by (simp add: handler_dispatch_def Let_def enrich_result) blast
  moreover have "admit env h ?u = (Inr \<lparr>a_name = u_Name ?u, a_br = False, a_sem = False\<rparr>, h)"
    by (simp add: admit_def demo_handler_def h_def)
  moreover have "r_Method chat_request = ''POST''" by (simp add: chat_request_def files_request_def)
  ultimately show ?thesis
    using gate match by (simp add: ServeHTTP_def Let_def case_prod_unfold)
qed

lemma chat_enriched:
  "\<exists>name it. h_calls (snd (ServeHTTP demo_env (demo_handler (named ''a'' ''b'')) chat_request)) = [(name, it)]"
proof -
  have "(demo_handler (named ''a'' ''b''))\<lparr>h_providers := BuiltIn hello_json stop_json\<rparr> = demo_handler (named ''a'' ''b'')"
    by (simp add: demo_handler_def demo_providers_def)
  then show ?thesis
    using chat_call [of "named ''a'' ''b''" demo_env hello_json stop_json] by (auto simp: named_def Default_def)
qed

text \<open>The same request in mode \<open>events\<close>, its message a text with a credential.\<close>

definition events_config :: Config where
  "events_config = (named ''a'' ''b'')\<lparr>cfg_Content := \<lparr>c_Mode = CaptureEvents, c_Redact = ''default''\<rparr>\<rparr>"

definition secret_text :: bytes where
  "secret_text = ''id='' @ sample_key @ '';''"

definition secret_json :: "rat openai_json" where
  "secret_json = hello_json\<lparr>unmarshal_request :=
     (\<lambda>_. Some (hello_request\<lparr>or_Messages := [\<lparr>om_Role = ''user'', om_Content = secret_text, om_ToolCalls = []\<rparr>]\<rparr>))\<rparr>"

definition secret_handler :: "rat Handler" where
  "secret_handler = (demo_handler events_config)\<lparr>h_providers := BuiltIn secret_json stop_json\<rparr>"

definition quiet_env :: "rat env" where
  "quiet_env = demo_env\<lparr>e_upstream := (\<lambda>_ _ _. [])\<rparr>"

lemma secret_call:
  "\<exists>it. h_calls (snd (ServeHTTP quiet_env secret_handler chat_request)) = [(SpanName OpChat [], it)]
     \<and> AddEvent EventUserMessage [(''role'', AString ''user''), (''content'', AString (Apply secret_text ''default''))]
         \<in> set (span_log (it_call it))"
proof -
  let ?u = "Upstreams events_config ! 0" and ?ev = "AddEvent EventUserMessage
      [(''role'', AString ''user''), (''content'', AString (Apply secret_text ''default''))] :: rat span_op"
  let ?h = "inflight_Add secret_handler ?u 1"
  have c: "Upstreams events_config = Upstreams (named ''a'' ''b'')" "MaxBodyBytes (cfg_Request events_config) = 33554432"
    by (simp_all add: events_config_def named_def Default_def)
  obtain r0 b where calls: "h_calls (snd (ServeHTTP quiet_env secret_handler chat_request)) =
      [(SpanName OpChat [], call_state quiet_env ?h ?u (OpenAI_provider secret_json) ''/v1/chat/completions'' ''a''
         (rp_ServeHTTP quiet_env ?u r0 b))]"
    using chat_call [OF c, of quiet_env secret_json stop_json] by (auto simp: secret_handler_def)
  obtain info sops where p: "prv_ParseRequest (OpenAI_provider secret_json) (e_clk quiet_env 6) ''/v1/chat/completions'' ''a''
      (content_opts (h_cfg ?h)) = (info, sops)" by fastforce
  have "content_opts (h_cfg ?h) = \<lparr>Capture = True, Redact = Some (\<lambda>s. Apply s ''default'')\<rparr>"
    by (simp add: content_opts_def secret_handler_def demo_handler_def events_config_def Func_def ProfileOff_def)
  then have "?ev \<in> set sops"
    using p by (auto simp: OpenAI_provider_def OpenAI_ParseRequest_def secret_json_def chat_op emitOpenAIRequestEvents_def
        openai_event_name_def Clean_def Let_def)
  moreover have "extends sops (call_state quiet_env ?h ?u (OpenAI_provider secret_json) ''/v1/chat/completions'' ''a''
      (rp_ServeHTTP quiet_env ?u r0 b))"
    unfolding call_state_eq [OF p]
    by (rule finalize_log) (simp add: rp_ServeHTTP_def quiet_env_def new_interceptor_def extends_def)
  ultimately have "?ev \<in> set (span_log (it_call (call_state quiet_env ?h ?u (OpenAI_provider secret_json) ''/v1/chat/completions'' ''a''
      (rp_ServeHTTP quiet_env ?u r0 b))))"
    using set_mono_prefix by (auto simp: extends_def)
  with calls show ?thesis by blast
qed

subsection \<open>Properties\<close>

text \<open>
  C8: What one request leaves in the telemetry, whatever the reverse proxy does and on every path
  through the gates: either no enriched call is recorded or exactly one, whose span was ended
  once and which was counted once, and then the upstream was contacted; and the in-flight counter
  was raised and lowered by one for the same upstream, or not touched.
\<close>

theorem ServeHTTP_telemetry:
  assumes "ServeHTTP env h r = (resp, h')"
  shows "(h_calls h' = h_calls h
       \<or> (\<exists>name it. h_calls h' = h_calls h @ [(name, it)] \<and> it_ended it = 1 \<and> requests_counted it = 1
            \<and> rs_contacted resp \<noteq> None))
     \<and> (h_inflight h' = h_inflight h \<or> (\<exists>n. h_inflight h' = h_inflight h @ [(n, 1), (n, -1)]))"
  using ServeHTTP_result [OF assms] call_once by fastforce

theorem ServeHTTP_telemetry_witness:
  "\<exists>name it. h_calls (snd (ServeHTTP demo_env (demo_handler (named ''a'' ''b'')) chat_request)) = [(name, it)] \<and> it_ended it = 1"
proof -
  obtain resp h' where s: "ServeHTTP demo_env (demo_handler (named ''a'' ''b'')) chat_request = (resp, h')" by fastforce
  have "h_calls (demo_handler (named ''a'' ''b'')) = []" by (simp add: demo_handler_def)
  then show ?thesis using ServeHTTP_telemetry [OF s] chat_enriched s by auto
qed

text \<open>
  C9: No request leaks an active stream. With the built-in providers, a clock that never reads Go's
  zero time, and a reverse proxy that calls the hook before it touches the body and closes the
  body before it returns, the count of active streams is the same after a request as before it.
\<close>

theorem ServeHTTP_no_stream_leak:
  assumes "ServeHTTP env h r = (resp, h')" and "h_providers h = BuiltIn ojs ajs"
    and "\<forall>n. e_clk env n \<noteq> zeroTime" and "\<forall>rp r b. closes_body (e_upstream env rp r b)"
  shows "h_streams h' = h_streams h"
  using ServeHTTP_result [OF assms(1)] call_streams [OF _ assms(3)] assms(2,4) by (fastforce simp: rp_ServeHTTP_def)

theorem ServeHTTP_no_stream_leak_witness:
  "h_streams (snd (ServeHTTP demo_env (demo_handler (named ''a'' ''b'')) chat_request)) = 0"
proof -
  obtain resp h' where s: "ServeHTTP demo_env (demo_handler (named ''a'' ''b'')) chat_request = (resp, h')" by fastforce
  have p: "h_providers (demo_handler (named ''a'' ''b'')) = BuiltIn hello_json stop_json"
    by (simp add: demo_handler_def demo_providers_def)
  have c: "\<forall>n. e_clk demo_env n \<noteq> zeroTime" by (simp add: demo_env_def wall_clock_set)
  have b: "\<forall>rp r b. closes_body (e_upstream demo_env rp r b)" by (simp add: demo_env_def closes_body_def)
  from ServeHTTP_no_stream_leak [OF s p c b] s show ?thesis by (simp add: demo_handler_def)
qed

text \<open>
  C4: What may be written to a span. In the span of any enriched request, plain attributes have
  one of the fixed metadata keys, or are the snippet of an error body; the attributes of an event
  are its role, index or finish reason, or a text under \<open>content\<close> or \<open>message\<close>. Events and the snippet
  exist only in mode \<open>events\<close>, and snippet and texts are the redacted form of some text under the
  configured profile.
\<close>

theorem span_content_redacted:
  assumes "ServeHTTP env h r = (resp, h')" and "h_providers h = BuiltIn ojs ajs"
    and "h_calls h' = h_calls h @ [(name, it)]" and "x \<in> set (span_log (it_call it))"
  shows "case x of
      AddEvent n attrs \<Rightarrow> c_Mode (cfg_Content (h_cfg h)) = CaptureEvents
        \<and> (\<forall>(k, v) \<in> set attrs. k \<in> {''role'', ''index'', ''finish_reason''}
             \<or> k \<in> {''content'', ''message''} \<and> (\<exists>s. v = AString (Apply s (c_Redact (cfg_Content (h_cfg h))))))
    | SetAttributes attrs \<Rightarrow>
        (\<forall>(k, v) \<in> set attrs. k \<in> meta_keys
           \<or> k = ''http.response.body_snippet'' \<and> c_Mode (cfg_Content (h_cfg h)) = CaptureEvents
               \<and> (\<exists>s. v = AString (Apply s (c_Redact (cfg_Content (h_cfg h))))))
    | SetName n \<Rightarrow> True"
proof -
  obtain h0 u prv path body b r0 rp where "BuiltIn ojs ajs (u_Provider u) = Some prv"
    "it = call_state env h0 u prv path body (rp_ServeHTTP env rp r0 b)" "h_cfg h0 = h_cfg h"
    using ServeHTTP_result [OF assms(1)] assms(2,3) by auto
  then have c: "clean_op (content_opts (h_cfg h)) x" using call_clean assms(4) by metis
  have "Clean (content_opts (h_cfg h)) s = Apply s (c_Redact (cfg_Content (h_cfg h)))" for s
    by (simp add: Clean_def content_opts_def Func_def Apply_def)
  then have t: "clean_text (content_opts (h_cfg h)) v \<longleftrightarrow> (\<exists>s. v = AString (Apply s (c_Redact (cfg_Content (h_cfg h)))))" for v
    by (simp add: clean_text_def)
  have m: "Capture (content_opts (h_cfg h)) \<longleftrightarrow> c_Mode (cfg_Content (h_cfg h)) = CaptureEvents"
    by (simp add: content_opts_def)
  show ?thesis
    using c by (cases x) (auto simp: clean_attr_def t m dest!: bspec)
qed

theorem span_content_redacted_witness:
  "\<exists>name it. h_calls (snd (ServeHTTP quiet_env secret_handler chat_request)) = [(name, it)]
     \<and> AddEvent EventUserMessage [(''role'', AString ''user''), (''content'', AString (Apply secret_text ''default''))]
         \<in> set (span_log (it_call it))
     \<and> (\<forall>n attrs k v. AddEvent n attrs \<in> set (span_log (it_call it)) \<and> (k, v) \<in> set attrs \<and> k = ''content''
          \<longrightarrow> (\<exists>s. v = AString (Apply s ''default'')))"
proof -
  obtain resp h' where s: "ServeHTTP quiet_env secret_handler chat_request = (resp, h')" by fastforce
  have p: "h_providers secret_handler = BuiltIn secret_json stop_json" by (simp add: secret_handler_def)
  obtain it where it: "h_calls h' = [(SpanName OpChat [], it)]"
    "AddEvent EventUserMessage [(''role'', AString ''user''), (''content'', AString (Apply secret_text ''default''))]
       \<in> set (span_log (it_call it))"
    using secret_call s by auto
  then have e: "h_calls h' = h_calls secret_handler @ [(SpanName OpChat [], it)]"
    by (simp add: secret_handler_def demo_handler_def)
  have prof: "c_Redact (cfg_Content (h_cfg secret_handler)) = ''default''"
    by (simp add: secret_handler_def demo_handler_def events_config_def)
  have "\<exists>s. v = AString (Apply s ''default'')"
    if "AddEvent n attrs \<in> set (span_log (it_call it))" "(''content'', v) \<in> set attrs" for n attrs v
    using span_content_redacted [OF s p e that(1)] that(2) by (auto simp: prof)
  with it s show ?thesis by auto
qed

end
