(* ===== verification/CertMgr.thy ===== *)
theory CertMgr
  imports Go_Encoding
begin

text \<open>
  The TLS certificate manager (\<open>internal/proxy/certmgr.go\<close>): the load of a certificate and key
  that may be rewritten while they are read, the polling reload, and what a handshake is served.

  The file system is the argument \<open>fs\<close>: what a path holds at each instant, as seen by \<open>os.Stat\<close> and
  \<open>os.ReadFile\<close>; each system call happens at an instant of its own. \<open>tls.X509KeyPair\<close> is the argument
  \<open>x509\<close>, with its error message, and \<open>x509.ParseCertificate\<close> the argument \<open>parse\<close>. Modification times are
  only compared for equality, so they are kept as they are.
\<close>

record file_state =
  f_mod :: "int option"
  f_data :: "bytes option"

type_synonym fs = "bytes \<Rightarrow> nat \<Rightarrow> file_state"

record tlsCertificate =
  Certificate :: "bytes list"
  PrivateKey :: bytes
  Leaf :: "bytes option"

type_synonym x509 = "bytes \<Rightarrow> bytes \<Rightarrow> bytes + tlsCertificate"

record certManager =
  cm_certPath :: bytes
  cm_keyPath :: bytes
  cm_cert :: "tlsCertificate option"
  lastCertMod :: int
  lastKeyMod :: int

definition newCertManager :: "bytes \<Rightarrow> bytes \<Rightarrow> certManager" where
  "newCertManager certPath keyPath =
     \<lparr>cm_certPath = certPath, cm_keyPath = keyPath, cm_cert = None, lastCertMod = 0, lastKeyMod = 0\<rparr>"

datatype cert_error =
    StatCert | StatKey | ReadCert | ReadKey | ReStatCert | ReStatKey
  | ParseKeypair bytes
  | Inconsistent bytes

definition loadAtomicMaxAttempts :: nat where
  "loadAtomicMaxAttempts = 3"

definition mismatch_text :: bytes where
  "mismatch_text = ''private key does not match public key''"

text \<open>
  One attempt at instant \<open>t\<close>: \<open>Inl (Inl e)\<close> returns an error, \<open>Inl (Inr msg)\<close> goes round the loop.
\<close>

definition load_attempt ::
  "fs \<Rightarrow> x509 \<Rightarrow> bytes \<Rightarrow> bytes \<Rightarrow> nat \<Rightarrow> (cert_error + bytes) + (tlsCertificate \<times> int \<times> int)" where
  "load_attempt fs x509 certPath keyPath t =
     (case f_mod (fs certPath t) of None \<Rightarrow> Inl (Inl StatCert) | Some certStat0 \<Rightarrow>
      case f_mod (fs keyPath (t + 1)) of None \<Rightarrow> Inl (Inl StatKey) | Some keyStat0 \<Rightarrow>
      case f_data (fs certPath (t + 2)) of None \<Rightarrow> Inl (Inl ReadCert) | Some certBytes \<Rightarrow>
      case f_data (fs keyPath (t + 3)) of None \<Rightarrow> Inl (Inl ReadKey) | Some keyBytes \<Rightarrow>
      case f_mod (fs certPath (t + 4)) of None \<Rightarrow> Inl (Inl ReStatCert) | Some certStat1 \<Rightarrow>
      case f_mod (fs keyPath (t + 5)) of None \<Rightarrow> Inl (Inl ReStatKey) | Some keyStat1 \<Rightarrow>
        if certStat0 \<noteq> certStat1 \<or> keyStat0 \<noteq> keyStat1
        then Inl (Inr ''cert/key rotated mid-read; retrying'')
        else case x509 certBytes keyBytes of
               Inl err \<Rightarrow>
                 if contains_str err mismatch_text then Inl (Inr err) else Inl (Inl (ParseKeypair err))
             | Inr pair \<Rightarrow> Inr (pair, certStat1, keyStat1))"

text \<open>The retry loop with the attempts left and \<open>lastErr\<close>; the instant at which it returns comes last.\<close>

fun load_loop ::
  "fs \<Rightarrow> x509 \<Rightarrow> bytes \<Rightarrow> bytes \<Rightarrow> nat \<Rightarrow> bytes option \<Rightarrow> nat \<Rightarrow> (cert_error + (tlsCertificate \<times> int \<times> int)) \<times> nat"
  where
  "load_loop fs x509 cp kp 0 lastErr t =
     (Inl (Inconsistent (case lastErr of None \<Rightarrow> ''unknown torn-read failure'' | Some e \<Rightarrow> e)), t)"
| "load_loop fs x509 cp kp (Suc n) lastErr t =
     (case load_attempt fs x509 cp kp t of
        Inr ok \<Rightarrow> (Inr ok, t + 6)
      | Inl (Inl e) \<Rightarrow> (Inl e, t + 6)
      | Inl (Inr err) \<Rightarrow> load_loop fs x509 cp kp n (Some err) (t + 6))"

definition loadAtomicPair ::
  "fs \<Rightarrow> x509 \<Rightarrow> bytes \<Rightarrow> bytes \<Rightarrow> nat \<Rightarrow> (cert_error + (tlsCertificate \<times> int \<times> int)) \<times> nat" where
  "loadAtomicPair fs x509 cp kp t = load_loop fs x509 cp kp loadAtomicMaxAttempts None t"

definition set_leaf :: "(bytes \<Rightarrow> bytes option) \<Rightarrow> tlsCertificate \<Rightarrow> tlsCertificate" where
  "set_leaf parse pair =
     (case Certificate pair of
        [] \<Rightarrow> pair
      | der # _ \<Rightarrow> (case parse der of None \<Rightarrow> pair | Some leaf \<Rightarrow> pair\<lparr>Leaf := Some leaf\<rparr>))"

definition certManager_Load ::
  "fs \<Rightarrow> x509 \<Rightarrow> (bytes \<Rightarrow> bytes option) \<Rightarrow> bytes \<Rightarrow> bytes \<Rightarrow> nat \<Rightarrow> certManager \<Rightarrow> cert_error option \<times> certManager"
  where
  "certManager_Load fs x509 parse certPath keyPath t m =
     (case fst (loadAtomicPair fs x509 certPath keyPath t) of
        Inl e \<Rightarrow> (Some e, m)
      | Inr (pair, certMod, keyMod) \<Rightarrow>
          (None, m\<lparr>cm_cert := Some (set_leaf parse pair), lastCertMod := certMod, lastKeyMod := keyMod\<rparr>))"

definition Get :: "certManager \<Rightarrow> bytes + tlsCertificate" where
  "Get m = (case cm_cert m of None \<Rightarrow> Inl ''certmgr: no certificate loaded'' | Some c \<Rightarrow> Inr c)"

definition hex_digit :: "nat \<Rightarrow> char" where
  "hex_digit n = (if n < 10 then char_of (48 + n) else char_of (87 + n))"

definition hex_encode :: "bytes \<Rightarrow> bytes" where
  "hex_encode s = concat (map (\<lambda>c. [hex_digit (of_char c div 16), hex_digit (of_char c mod 16)]) s)"

definition leafFingerprint :: "(bytes \<Rightarrow> bytes) \<Rightarrow> certManager \<Rightarrow> bytes" where
  "leafFingerprint sha256 m =
     (case cm_cert m of
        None \<Rightarrow> []
      | Some c \<Rightarrow> (case Certificate c of [] \<Rightarrow> [] | der # _ \<Rightarrow> hex_encode (sha256 der)))"

text \<open>\<open>checkAndReload\<close>: an error, or whether a certificate was installed.\<close>

definition checkAndReload ::
  "fs \<Rightarrow> x509 \<Rightarrow> (bytes \<Rightarrow> bytes option) \<Rightarrow> nat \<Rightarrow> certManager \<Rightarrow> (cert_error + bool) \<times> certManager" where
  "checkAndReload fs x509 parse t m =
     (case f_mod (fs (cm_certPath m) t) of None \<Rightarrow> (Inl StatCert, m) | Some curCertMod \<Rightarrow>
      case f_mod (fs (cm_keyPath m) (t + 1)) of None \<Rightarrow> (Inl StatKey, m) | Some curKeyMod \<Rightarrow>
        if curCertMod = lastCertMod m \<and> curKeyMod = lastKeyMod m then (Inr False, m)
        else case certManager_Load fs x509 parse (cm_certPath m) (cm_keyPath m) (t + 2) m of
               (Some e, m') \<Rightarrow> (Inl e, m')
             | (None, m') \<Rightarrow> (Inr True, m'))"

text \<open>
  \<open>Watch\<close>, driven by what each \<open>select\<close> wakes up to: the end of the context, or a tick at an instant.
\<close>

datatype wake = CtxDone | Tick nat

fun Watch_loop :: "fs \<Rightarrow> x509 \<Rightarrow> (bytes \<Rightarrow> bytes option) \<Rightarrow> wake list \<Rightarrow> certManager \<Rightarrow> certManager" where
  "Watch_loop fs x509 parse [] m = m"
| "Watch_loop fs x509 parse (CtxDone # ws) m = m"
| "Watch_loop fs x509 parse (Tick t # ws) m = Watch_loop fs x509 parse ws (snd (checkAndReload fs x509 parse t m))"

definition Watch ::
  "fs \<Rightarrow> x509 \<Rightarrow> (bytes \<Rightarrow> bytes option) \<Rightarrow> duration \<Rightarrow> wake list \<Rightarrow> certManager \<Rightarrow> certManager" where
  "Watch fs x509 parse interval ws m = (if interval \<le> 0 then m else Watch_loop fs x509 parse ws m)"

subsection \<open>Loading\<close>

text \<open>What a modification time promises: while it stays the same, so does the file.\<close>

definition faithful :: "fs \<Rightarrow> bytes \<Rightarrow> bool" where
  "faithful fs p \<longleftrightarrow>
     (\<forall>i j k. i \<le> j \<longrightarrow> j \<le> k \<longrightarrow> f_mod (fs p i) = f_mod (fs p k) \<longrightarrow> f_mod (fs p i) \<noteq> None \<longrightarrow> fs p j = fs p i)"

definition on_disk :: "fs \<Rightarrow> x509 \<Rightarrow> bytes \<Rightarrow> bytes \<Rightarrow> nat \<Rightarrow> tlsCertificate \<times> int \<times> int \<Rightarrow> bool" where
  "on_disk fs x509 cp kp t r \<longleftrightarrow>
     (case r of (pair, cm, km) \<Rightarrow>
        f_mod (fs cp t) = Some cm \<and> f_mod (fs kp t) = Some km
        \<and> (\<exists>cb kb. f_data (fs cp t) = Some cb \<and> f_data (fs kp t) = Some kb \<and> x509 cb kb = Inr pair))"

lemma load_attempt_Inr:
  assumes "load_attempt fs x509 cp kp t = Inr (pair, cm, km)"
  obtains cb kb where "f_mod (fs cp t) = Some cm" "f_mod (fs kp (t + 1)) = Some km"
    "f_data (fs cp (t + 2)) = Some cb" "f_data (fs kp (t + 3)) = Some kb"
    "f_mod (fs cp (t + 4)) = Some cm" "f_mod (fs kp (t + 5)) = Some km" "x509 cb kb = Inr pair"
  using assms by (auto simp: load_attempt_def split: option.splits if_splits sum.splits)

lemma load_attempt_consistent:
  assumes "load_attempt fs x509 cp kp t = Inr r" and "faithful fs cp" and "faithful fs kp"
  shows "on_disk fs x509 cp kp (t + 3) r"
proof -
  obtain pair cm km where r: "r = (pair, cm, km)" by (cases r)
  from assms(1)[unfolded r] obtain cb kb where a: "f_mod (fs cp t) = Some cm" "f_mod (fs kp (t + 1)) = Some km"
    "f_data (fs cp (t + 2)) = Some cb" "f_data (fs kp (t + 3)) = Some kb"
    "f_mod (fs cp (t + 4)) = Some cm" "f_mod (fs kp (t + 5)) = Some km" "x509 cb kb = Inr pair"
    by (rule load_attempt_Inr)
  have "fs cp (t + 3) = fs cp t" "fs cp (t + 2) = fs cp t"
    using assms(2)[unfolded faithful_def, rule_format, of t "t + 3" "t + 4"]
      assms(2)[unfolded faithful_def, rule_format, of t "t + 2" "t + 4"] a(1,5) by simp_all
  moreover have "fs kp (t + 3) = fs kp (t + 1)"
    using assms(3)[unfolded faithful_def, rule_format, of "t + 1" "t + 3" "t + 5"] a(2,6) by simp
  ultimately show ?thesis using a by (simp add: on_disk_def r)
qed

lemma load_loop_consistent:
  assumes "load_loop fs x509 cp kp n lastErr t = (Inr r, t')" and "faithful fs cp" and "faithful fs kp"
  shows "\<exists>T. t \<le> T \<and> T < t' \<and> on_disk fs x509 cp kp T r"
  using assms(1)
proof (induction n arbitrary: lastErr t)
  case (Suc n)
  show ?case
  proof (cases "load_attempt fs x509 cp kp t")
    case (Inr ok)
    then show ?thesis
      using Suc.prems load_attempt_consistent [OF _ assms(2,3), of x509 t ok] by (intro exI [of _ "t + 3"]) auto
  next
    case (Inl e)
    then obtain err where "load_loop fs x509 cp kp n (Some err) (t + 6) = (Inr r, t')"
      using Suc.prems by (auto split: sum.splits)
    from Suc.IH [OF this] show ?thesis by (meson add_leD1 order_trans)
  qed
qed simp

lemma loadAtomicPair_consistent:
  "loadAtomicPair fs x509 cp kp t = (Inr r, t') \<Longrightarrow> faithful fs cp \<Longrightarrow> faithful fs kp \<Longrightarrow> \<exists>T. on_disk fs x509 cp kp T r"
  unfolding loadAtomicPair_def using load_loop_consistent by blast

lemma load_loop_time: "load_loop fs x509 cp kp n lastErr t = (x, t') \<Longrightarrow> t \<le> t' \<and> t' \<le> t + 6 * n"
proof (induction n arbitrary: lastErr t)
  case (Suc n)
  show ?case
  proof (cases "\<exists>err. load_attempt fs x509 cp kp t = Inl (Inr err)")
    case True
    then obtain err where "load_loop fs x509 cp kp n (Some err) (t + 6) = (x, t')" using Suc.prems by auto
    from Suc.IH [OF this] show ?thesis by simp
  next
    case False
    then show ?thesis using Suc.prems by (auto split: sum.splits)
  qed
qed simp

text \<open>Files that stay as they are load at the first attempt.\<close>

definition stable :: "fs \<Rightarrow> bytes \<Rightarrow> nat \<Rightarrow> bool" where
  "stable fs p t \<longleftrightarrow> (\<forall>k. fs p (t + k) = fs p t)"

lemma stable_load:
  assumes "on_disk fs x509 cp kp t r" and "stable fs cp t" and "stable fs kp t"
  shows "loadAtomicPair fs x509 cp kp (t + k) = (Inr r, t + k + 6)"
proof -
  obtain pair cm km where r: "r = (pair, cm, km)" by (cases r)
  have c: "fs cp (t + k + i) = fs cp t" "fs kp (t + k + i) = fs kp t" for i
    using assms(2,3) unfolding stable_def by (metis add.assoc)+
  have "load_attempt fs x509 cp kp (t + k) = Inr r"
    using assms(1) c(1) [of 0] c(2) [of 1] c(1) [of 2] c(2) [of 3] c(1) [of 4] c(2) [of 5]
    by (auto simp: on_disk_def load_attempt_def r)
  then show ?thesis by (simp add: loadAtomicPair_def loadAtomicMaxAttempts_def numeral_3_eq_3)
qed

subsection \<open>Reloading\<close>

text \<open>What a reload leaves behind: the old manager, or one with a pair that was on disk.\<close>

lemma checkAndReload_cases:
  assumes "checkAndReload fs x509 parse t m = (res, m')"
  obtains (kept) "m' = m" "res \<noteq> Inr True"
  | (installed) pair cm km t' where "res = Inr True"
      "loadAtomicPair fs x509 (cm_certPath m) (cm_keyPath m) (t + 2) = (Inr (pair, cm, km), t')"
      "m' = m\<lparr>cm_cert := Some (set_leaf parse pair), lastCertMod := cm, lastKeyMod := km\<rparr>"
      "\<not> (f_mod (fs (cm_certPath m) t) = Some (lastCertMod m) \<and> f_mod (fs (cm_keyPath m) (t + 1)) = Some (lastKeyMod m))"
proof (cases "res = Inr True")
  case True
  obtain r t' where l: "loadAtomicPair fs x509 (cm_certPath m) (cm_keyPath m) (t + 2) = (r, t')" by fastforce
  show thesis
  proof (cases r)
    case (Inl e)
    then show thesis
      using assms True l by (auto simp: checkAndReload_def certManager_Load_def split: option.splits if_splits)
  next
    case (Inr ok)
    obtain pair cm km where ok: "ok = (pair, cm, km)" by (cases ok)
    show thesis
      by (rule installed [of pair cm km t'])
        (use assms True l Inr ok in \<open>auto simp: checkAndReload_def certManager_Load_def split: option.splits if_splits\<close>)
  qed
next
  case False
  then show thesis
    using assms by (intro kept) (auto simp: checkAndReload_def certManager_Load_def split: option.splits if_splits sum.splits prod.splits)
qed

definition served_from_disk :: "fs \<Rightarrow> x509 \<Rightarrow> (bytes \<Rightarrow> bytes option) \<Rightarrow> bytes \<Rightarrow> bytes \<Rightarrow> certManager \<Rightarrow> bool" where
  "served_from_disk fs x509 parse cp kp m \<longleftrightarrow>
     cm_certPath m = cp \<and> cm_keyPath m = kp
     \<and> (\<exists>pair T. cm_cert m = Some (set_leaf parse pair) \<and> on_disk fs x509 cp kp T (pair, lastCertMod m, lastKeyMod m))"

lemma served_reload:
  assumes "served_from_disk fs x509 parse cp kp m" and "faithful fs cp" and "faithful fs kp"
  shows "served_from_disk fs x509 parse cp kp (snd (checkAndReload fs x509 parse t m))"
proof -
  obtain res m' where c: "checkAndReload fs x509 parse t m = (res, m')" by fastforce
  then show ?thesis
  proof (cases rule: checkAndReload_cases)
    case kept
    then show ?thesis using assms(1) c by simp
  next
    case (installed pair cm km t')
    have "cm_certPath m = cp" "cm_keyPath m = kp" using assms(1) by (auto simp: served_from_disk_def)
    then obtain T where "on_disk fs x509 cp kp T (pair, cm, km)"
      using loadAtomicPair_consistent [OF installed(2)] assms(2,3) by auto
    then show ?thesis using installed(3) c assms(1) by (auto simp: served_from_disk_def)
  qed
qed

lemma served_watch:
  assumes "served_from_disk fs x509 parse cp kp m" and "faithful fs cp" and "faithful fs kp"
  shows "served_from_disk fs x509 parse cp kp (Watch_loop fs x509 parse ws m)"
  using assms(1)
proof (induction ws arbitrary: m)
  case (Cons w ws)
  then show ?case using served_reload [OF Cons.prems assms(2,3)] by (cases w) auto
qed simp

lemma load_served:
  assumes "certManager_Load fs x509 parse cp kp t (newCertManager cp kp) = (None, m)" and "faithful fs cp" and "faithful fs kp"
  shows "served_from_disk fs x509 parse cp kp m"
proof -
  obtain x t' where l: "loadAtomicPair fs x509 cp kp t = (x, t')" by fastforce
  then obtain pair cm km where x: "x = Inr (pair, cm, km)"
    and m: "m = (newCertManager cp kp)\<lparr>cm_cert := Some (set_leaf parse pair), lastCertMod := cm, lastKeyMod := km\<rparr>"
    using assms(1) by (auto simp: certManager_Load_def split: sum.splits)
  obtain T where "on_disk fs x509 cp kp T (pair, cm, km)"
    using loadAtomicPair_consistent [OF _ assms(2,3)] l x by blast
  then show ?thesis by (auto simp: served_from_disk_def m newCertManager_def)
qed

text \<open>The manager serves the pair that is on disk now.\<close>

definition current :: "(bytes \<Rightarrow> bytes option) \<Rightarrow> bytes \<Rightarrow> bytes \<Rightarrow> tlsCertificate \<times> int \<times> int \<Rightarrow> certManager \<Rightarrow> bool" where
  "current parse cp kp r m \<longleftrightarrow>
     (case r of (pair, cm, km) \<Rightarrow>
        cm_certPath m = cp \<and> cm_keyPath m = kp \<and> cm_cert m = Some (set_leaf parse pair)
        \<and> lastCertMod m = cm \<and> lastKeyMod m = km)"

lemma faithful_same:
  assumes "faithful fs p" and "f_mod (fs p i) = Some x" and "f_mod (fs p j) = Some x"
  shows "fs p i = fs p j"
proof (cases "i \<le> j")
  case True
  then show ?thesis using assms(1)[unfolded faithful_def, rule_format, of i j j] assms(2,3) by simp
next
  case False
  then show ?thesis using assms(1)[unfolded faithful_def, rule_format, of j i i] assms(2,3) by simp
qed

lemma stable_at: "stable fs p t \<Longrightarrow> t \<le> i \<Longrightarrow> fs p i = fs p t"
  unfolding stable_def by (metis le_add_diff_inverse)

lemma reload_current:
  assumes "served_from_disk fs x509 parse cp kp m" and "faithful fs cp" and "faithful fs kp"
    and "on_disk fs x509 cp kp t (pair, cm, km)" and "stable fs cp t" and "stable fs kp t" and "t \<le> i"
  shows "current parse cp kp (pair, cm, km) (snd (checkAndReload fs x509 parse i m))"
proof -
  have paths: "cm_certPath m = cp" "cm_keyPath m = kp" using assms(1) by (auto simp: served_from_disk_def)
  have now: "f_mod (fs cp i) = Some cm" "f_mod (fs kp (i + 1)) = Some km"
    using assms(4) stable_at [OF assms(5,7)] stable_at [OF assms(6), of "i + 1"] assms(7) by (auto simp: on_disk_def)
  show ?thesis
  proof (cases "cm = lastCertMod m \<and> km = lastKeyMod m")
    case True
    obtain old T where old: "cm_cert m = Some (set_leaf parse old)" "on_disk fs x509 cp kp T (old, cm, km)"
      using assms(1) True by (auto simp: served_from_disk_def)
    have "fs cp T = fs cp t" "fs kp T = fs kp t"
      using old(2) assms(4) faithful_same [OF assms(2), of T cm t] faithful_same [OF assms(3), of T km t]
      by (simp_all add: on_disk_def)
    then have "old = pair" using old(2) assms(4) by (auto simp: on_disk_def)
    then show ?thesis using old(1) now True paths by (simp add: checkAndReload_def current_def)
  next
    case False
    have "loadAtomicPair fs x509 cp kp (i + 2) = (Inr (pair, cm, km), i + 2 + 6)"
      using stable_load [OF assms(4-6), of "i + 2 - t"] assms(7) by simp
    then show ?thesis
      using False now paths by (auto simp: checkAndReload_def certManager_Load_def current_def)
  qed
qed

lemma watch_current:
  assumes "on_disk fs x509 cp kp t (pair, cm, km)" and "stable fs cp t" and "stable fs kp t"
    and "current parse cp kp (pair, cm, km) m" and "\<forall>k. Tick k \<in> set ws \<longrightarrow> t \<le> k"
  shows "current parse cp kp (pair, cm, km) (Watch_loop fs x509 parse ws m)"
  using assms(4,5)
proof (induction ws)
  case (Cons w ws)
  show ?case
  proof (cases w)
    case (Tick k)
    have "f_mod (fs cp k) = Some cm" "f_mod (fs kp (k + 1)) = Some km"
      using assms(1) stable_at [OF assms(2), of k] stable_at [OF assms(3), of "k + 1"] Cons.prems(2) Tick
      by (auto simp: on_disk_def)
    then have "snd (checkAndReload fs x509 parse k m) = m"
      using Cons.prems(1) by (simp add: checkAndReload_def current_def)
    then show ?thesis using Cons Tick by simp
  qed (use Cons.prems in simp)
qed simp

lemma Watch_loop_append:
  "CtxDone \<notin> set before \<Longrightarrow>
   Watch_loop fs x509 parse (before @ ws) m = Watch_loop fs x509 parse ws (Watch_loop fs x509 parse before m)"
proof (induction before arbitrary: m)
  case (Cons w before)
  then show ?case by (cases w) auto
qed simp

subsection \<open>A concrete rotation\<close>

text \<open>
  Both files are rewritten, the certificate at instant 14 and the key at instant 17; a pair is valid
  when the two carry the same bytes.
\<close>

definition rotating :: fs where
  "rotating p t =
     (if p = ''cert'' then if t < 14 then \<lparr>f_mod = Some 1, f_data = Some ''a''\<rparr> else \<lparr>f_mod = Some 2, f_data = Some ''b''\<rparr>
      else if t < 17 then \<lparr>f_mod = Some 1, f_data = Some ''a''\<rparr> else \<lparr>f_mod = Some 2, f_data = Some ''b''\<rparr>)"

definition same_bytes :: x509 where
  "same_bytes c k =
     (if c = k then Inr \<lparr>Certificate = [c], PrivateKey = k, Leaf = None\<rparr> else Inl (''tls: '' @ mismatch_text))"

lemma rotating_faithful: "faithful rotating ''cert''" "faithful rotating ''key''"
  by (auto simp: faithful_def rotating_def)

definition rotating_manager :: certManager where
  "rotating_manager = snd (certManager_Load rotating same_bytes (\<lambda>_. None) ''cert'' ''key'' 0 (newCertManager ''cert'' ''key''))"

lemma rotating_load:
  "certManager_Load rotating same_bytes (\<lambda>_. None) ''cert'' ''key'' 0 (newCertManager ''cert'' ''key'') = (None, rotating_manager)"
  unfolding rotating_manager_def by code_simp

subsection \<open>Properties\<close>

text \<open>
  C21: No torn pair is ever served. If modification times are faithful, then after a successful first
  load and any sequence of polls, whatever happens to the two files in between, every handshake
  is served a pair, and it is one whose certificate and key were on disk together at some instant
  and fit each other; the recorded modification times are those of that instant.
\<close>

theorem no_torn_pair:
  assumes "faithful fs cp" and "faithful fs kp"
    and "certManager_Load fs x509 parse cp kp t (newCertManager cp kp) = (None, m)"
  shows "\<exists>pair cb kb T. Get (Watch fs x509 parse interval ws m) = Inr (set_leaf parse pair) \<and> x509 cb kb = Inr pair
     \<and> f_data (fs cp T) = Some cb \<and> f_data (fs kp T) = Some kb
     \<and> f_mod (fs cp T) = Some (lastCertMod (Watch fs x509 parse interval ws m))
     \<and> f_mod (fs kp T) = Some (lastKeyMod (Watch fs x509 parse interval ws m))"
proof -
  have "served_from_disk fs x509 parse cp kp (Watch fs x509 parse interval ws m)"
    using served_watch load_served [OF assms(3,1,2)] assms(1,2) by (simp add: Watch_def)
  then show ?thesis unfolding served_from_disk_def on_disk_def Get_def by fastforce
qed

theorem no_torn_pair_witness:
  "\<exists>c. Get (Watch rotating same_bytes (\<lambda>_. None) second [Tick 13, Tick 20, CtxDone] rotating_manager) = Inr c"
  using no_torn_pair [OF rotating_faithful rotating_load, of second "[Tick 13, Tick 20, CtxDone]"] by blast

text \<open>
  C23: A reload that fails or finds nothing new changes nothing, so a working certificate is never
  replaced by a broken one; a reload that succeeds installs a pair and moves the modification
  times. A load makes at most three attempts, eighteen system calls, however often the files
  change.
\<close>

theorem reload_safe:
  assumes "checkAndReload fs x509 parse t m = (res, m')"
  shows "(res \<noteq> Inr True \<longrightarrow> m' = m)
     \<and> (res = Inr True \<longrightarrow> cm_cert m' \<noteq> None
          \<and> (f_mod (fs (cm_certPath m) t) \<noteq> Some (lastCertMod m) \<or> f_mod (fs (cm_keyPath m) (t + 1)) \<noteq> Some (lastKeyMod m)))
     \<and> (\<forall>c. Get m = Inr c \<longrightarrow> (\<exists>c'. Get m' = Inr c'))
     \<and> snd (loadAtomicPair fs x509 cp kp t) \<le> t + 18"
proof -
  obtain x t' where "loadAtomicPair fs x509 cp kp t = (x, t')" by fastforce
  then have "snd (loadAtomicPair fs x509 cp kp t) \<le> t + 18"
    using load_loop_time [of fs x509 cp kp 3] by (simp add: loadAtomicPair_def loadAtomicMaxAttempts_def)
  with assms show ?thesis
    by (cases rule: checkAndReload_cases) (auto simp: Get_def split: option.splits)
qed

theorem reload_safe_witness:
  "\<exists>c. Get (snd (checkAndReload rotating same_bytes (\<lambda>_. None) 15 rotating_manager)) = Inr c"
proof -
  have "Get rotating_manager = Inr \<lparr>Certificate = [''a''], PrivateKey = ''a'', Leaf = None\<rparr>"
    unfolding rotating_manager_def by code_simp
  then show ?thesis
    using reload_safe [of rotating same_bytes "\<lambda>_. None" 15 rotating_manager
        "fst (checkAndReload rotating same_bytes (\<lambda>_. None) 15 rotating_manager)"
        "snd (checkAndReload rotating same_bytes (\<lambda>_. None) 15 rotating_manager)"] by auto
qed

text \<open>
  C22: Rotation takes effect at the watcher's next tick. Let modification times be faithful, the
  first load have succeeded, the interval be positive, and both files be stable from instant \<open>t\<close> on,
  holding a fitting pair. Whatever the watcher saw before, after the first tick from \<open>t\<close> on every
  handshake is served that pair, and still is after any further ticks or the end of the context.
\<close>

theorem rotation_takes_effect:
  assumes "faithful fs cp" and "faithful fs kp"
    and "certManager_Load fs x509 parse cp kp t0 (newCertManager cp kp) = (None, m)"
    and "on_disk fs x509 cp kp t (pair, cm, km)" and "stable fs cp t" and "stable fs kp t"
    and "0 < interval" and "CtxDone \<notin> set before" and "t \<le> i" and "\<forall>k. Tick k \<in> set after \<longrightarrow> t \<le> k"
  shows "Get (Watch fs x509 parse interval (before @ Tick i # after) m) = Inr (set_leaf parse pair)"
proof -
  have "served_from_disk fs x509 parse cp kp (Watch_loop fs x509 parse before m)"
    using served_watch [OF load_served [OF assms(3,1,2)] assms(1,2)] .
  then have "current parse cp kp (pair, cm, km) (snd (checkAndReload fs x509 parse i (Watch_loop fs x509 parse before m)))"
    by (rule reload_current [OF _ assms(1,2,4-6,9)])
  then have "current parse cp kp (pair, cm, km) (Watch_loop fs x509 parse (before @ Tick i # after) m)"
    using watch_current [OF assms(4-6) _ assms(10)] by (simp add: Watch_loop_append [OF assms(8)])
  then show ?thesis using assms(7) by (simp add: Watch_def current_def Get_def)
qed

theorem rotation_takes_effect_witness:
  "Get (Watch rotating same_bytes (\<lambda>_. None) second [Tick 5, Tick 15, Tick 20, CtxDone] rotating_manager)
     = Inr \<lparr>Certificate = [''b''], PrivateKey = ''b'', Leaf = None\<rparr>"
proof -
  let ?pair = "\<lparr>Certificate = [''b''], PrivateKey = ''b'', Leaf = None\<rparr>"
  have d: "on_disk rotating same_bytes ''cert'' ''key'' 17 (?pair, 2, 2)"
    by (simp add: on_disk_def rotating_def same_bytes_def)
  have s: "stable rotating ''cert'' 17" "stable rotating ''key'' 17" by (simp_all add: stable_def rotating_def)
  show ?thesis
    using rotation_takes_effect [OF rotating_faithful rotating_load d s, of second "[Tick 5, Tick 15]" 20 "[CtxDone]"]
    by (simp add: set_leaf_def second_def)
qed

end
