(* ===== verification/Server.thy ===== *)
theory Server
  imports Pipeline CertMgr
begin

text \<open>
  The HTTP server around the handler (\<open>internal/proxy/server.go\<close>): construction with its TLS
  configuration, start, and graceful shutdown.

  What a select statement finds ready, the results of \<open>net.Listen\<close>, of the serving goroutine and
  of \<open>http.Server.Shutdown\<close>, the readings of the stream counter and the PEM parser \<open>pem_pool\<close> are
  arguments; a run is the list of the actions taken and the value returned.
\<close>

datatype ClientAuthType =
    NoClientCert | RequestClientCert | RequireAnyClientCert | VerifyClientCertIfGiven | RequireAndVerifyClientCert

record 'p tlsConfig =
  MinVersion :: nat
  GetCertificate :: bool
  ClientCAs :: "'p option"
  ClientAuth :: ClientAuthType

record 'p http_Server =
  srv_Addr :: bytes
  srv_ReadHeaderTimeout :: duration
  srv_ReadTimeout :: duration
  srv_IdleTimeout :: duration
  srv_TLSConfig :: "'p tlsConfig option"

record 'p Server =
  s_server :: "'p http_Server"
  s_listen :: bytes
  s_timeout :: duration
  s_certFile :: bytes
  s_keyFile :: bytes
  s_certMgr :: "certManager option"
  s_certReloadEvery :: duration

datatype server_error =
    TLSLoad cert_error
  | ReadClientCA bytes
  | ClientCAEmpty bytes
  | ListenFailed bytes
  | ServeFailed bytes
  | GracefulShutdown bytes

definition buildTLSConfig ::
  "(bytes \<Rightarrow> bytes option) \<Rightarrow> (bytes \<Rightarrow> 'p option) \<Rightarrow> TLS \<Rightarrow> certManager option \<Rightarrow> server_error + 'p tlsConfig" where
  "buildTLSConfig read_file pem_pool t mgr =
     (let cfg = \<lparr>MinVersion = VersionTLS12, GetCertificate = (mgr \<noteq> None), ClientCAs = None, ClientAuth = NoClientCert\<rparr> in
      if ClientCAFile t \<noteq> [] then
        (case read_file (ClientCAFile t) of
           None \<Rightarrow> Inl (ReadClientCA (ClientCAFile t))
         | Some pem \<Rightarrow>
             (case pem_pool pem of
                None \<Rightarrow> Inl (ClientCAEmpty (ClientCAFile t))
              | Some pool \<Rightarrow> Inr (cfg\<lparr>ClientCAs := Some pool, ClientAuth := RequireAndVerifyClientCert\<rparr>)))
      else Inr cfg)"

text \<open>The keypair is first loaded at instant \<open>t\<close> of the file system.\<close>

definition NewServer ::
  "fs \<Rightarrow> x509 \<Rightarrow> (bytes \<Rightarrow> bytes option) \<Rightarrow> (bytes \<Rightarrow> bytes option) \<Rightarrow> (bytes \<Rightarrow> 'p option) \<Rightarrow> nat \<Rightarrow> Config \<Rightarrow>
   server_error + 'p Server" where
  "NewServer fs x509 parse read_file pem_pool t cfg =
     (let srv = \<lparr>srv_Addr = Listen cfg, srv_ReadHeaderTimeout = ReadHeaderTimeout (cfg_HTTP cfg),
                 srv_ReadTimeout = BodyReadTimeout (cfg_HTTP cfg), srv_IdleTimeout = IdleTimeout (cfg_HTTP cfg),
                 srv_TLSConfig = None\<rparr>;
          mk = (\<lambda>srv mgr. \<lparr>s_server = srv, s_listen = Listen cfg, s_timeout = ShutdownTimeout (cfg_HTTP cfg),
                 s_certFile = CertFile (cfg_TLS cfg), s_keyFile = KeyFile (cfg_TLS cfg), s_certMgr = mgr,
                 s_certReloadEvery = CertReloadInterval (cfg_HTTP cfg)\<rparr>) in
      if TLS_Enabled (cfg_TLS cfg) then
        (case certManager_Load fs x509 parse (CertFile (cfg_TLS cfg)) (KeyFile (cfg_TLS cfg)) t
                (newCertManager (CertFile (cfg_TLS cfg)) (KeyFile (cfg_TLS cfg))) of
           (Some e, _) \<Rightarrow> Inl (TLSLoad e)
         | (None, mgr) \<Rightarrow>
             (case buildTLSConfig read_file pem_pool (cfg_TLS cfg) (Some mgr) of
                Inl e \<Rightarrow> Inl e
              | Inr tlsCfg \<Rightarrow> Inr (mk (srv\<lparr>srv_TLSConfig := Some tlsCfg\<rparr>) (Some mgr))))
      else Inr (mk srv None))"

definition tlsEnabled :: "'p Server \<Rightarrow> bool" where
  "tlsEnabled s \<longleftrightarrow> s_certFile s \<noteq> [] \<and> s_keyFile s \<noteq> []"

subsection \<open>Running\<close>

datatype serve_result = ServeNil | ErrServerClosed | ServeErr bytes

text \<open>
  What the final select finds: the context cancelled, with the stream counter at the start of the
  wait, what each wake-up of the wait sees, and the result of \<open>Shutdown\<close>; or the serving goroutine
  done.
\<close>

datatype select_result =
    SelCtxDone int "(bool \<times> int) list" "bytes option"
  | SelServe serve_result

datatype run_action =
    ActListen | ActWatch | ActServeTLS | ActServe | ActWaitForStreams | ActWarnStreams int | ActShutdown

definition serve_error :: "serve_result \<Rightarrow> server_error option" where
  "serve_error r = (case r of ServeErr e \<Rightarrow> Some (ServeFailed e) | _ \<Rightarrow> None)"

text \<open>The shutdown branch; the value is \<open>None\<close> while the wait for streams has not returned.\<close>

definition shutdown_branch :: "int \<Rightarrow> (bool \<times> int) list \<Rightarrow> bytes option \<Rightarrow> run_action list \<times> server_error option option" where
  "shutdown_branch start wakes shutErr =
     (case WaitForStreams start wakes of
        None \<Rightarrow> ([ActWaitForStreams], None)
      | Some remaining \<Rightarrow>
          (ActWaitForStreams # (if remaining > 0 then [ActWarnStreams remaining] else []) @ [ActShutdown],
           Some (map_option GracefulShutdown shutErr)))"

definition Run :: "'p Server \<Rightarrow> bytes option \<Rightarrow> select_result \<Rightarrow> run_action list \<times> server_error option option" where
  "Run s listenErr sel =
     (case listenErr of
        Some e \<Rightarrow> ([ActListen], Some (Some (ListenFailed e)))
      | None \<Rightarrow>
          (let start = [ActListen] @ (if s_certMgr s \<noteq> None \<and> s_certReloadEvery s > 0 then [ActWatch] else [])
                 @ [if tlsEnabled s then ActServeTLS else ActServe] in
           case sel of
             SelServe r \<Rightarrow> (start, Some (serve_error r))
           | SelCtxDone n wakes shutErr \<Rightarrow>
               (let (acts, res) = shutdown_branch n wakes shutErr in (start @ acts, res))))"

subsection \<open>Lemmas\<close>

lemma buildTLSConfig_Inr:
  "buildTLSConfig read_file pem_pool t mgr = Inr c \<Longrightarrow>
   MinVersion c = VersionTLS12 \<and> (GetCertificate c \<longleftrightarrow> mgr \<noteq> None)
   \<and> (ClientCAFile t \<noteq> [] \<longrightarrow> ClientAuth c = RequireAndVerifyClientCert
        \<and> (\<exists>pem. read_file (ClientCAFile t) = Some pem \<and> ClientCAs c = pem_pool pem \<and> pem_pool pem \<noteq> None))"
  by (auto simp: buildTLSConfig_def Let_def split: if_splits option.splits)

lemma NewServer_Inr:
  assumes "NewServer fs x509 parse read_file pem_pool t cfg = Inr s"
  shows "s_certFile s = CertFile (cfg_TLS cfg) \<and> s_keyFile s = KeyFile (cfg_TLS cfg) \<and> s_listen s = Listen cfg
     \<and> (TLS_Enabled (cfg_TLS cfg) \<longrightarrow> (\<exists>mgr c. s_certMgr s = Some mgr \<and> srv_TLSConfig (s_server s) = Some c
          \<and> certManager_Load fs x509 parse (CertFile (cfg_TLS cfg)) (KeyFile (cfg_TLS cfg)) t
              (newCertManager (CertFile (cfg_TLS cfg)) (KeyFile (cfg_TLS cfg))) = (None, mgr)
          \<and> buildTLSConfig read_file pem_pool (cfg_TLS cfg) (Some mgr) = Inr c))
     \<and> (\<not> TLS_Enabled (cfg_TLS cfg) \<longrightarrow> s_certMgr s = None \<and> srv_TLSConfig (s_server s) = None)"
proof (cases "TLS_Enabled (cfg_TLS cfg)")
  case True
  obtain e mgr where l: "certManager_Load fs x509 parse (CertFile (cfg_TLS cfg)) (KeyFile (cfg_TLS cfg)) t
      (newCertManager (CertFile (cfg_TLS cfg)) (KeyFile (cfg_TLS cfg))) = (e, mgr)" by fastforce
  then have e: "e = None" using assms True by (cases e) (simp_all add: NewServer_def Let_def)
  then obtain c where c: "buildTLSConfig read_file pem_pool (cfg_TLS cfg) (Some mgr) = Inr c"
    using assms True l by (cases "buildTLSConfig read_file pem_pool (cfg_TLS cfg) (Some mgr)") (simp_all add: NewServer_def Let_def)
  show ?thesis using assms True l e c by (auto simp: NewServer_def Let_def)
next
  case False
  then show ?thesis using assms by (auto simp: NewServer_def)
qed

lemma certManager_Load_loaded: "certManager_Load fs x509 parse cp kp t m = (None, m') \<Longrightarrow> \<exists>c. Get m' = Inr c"
  by (auto simp: certManager_Load_def Get_def split: sum.splits)

lemma wait_loop_returns: "(True, n) \<in> set wakes \<or> (b, 0) \<in> set wakes \<Longrightarrow> \<exists>r. wait_loop wakes = Some r"
  by (induction wakes rule: wait_loop.induct) auto

lemma wait_loop_drained: "\<forall>w \<in> set pre. \<not> fst w \<Longrightarrow> wait_loop (pre @ (False, 0) # rest) = Some 0"
  by (induction pre rule: wait_loop.induct) auto

lemma shutdown_branch_serves: "ActServe \<notin> set (fst (shutdown_branch n w e))" "ActServeTLS \<notin> set (fst (shutdown_branch n w e))"
  by (auto simp: shutdown_branch_def split: option.splits)

lemma Run_serves:
  "ActServe \<in> set (fst (Run s listenErr sel)) \<Longrightarrow> \<not> tlsEnabled s" "ActServeTLS \<in> set (fst (Run s listenErr sel)) \<Longrightarrow> tlsEnabled s"
  using shutdown_branch_serves
  by (auto simp: Run_def Let_def case_prod_unfold split: option.splits select_result.splits if_splits)

lemma Load_valid:
  assumes "Load read_file yaml parse_float url_ok env path = Inr c"
  shows "(CertFile (cfg_TLS c) = [] \<longleftrightarrow> KeyFile (cfg_TLS c) = []) \<and> (MTLS (cfg_TLS c) \<longrightarrow> TLS_Enabled (cfg_TLS c))
     \<and> (TLS_Enabled (cfg_TLS c) \<or> AllowInsecure c \<or> isLoopbackAddr (Listen c)) \<and> telemetry_ok (cfg_Telemetry c)"
proof -
  obtain base where ok: "config_ok url_ok (applyEnv parse_float env base)"
    and c: "c = (applyEnv parse_float env base)
       \<lparr>cfg_Content := normalize_content (cfg_Content (applyEnv parse_float env base))\<rparr>"
    using Load_ok [OF assms] by blast
  define b where "b = applyEnv parse_float env base"
  have f: "cfg_TLS c = cfg_TLS b" "Listen c = Listen b" "AllowInsecure c = AllowInsecure b" "cfg_Telemetry c = cfg_Telemetry b"
    unfolding c b_def [symmetric] by simp_all
  show ?thesis unfolding f using ok [folded b_def] by (simp add: config_ok_def listener_ok_def)
qed

subsection \<open>A concrete server\<close>

definition tls_files :: Config where
  "tls_files = Default\<lparr>cfg_TLS := \<lparr>CertFile = ''cert'', KeyFile = ''key'', ClientCAFile = ''ca''\<rparr>\<rparr>"

lemma tls_files_load:
  "Load (\<lambda>_. Some []) (\<lambda>_ _. Some tls_files) (\<lambda>_. None) (\<lambda>_. True) no_env ''f'' = Inr tls_files"
proof -
  have ok: "config_ok (\<lambda>_. True) tls_files"
    using Default_ok by (simp add: config_ok_def tls_files_def listener_ok_def TLS_Enabled_def)
  have "snd (Validate (\<lambda>_. True) tls_files) = tls_files" by (simp add: Validate_def tls_files_def Default_def normalize_content_def)
  then show ?thesis using ok Validate_Nil [of "\<lambda>_. True" tls_files] by (simp add: Load_def split: prod.split list.split) (metis fst_conv snd_conv list.distinct(1))
qed

definition tls_server :: "unit Server" where
  "tls_server = projr (NewServer rotating same_bytes (\<lambda>_. None) (\<lambda>_. Some ''pem'') (\<lambda>_. Some ()) 0 tls_files)"

lemma tls_server_new:
  "NewServer rotating same_bytes (\<lambda>_. None) (\<lambda>_. Some ''pem'') (\<lambda>_. Some ()) 0 tls_files = Inr tls_server"
proof -
  have t: "cfg_TLS tls_files = \<lparr>CertFile = ''cert'', KeyFile = ''key'', ClientCAFile = ''ca''\<rparr>" by (simp add: tls_files_def)
  have "\<exists>s. NewServer rotating same_bytes (\<lambda>_. None) (\<lambda>_. Some ''pem'') (\<lambda>_. Some ()) 0 tls_files = Inr s"
    by (simp add: NewServer_def TLS_Enabled_def t rotating_load buildTLSConfig_def Let_def)
  then show ?thesis by (auto simp: tls_server_def)
qed

lemma tls_server_serves: "ActServeTLS \<in> set (fst (Run tls_server None (SelServe ServeNil)))"
proof -
  have "tlsEnabled tls_server" using NewServer_Inr [OF tls_server_new] by (simp add: tlsEnabled_def tls_files_def)
  then show ?thesis by (simp add: Run_def)
qed

subsection \<open>Properties\<close>

text \<open>
  C7: Transport security from the configuration to the listener. For a configuration that was
  loaded and a server built from it, however the run goes: plaintext is served only on a loopback
  address or with \<open>allow_insecure\<close>; where TLS is served, the minimum version is 1.2, every handshake
  resolves its certificate through a manager that holds one, and if a client CA is configured,
  each client must present a certificate verified against the pool parsed from that file.
\<close>

theorem transport_security:
  assumes "Load read_file yaml parse_float url_ok env path = Inr cfg"
    and "NewServer fs x509 parse read_file' pem_pool t cfg = Inr s"
  shows "(ActServe \<in> set (fst (Run s listenErr sel)) \<longrightarrow> AllowInsecure cfg \<or> isLoopbackAddr (s_listen s))
     \<and> (ActServeTLS \<in> set (fst (Run s listenErr sel)) \<longrightarrow>
          (\<exists>c mgr cert. srv_TLSConfig (s_server s) = Some c \<and> MinVersion c = VersionTLS12 \<and> GetCertificate c
             \<and> s_certMgr s = Some mgr \<and> Get mgr = Inr cert
             \<and> (MTLS (cfg_TLS cfg) \<longrightarrow> ClientAuth c = RequireAndVerifyClientCert
                  \<and> (\<exists>pem pool. read_file' (ClientCAFile (cfg_TLS cfg)) = Some pem \<and> pem_pool pem = Some pool
                       \<and> ClientCAs c = Some pool))))"
proof -
  note v = Load_valid [OF assms(1)]
  note n = NewServer_Inr [OF assms(2)]
  have en: "tlsEnabled s \<longleftrightarrow> TLS_Enabled (cfg_TLS cfg)" using v n by (auto simp: tlsEnabled_def TLS_Enabled_def)
  have "AllowInsecure cfg \<or> isLoopbackAddr (s_listen s)" if "ActServe \<in> set (fst (Run s listenErr sel))"
    using Run_serves(1) [OF that] en v n by auto
  moreover have "\<exists>c mgr cert. srv_TLSConfig (s_server s) = Some c \<and> MinVersion c = VersionTLS12 \<and> GetCertificate c
             \<and> s_certMgr s = Some mgr \<and> Get mgr = Inr cert
             \<and> (MTLS (cfg_TLS cfg) \<longrightarrow> ClientAuth c = RequireAndVerifyClientCert
                  \<and> (\<exists>pem pool. read_file' (ClientCAFile (cfg_TLS cfg)) = Some pem \<and> pem_pool pem = Some pool
                       \<and> ClientCAs c = Some pool))"
    if tls: "ActServeTLS \<in> set (fst (Run s listenErr sel))"
  proof -
    obtain mgr c where m: "s_certMgr s = Some mgr" "srv_TLSConfig (s_server s) = Some c"
      "certManager_Load fs x509 parse (CertFile (cfg_TLS cfg)) (KeyFile (cfg_TLS cfg)) t
         (newCertManager (CertFile (cfg_TLS cfg)) (KeyFile (cfg_TLS cfg))) = (None, mgr)"
      "buildTLSConfig read_file' pem_pool (cfg_TLS cfg) (Some mgr) = Inr c"
      using Run_serves(2) [OF tls] en n by auto
    obtain cert where "Get mgr = Inr cert" using certManager_Load_loaded [OF m(3)] by blast
    with m buildTLSConfig_Inr [OF m(4)] show ?thesis by (auto simp: MTLS_def)
  qed
  ultimately show ?thesis by blast
qed

theorem transport_security_witness:
  "\<exists>c. srv_TLSConfig (s_server tls_server) = Some c \<and> ClientAuth c = RequireAndVerifyClientCert \<and> MinVersion c = VersionTLS12"
proof -
  have "MTLS (cfg_TLS tls_files)" by (simp add: MTLS_def tls_files_def)
  then show ?thesis
    using transport_security [OF tls_files_load tls_server_new, where listenErr = None and sel = "SelServe ServeNil"]
      tls_server_serves by blast
qed

text \<open>
  C26: Graceful shutdown terminates and is ordered. Once the context is cancelled, if the wait for
  streams ever sees the deadline or no active stream, \<open>Run\<close> returns: it waited for the streams,
  then called \<open>Shutdown\<close> exactly once, and its error is that of \<open>Shutdown\<close>. If the streams drained
  before the deadline, or there were none, nothing is reported as cut off.
\<close>

theorem graceful_shutdown:
  assumes "n = 0 \<or> (\<exists>k. (True, k) \<in> set wakes) \<or> (\<exists>b. (b, 0) \<in> set wakes)"
  shows "\<exists>pre rem. Run s None (SelCtxDone n wakes shutErr) =
       (pre @ ActWaitForStreams # (if rem > 0 then [ActWarnStreams rem] else []) @ [ActShutdown],
        Some (map_option GracefulShutdown shutErr))
     \<and> ActShutdown \<notin> set pre \<and> WaitForStreams n wakes = Some rem
     \<and> (n = 0 \<or> (\<exists>p q. wakes = p @ (False, 0) # q \<and> (\<forall>w \<in> set p. \<not> fst w)) \<longrightarrow> rem = 0)"
proof -
  obtain rem where r: "WaitForStreams n wakes = Some rem"
    using assms wait_loop_returns unfolding WaitForStreams_def by (cases "n = 0") (simp, meson)
  let ?pre = "[ActListen] @ (if s_certMgr s \<noteq> None \<and> s_certReloadEvery s > 0 then [ActWatch] else [])
                 @ [if tlsEnabled s then ActServeTLS else ActServe]"
  have "Run s None (SelCtxDone n wakes shutErr) =
      (?pre @ ActWaitForStreams # (if rem > 0 then [ActWarnStreams rem] else []) @ [ActShutdown],
       Some (map_option GracefulShutdown shutErr))"
    by (simp add: Run_def shutdown_branch_def r)
  moreover have "rem = 0" if "n = 0 \<or> (\<exists>p q. wakes = p @ (False, 0) # q \<and> (\<forall>w \<in> set p. \<not> fst w))"
    using that r by (auto simp: WaitForStreams_def wait_loop_drained split: if_splits)
  ultimately show ?thesis using r by (intro exI [of _ ?pre] exI [of _ rem]) auto
qed

theorem graceful_shutdown_witness:
  "snd (Run tls_server None (SelCtxDone 2 [(False, 1), (False, 0)] None)) = Some None"
proof -
  have "(2 :: int) = 0 \<or> (\<exists>k. (True, k) \<in> set [(False, 1 :: int), (False, 0)]) \<or> (\<exists>b. (b, 0) \<in> set [(False, 1 :: int), (False, 0)])"
    by auto
  from graceful_shutdown [OF this, of tls_server None] show ?thesis by auto
qed

end
