(* ===== verification/Buildinfo.thy ===== *)
theory Buildinfo
  imports Go_Strings
begin

text \<open>
  Build information (\<open>internal/buildinfo\<close>): the link-time variables and their one-time upgrade from
  what \<open>runtime/debug.ReadBuildInfo\<close> reports, which is the argument \<open>info\<close>.
\<close>

record build_vars =
  Version :: bytes
  Commit :: bytes
  Date :: bytes
  resolveOnce :: bool

record BuildInfo =
  Main_Version :: bytes
  Settings :: "(bytes \<times> bytes) list"

definition isUnset :: "bytes \<Rightarrow> bool" where
  "isUnset s \<longleftrightarrow> s = [] \<or> s = ''dev'' \<or> s = ''unknown''"

definition setting_step :: "build_vars \<Rightarrow> bytes \<times> bytes \<Rightarrow> build_vars" where
  "setting_step v s =
     (case s of (key, val) \<Rightarrow>
        if key = ''vcs.revision'' then
          (if isUnset (Commit v) \<and> val \<noteq> [] then v\<lparr>Commit := (if length val > 12 then take 12 val else val)\<rparr> else v)
        else if key = ''vcs.time'' then
          (if isUnset (Date v) \<and> val \<noteq> [] then v\<lparr>Date := val\<rparr> else v)
        else v)"

definition resolveFromBuildInfo :: "BuildInfo option \<Rightarrow> build_vars \<Rightarrow> build_vars" where
  "resolveFromBuildInfo info v =
     (case info of
        None \<Rightarrow> v
      | Some i \<Rightarrow>
          foldl setting_step
            (if isUnset (Version v) \<and> Main_Version i \<noteq> [] \<and> Main_Version i \<noteq> ''(devel)''
             then v\<lparr>Version := Main_Version i\<rparr> else v)
            (Settings i))"

definition Resolve :: "BuildInfo option \<Rightarrow> build_vars \<Rightarrow> (bytes \<times> bytes \<times> bytes) \<times> build_vars" where
  "Resolve info v =
     (let v = (if resolveOnce v then v else (resolveFromBuildInfo info v)\<lparr>resolveOnce := True\<rparr>) in
      ((Version v, Commit v, Date v), v))"

subsection \<open>Lemmas\<close>

lemma setting_step_frame:
  "Version (setting_step v s) = Version v" "resolveOnce (setting_step v s) = resolveOnce v"
  "\<not> isUnset (Commit v) \<Longrightarrow> Commit (setting_step v s) = Commit v"
  "\<not> isUnset (Date v) \<Longrightarrow> Date (setting_step v s) = Date v"
  by (simp_all add: setting_step_def split: prod.split)

lemma settings_frame:
  "Version (foldl setting_step v ss) = Version v" "resolveOnce (foldl setting_step v ss) = resolveOnce v"
  by (induction ss arbitrary: v) (simp_all add: setting_step_frame)

lemma settings_keep:
  "\<not> isUnset (Commit v) \<Longrightarrow> Commit (foldl setting_step v ss) = Commit v"
  "\<not> isUnset (Date v) \<Longrightarrow> Date (foldl setting_step v ss) = Date v"
  by (induction ss arbitrary: v) (simp_all add: setting_step_frame)

subsection \<open>Properties\<close>

text \<open>
  Values stamped at link time win over the module's build information, and the first call
  fixes the answer: every later call returns the same triple, whatever is read then.
\<close>

lemma Resolve_stable:
  "(\<not> isUnset (Version v) \<longrightarrow> fst (fst (Resolve info v)) = Version v)
   \<and> (\<not> isUnset (Commit v) \<longrightarrow> fst (snd (fst (Resolve info v))) = Commit v)
   \<and> (\<not> isUnset (Date v) \<longrightarrow> snd (snd (fst (Resolve info v))) = Date v)
   \<and> Resolve info' (snd (Resolve info v)) = Resolve info v"
  using settings_keep [of v] settings_keep [of "v\<lparr>Version := x\<rparr>" for x]
  by (auto simp: Resolve_def resolveFromBuildInfo_def settings_frame Let_def split: option.split)

end
