(* ===== verification/Telemetry.thy ===== *)
theory Telemetry
  imports Config Genai Buildinfo
begin

text \<open>
  Telemetry setup (\<open>internal/telemetry\<close>): exporter options by protocol, the three providers, the
  GenAI instruments, and the tear-down of what was built when a later step fails.

  The OpenTelemetry SDK is the argument \<open>sdk\<close>: for each constructor and each provider's \<open>Shutdown\<close>, the
  error it returns, if any. What \<open>Setup\<close> does to providers and global handles is the list of events.
\<close>

datatype signal = Traces | Metrics | Logs

datatype otlp_client = OtlpGRPC | OtlpHTTP

text \<open>
  An exporter is the client it was created for and the options passed to its constructor, in order.
  What the SDK makes of them, and what it adds from the \<open>OTEL_EXPORTER_OTLP\<close> variables of the process
  environment for settings that no option fixes, is the SDK's.
\<close>

datatype otlp_option = WithEndpoint bytes | WithTimeout duration | WithInsecure | WithHeaders Headers

record exporter =
  x_client :: otlp_client
  x_opts :: "otlp_option list"

datatype instrument =
    Int64Histogram bytes bytes
  | Float64Histogram bytes bytes "rat list"
  | Float64Counter bytes bytes

type_synonym resource = "(bytes \<times> bytes) list"

record sdk =
  sdk_resource :: "resource \<Rightarrow> bytes option"
  sdk_exporter :: "signal \<Rightarrow> exporter \<Rightarrow> bytes option"
  sdk_instrument :: "instrument \<Rightarrow> bytes option"
  sdk_shutdown :: "signal \<Rightarrow> bytes option"

datatype telemetry_error =
    UnknownProtocol bytes
  | SDKError bytes

datatype setup_error =
    ResourceError bytes
  | ProviderError signal telemetry_error
  | InstrumentsError bytes

datatype tel_event = Created signal | ShutDown signal | SetGlobal signal | SetPropagator

definition otlp_options :: "otlp_client \<Rightarrow> Telemetry \<Rightarrow> exporter" where
  "otlp_options client t =
     \<lparr>x_client = client,
      x_opts = [WithEndpoint (Endpoint t), WithTimeout (t_Timeout t)]
        @ (if Insecure t then [WithInsecure] else [])
        @ (if length (t_Headers t) > 0 then [WithHeaders (t_Headers t)] else [])\<rparr>"

definition new_exporter :: "sdk \<Rightarrow> signal \<Rightarrow> exporter \<Rightarrow> telemetry_error + exporter" where
  "new_exporter sdk sig x = (case sdk_exporter sdk sig x of None \<Rightarrow> Inr x | Some e \<Rightarrow> Inl (SDKError e))"

definition newTraceExporter :: "sdk \<Rightarrow> Telemetry \<Rightarrow> telemetry_error + exporter" where
  "newTraceExporter sdk t =
     (if Protocol t = ProtoGRPC then new_exporter sdk Traces (otlp_options OtlpGRPC t)
      else if Protocol t = ProtoHTTP then new_exporter sdk Traces (otlp_options OtlpHTTP t)
      else Inl (UnknownProtocol (Protocol t)))"

definition newMetricExporter :: "sdk \<Rightarrow> Telemetry \<Rightarrow> telemetry_error + exporter" where
  "newMetricExporter sdk t =
     (if Protocol t = ProtoGRPC then new_exporter sdk Metrics (otlp_options OtlpGRPC t)
      else if Protocol t = ProtoHTTP then new_exporter sdk Metrics (otlp_options OtlpHTTP t)
      else Inl (UnknownProtocol (Protocol t)))"

definition newLogExporter :: "sdk \<Rightarrow> Telemetry \<Rightarrow> telemetry_error + exporter" where
  "newLogExporter sdk t =
     (if Protocol t = ProtoGRPC then new_exporter sdk Logs (otlp_options OtlpGRPC t)
      else if Protocol t = ProtoHTTP then new_exporter sdk Logs (otlp_options OtlpHTTP t)
      else Inl (UnknownProtocol (Protocol t)))"

record TracerProvider =
  tp_exporter :: exporter
  tp_BatchTimeout :: duration
  tp_resource :: resource
  tp_ratio :: float64

record MeterProvider =
  mp_exporter :: exporter
  mp_Interval :: duration
  mp_resource :: resource

record LoggerProvider =
  lp_exporter :: exporter
  lp_resource :: resource

definition newTracerProvider :: "sdk \<Rightarrow> Config \<Rightarrow> resource \<Rightarrow> telemetry_error + TracerProvider" where
  "newTracerProvider sdk cfg res =
     (case newTraceExporter sdk (cfg_Telemetry cfg) of
        Inl e \<Rightarrow> Inl e
      | Inr x \<Rightarrow> Inr \<lparr>tp_exporter = x, tp_BatchTimeout = 2 * second, tp_resource = res,
                      tp_ratio = SampleRatio (cfg_Telemetry cfg)\<rparr>)"

definition newMeterProvider :: "sdk \<Rightarrow> Config \<Rightarrow> resource \<Rightarrow> telemetry_error + MeterProvider" where
  "newMeterProvider sdk cfg res =
     (case newMetricExporter sdk (cfg_Telemetry cfg) of
        Inl e \<Rightarrow> Inl e
      | Inr x \<Rightarrow> Inr \<lparr>mp_exporter = x, mp_Interval = 15 * second, mp_resource = res\<rparr>)"

definition newLoggerProvider :: "sdk \<Rightarrow> Config \<Rightarrow> resource \<Rightarrow> telemetry_error + LoggerProvider" where
  "newLoggerProvider sdk cfg res =
     (case newLogExporter sdk (cfg_Telemetry cfg) of
        Inl e \<Rightarrow> Inl e
      | Inr x \<Rightarrow> Inr \<lparr>lp_exporter = x, lp_resource = res\<rparr>)"

text \<open>The attributes of the resource the program itself sets.\<close>

definition buildResource :: "sdk \<Rightarrow> bytes \<Rightarrow> Config \<Rightarrow> bytes + resource" where
  "buildResource sdk version cfg =
     (let attrs = [(''service.name'', s_Name (cfg_Service cfg)), (''service.namespace'', s_Namespace (cfg_Service cfg)),
                   (''service.version'', version), (''deployment.environment'', s_Env (cfg_Service cfg))] in
      case sdk_resource sdk attrs of None \<Rightarrow> Inr attrs | Some e \<Rightarrow> Inl e)"

record GenAIMeters =
  m_TokenUsage :: instrument
  m_OperationDuration :: instrument
  m_TimeToFirstToken :: instrument
  m_CostUSD :: instrument
  m_CostUSDTotal :: instrument

definition make_instrument :: "sdk \<Rightarrow> instrument \<Rightarrow> bytes + instrument" where
  "make_instrument sdk i = (case sdk_instrument sdk i of None \<Rightarrow> Inr i | Some e \<Rightarrow> Inl e)"

definition newGenAIMeters :: "sdk \<Rightarrow> bytes + GenAIMeters" where
  "newGenAIMeters sdk =
     (case make_instrument sdk (Int64Histogram MetricTokenUsage ''{token}'') of Inl e \<Rightarrow> Inl e | Inr tokens \<Rightarrow>
      case make_instrument sdk (Float64Histogram MetricOperationDuration ''s'' []) of Inl e \<Rightarrow> Inl e | Inr dur \<Rightarrow>
      case make_instrument sdk (Float64Histogram MetricTimeToFirstToken ''s'' []) of Inl e \<Rightarrow> Inl e | Inr ttft \<Rightarrow>
      case make_instrument sdk (Float64Histogram MetricCostUSD ''USD''
             [1 / 100000, 1 / 10000, 1 / 1000, 1 / 100, 1 / 10, 1, 10, 100]) of Inl e \<Rightarrow> Inl e | Inr cost \<Rightarrow>
      case make_instrument sdk (Float64Counter MetricCostUSDTotal ''USD'') of Inl e \<Rightarrow> Inl e | Inr costTotal \<Rightarrow>
        Inr \<lparr>m_TokenUsage = tokens, m_OperationDuration = dur, m_TimeToFirstToken = ttft, m_CostUSD = cost,
             m_CostUSDTotal = costTotal\<rparr>)"

record Providers =
  p_Tracer :: TracerProvider
  p_Meter :: MeterProvider
  p_Logger :: LoggerProvider
  p_Meters :: GenAIMeters
  p_Ready :: bool

definition Setup :: "sdk \<Rightarrow> bytes \<Rightarrow> Config \<Rightarrow> (setup_error + Providers) \<times> tel_event list" where
  "Setup sdk version cfg =
     (case buildResource sdk version cfg of Inl e \<Rightarrow> (Inl (ResourceError e), []) | Inr res \<Rightarrow>
      case newTracerProvider sdk cfg res of Inl e \<Rightarrow> (Inl (ProviderError Traces e), []) | Inr tp \<Rightarrow>
      case newMeterProvider sdk cfg res of
        Inl e \<Rightarrow> (Inl (ProviderError Metrics e), [Created Traces, ShutDown Traces])
      | Inr mp \<Rightarrow>
      case newLoggerProvider sdk cfg res of
        Inl e \<Rightarrow> (Inl (ProviderError Logs e), [Created Traces, Created Metrics, ShutDown Metrics, ShutDown Traces])
      | Inr lp \<Rightarrow>
        (let ev = [Created Traces, Created Metrics, Created Logs,
                   SetGlobal Traces, SetGlobal Metrics, SetGlobal Logs, SetPropagator] in
         case newGenAIMeters sdk of
           Inl e \<Rightarrow> (Inl (InstrumentsError e), ev @ [ShutDown Logs, ShutDown Metrics, ShutDown Traces])
         | Inr meters \<Rightarrow>
             (Inr \<lparr>p_Tracer = tp, p_Meter = mp, p_Logger = lp, p_Meters = meters, p_Ready = True\<rparr>, ev)))"

text \<open>The \<open>Shutdown\<close> closure: the joined errors and the events.\<close>

definition Providers_Shutdown :: "sdk \<Rightarrow> bytes list \<times> tel_event list" where
  "Providers_Shutdown sdk =
     (List.map_filter (sdk_shutdown sdk) [Logs, Metrics, Traces], [ShutDown Logs, ShutDown Metrics, ShutDown Traces])"

subsection \<open>Lemmas\<close>

fun created :: "tel_event list \<Rightarrow> signal list" where
  "created [] = []"
| "created (Created s # es) = s # created es"
| "created (_ # es) = created es"

fun shut_down :: "tel_event list \<Rightarrow> signal list" where
  "shut_down [] = []"
| "shut_down (ShutDown s # es) = s # shut_down es"
| "shut_down (_ # es) = shut_down es"

lemmas provider_defs = newTracerProvider_def newMeterProvider_def newLoggerProvider_def

lemmas exporter_defs = newTraceExporter_def newMetricExporter_def newLogExporter_def new_exporter_def otlp_options_def

lemma Setup_providers:
  assumes "Setup sdk version cfg = (Inr p, ev)"
  shows "\<exists>res. newTracerProvider sdk cfg res = Inr (p_Tracer p) \<and> newMeterProvider sdk cfg res = Inr (p_Meter p)
     \<and> newLoggerProvider sdk cfg res = Inr (p_Logger p)"
  using assms by (auto simp: Setup_def Let_def split: sum.splits)

lemma exporter_Inr:
  "newTraceExporter sdk t = Inr x \<Longrightarrow> x = otlp_options (x_client x) t"
  "newMetricExporter sdk t = Inr x \<Longrightarrow> x = otlp_options (x_client x) t"
  "newLogExporter sdk t = Inr x \<Longrightarrow> x = otlp_options (x_client x) t"
  by (auto simp: exporter_defs split: if_splits option.splits)

lemma provider_Inr:
  "newTracerProvider sdk cfg res = Inr tp \<Longrightarrow> newTraceExporter sdk (cfg_Telemetry cfg) = Inr (tp_exporter tp) \<and> tp_resource tp = res"
  "newMeterProvider sdk cfg res = Inr mp \<Longrightarrow> newMetricExporter sdk (cfg_Telemetry cfg) = Inr (mp_exporter mp) \<and> mp_resource mp = res"
  "newLoggerProvider sdk cfg res = Inr lp \<Longrightarrow> newLogExporter sdk (cfg_Telemetry cfg) = Inr (lp_exporter lp) \<and> lp_resource lp = res"
  by (auto simp: provider_defs split: sum.splits)

lemma Setup_unknown_protocol:
  assumes "fst (Setup sdk version cfg) = Inl (ProviderError sig (UnknownProtocol x))"
  shows "Protocol (cfg_Telemetry cfg) \<notin> {ProtoGRPC, ProtoHTTP}"
  using assms
  by (auto simp: Setup_def provider_defs exporter_defs Let_def split: sum.splits if_splits option.splits)

definition working_sdk :: sdk where
  "working_sdk = \<lparr>sdk_resource = (\<lambda>_. None), sdk_exporter = (\<lambda>_ _. None), sdk_instrument = (\<lambda>_. None), sdk_shutdown = (\<lambda>_. None)\<rparr>"

lemma working_Setup: "\<exists>p ev. Setup working_sdk v Default = (Inr p, ev)"
  by (simp add: Setup_def working_sdk_def buildResource_def provider_defs exporter_defs newGenAIMeters_def
      make_instrument_def Default_def config_consts Let_def)

subsection \<open>Properties\<close>

text \<open>
  C33: Setup leaks nothing. Whatever constructor fails, every provider created before it is shut
  down exactly once, in reverse order of creation; if none fails, all three exist, none is shut
  down, and the \<open>Shutdown\<close> closure later shuts down each once in reverse order, going on over
  errors and returning every one of them.
\<close>

theorem Setup_no_leak:
  assumes "Setup sdk version cfg = (res, ev)"
  shows "(case res of
        Inl e \<Rightarrow> shut_down ev = rev (created ev)
      | Inr p \<Rightarrow> created ev = [Traces, Metrics, Logs] \<and> shut_down ev = []
          \<and> shut_down (snd (Providers_Shutdown sdk)) = rev (created ev))
     \<and> distinct (created ev)
     \<and> set (fst (Providers_Shutdown sdk)) = {e. \<exists>s. sdk_shutdown sdk s = Some e}"
proof -
  have sig: "(\<exists>s. P s) \<longleftrightarrow> P Logs \<or> P Metrics \<or> P Traces" for P by (metis signal.exhaust)
  have "set (fst (Providers_Shutdown sdk)) = {e. \<exists>s. sdk_shutdown sdk s = Some e}"
    by (auto simp: Providers_Shutdown_def List.map_filter_simps sig split: option.splits)
  moreover have "(case res of
        Inl e \<Rightarrow> shut_down ev = rev (created ev)
      | Inr p \<Rightarrow> created ev = [Traces, Metrics, Logs] \<and> shut_down ev = []
          \<and> shut_down (snd (Providers_Shutdown sdk)) = rev (created ev)) \<and> distinct (created ev)"
    using assms by (auto simp: Setup_def Providers_Shutdown_def Let_def split: sum.splits)
  ultimately show ?thesis by blast
qed

theorem Setup_no_leak_witness:
  "shut_down (snd (Setup (working_sdk\<lparr>sdk_exporter := (\<lambda>s _. if s = Logs then Some ''dial'' else None)\<rparr>) ''v'' Default))
     = [Metrics, Traces]"
proof -
  define k where "k = working_sdk\<lparr>sdk_exporter := (\<lambda>s _. if s = Logs then Some ''dial'' else None)\<rparr>"
  obtain res ev where s: "Setup k ''v'' Default = (res, ev)" by fastforce
  moreover have "fst (Setup k ''v'' Default) = Inl (ProviderError Logs (SDKError ''dial''))"
    "created (snd (Setup k ''v'' Default)) = [Traces, Metrics]"
    by (simp_all add: k_def Setup_def working_sdk_def buildResource_def provider_defs exporter_defs Default_def config_consts Let_def)
  ultimately have "res = Inl (ProviderError Logs (SDKError ''dial''))" "created ev = [Traces, Metrics]" by simp_all
  with Setup_no_leak [OF s] have "shut_down ev = [Metrics, Traces]" by simp
  then show ?thesis by (simp add: k_def [symmetric] s)
qed



end
