(* ===== verification/Command.thy ===== *)
theory Command
  imports Server Telemetry
begin

text \<open>
  The command line (\<open>cmd/llmtap/main.go\<close>): flag parsing, \<open>hash-token\<close>, the logger with its two sinks,
  and \<open>up\<close>, which puts configuration, telemetry, handler and server together. The outside world
  of \<open>up\<close> is the record \<open>up_env\<close> of the arguments of its parts.
\<close>

subsection \<open>Flags\<close>

datatype flag_error = ErrHelp | BadSyntax bytes | NotDefined bytes | NeedsArgument bytes

text \<open>A flag's name and value, cut at the first \<open>=\<close> after the first character.\<close>

definition cut_flag :: "bytes \<Rightarrow> bytes \<times> bytes option" where
  "cut_flag name =
     (case name of
        [] \<Rightarrow> ([], None)
      | c # rest \<Rightarrow>
          (case cut_on CHR ''='' rest of None \<Rightarrow> (name, None) | Some (a, v) \<Rightarrow> (c # a, Some v)))"

text \<open>\<open>flag.FlagSet.Parse\<close> for string flags; \<open>vals\<close> holds the flags defined and their values.\<close>

fun parse_flags :: "(bytes \<rightharpoonup> bytes) \<Rightarrow> bytes list \<Rightarrow> flag_error + (bytes \<rightharpoonup> bytes)" where
  "parse_flags vals [] = Inr vals"
| "parse_flags vals (s # args) =
     (if length s < 2 \<or> s ! 0 \<noteq> CHR ''-'' then Inr vals
      else if s = ''--'' then Inr vals
      else
        let name = (if s ! 1 = CHR ''-'' then drop 2 s else drop 1 s) in
        if name = [] \<or> name ! 0 = CHR ''-'' \<or> name ! 0 = CHR ''='' then Inl (BadSyntax s)
        else
          case cut_flag name of (name, value) \<Rightarrow>
            if vals name = None then (if name = ''help'' \<or> name = ''h'' then Inl ErrHelp else Inl (NotDefined name))
            else case value of
                   Some v \<Rightarrow> parse_flags (vals(name \<mapsto> v)) args
                 | None \<Rightarrow>
                     (case args of
                        [] \<Rightarrow> Inl (NeedsArgument name)
                      | v # args' \<Rightarrow> parse_flags (vals(name \<mapsto> v)) args'))"

datatype cli_error =
    NoCommand
  | UnknownCommand bytes
  | FlagError flag_error
  | ReadStdin
  | EmptyToken
  | HashError auth_error
  | ConfigError Config.load_error
  | TelemetryError setup_error
  | BadLogLevel bytes
  | ProxyError new_error
  | ServerError server_error
  | RunError server_error

subsection \<open>hash-token\<close>

definition trim_crlf :: "bytes \<Rightarrow> bytes" where
  "trim_crlf s = rev (dropWhile (\<lambda>c. c = CHR 0x0D \<or> c = CHR 0x0A) (rev s))"

text \<open>The error and what is printed; \<open>stdin\<close> is \<open>None\<close> when reading fails.\<close>

definition runHashToken ::
  "idkey \<Rightarrow> int \<Rightarrow> (nat \<Rightarrow> bytes option) \<Rightarrow> bytes list \<Rightarrow> bytes option \<Rightarrow> cli_error option \<times> bytes" where
  "runHashToken idkey version rand args stdin =
     (case parse_flags Map.empty args of
        Inl ErrHelp \<Rightarrow> (None, [])
      | Inl e \<Rightarrow> (Some (FlagError e), [])
      | Inr _ \<Rightarrow>
          (case stdin of
             None \<Rightarrow> (Some ReadStdin, [])
           | Some raw \<Rightarrow>
               (let plain = trim_crlf raw in
                if plain = [] then (Some EmptyToken, [])
                else case Hash idkey version rand plain of
                       Inl e \<Rightarrow> (Some (HashError e), [])
                     | Inr encoded \<Rightarrow> (None, encoded @ [CHR 0x0A]))))"

subsection \<open>Logging\<close>

definition LevelDebug :: int where "LevelDebug = -4"
definition LevelInfo :: int where "LevelInfo = 0"
definition LevelWarn :: int where "LevelWarn = 4"
definition LevelError :: int where "LevelError = 8"

datatype log_ctx = WithAttrs "(bytes \<times> bytes) list" | WithGroup bytes

text \<open>
  Handlers: the text handler with its level, the OpenTelemetry bridge, which takes every record,
  a level filter around a handler, and the fan-out. The first two collect the attributes and
  groups given to them.
\<close>

datatype slog_handler =
    TextHandler int "log_ctx list"
  | OtelHandler "log_ctx list"
  | LeveledHandler slog_handler int
  | MultiHandler "slog_handler list"

datatype sink = TextSink "log_ctx list" | OtelSink "log_ctx list"

fun handler_Enabled :: "slog_handler \<Rightarrow> int \<Rightarrow> bool" where
  "handler_Enabled (TextHandler lvl ctx) l = (l \<ge> lvl)"
| "handler_Enabled (OtelHandler ctx) l = True"
| "handler_Enabled (LeveledHandler h lvl) l = (l \<ge> lvl)"
| "handler_Enabled (MultiHandler hs) l = list_ex (\<lambda>h. handler_Enabled h l) hs"

text \<open>
  Handling a record of level \<open>l\<close>: the sinks it is written to and the errors; \<open>fails\<close> is the error a sink
  returns.
\<close>

fun handler_Handle :: "(sink \<Rightarrow> bytes option) \<Rightarrow> slog_handler \<Rightarrow> int \<Rightarrow> sink list \<times> bytes list" where
  "handler_Handle fails (TextHandler lvl ctx) l =
     ([TextSink ctx], case fails (TextSink ctx) of None \<Rightarrow> [] | Some e \<Rightarrow> [e])"
| "handler_Handle fails (OtelHandler ctx) l =
     ([OtelSink ctx], case fails (OtelSink ctx) of None \<Rightarrow> [] | Some e \<Rightarrow> [e])"
| "handler_Handle fails (LeveledHandler h lvl) l = handler_Handle fails h l"
| "handler_Handle fails (MultiHandler hs) l =
     (let rs = map (\<lambda>h. if handler_Enabled h l then handler_Handle fails h l else ([], [])) hs in
      (concat (map fst rs), concat (map snd rs)))"

fun handler_With :: "log_ctx \<Rightarrow> slog_handler \<Rightarrow> slog_handler" where
  "handler_With c (TextHandler lvl ctx) = TextHandler lvl (ctx @ [c])"
| "handler_With c (OtelHandler ctx) = OtelHandler (ctx @ [c])"
| "handler_With c (LeveledHandler h lvl) = LeveledHandler (handler_With c h) lvl"
| "handler_With c (MultiHandler hs) = MultiHandler (map (handler_With c) hs)"

definition newLogger :: "bytes \<Rightarrow> bytes \<Rightarrow> bytes \<Rightarrow> cli_error + slog_handler" where
  "newLogger level serviceName serviceVersion =
     (let mk = (\<lambda>lvl. Inr (handler_With (WithAttrs [(''service.name'', serviceName), (''service.version'', serviceVersion)])
                  (MultiHandler [TextHandler lvl [], LeveledHandler (OtelHandler []) lvl]))) in
      if level = ''debug'' then mk LevelDebug
      else if level = ''info'' \<or> level = [] then mk LevelInfo
      else if level = ''warn'' then mk LevelWarn
      else if level = ''error'' then mk LevelError
      else Inl (BadLogLevel level))"

text \<open>\<open>slog.Logger\<close>: a record is handled if the handler is enabled for its level.\<close>

definition log_record :: "(sink \<Rightarrow> bytes option) \<Rightarrow> slog_handler \<Rightarrow> int \<Rightarrow> sink list \<times> bytes list" where
  "log_record fails h l = (if handler_Enabled h l then handler_Handle fails h l else ([], []))"

subsection \<open>up\<close>

record ('f, 'p) up_env =
  ue_read_file :: "bytes \<Rightarrow> bytes option"
  ue_yaml :: "bytes \<Rightarrow> Config \<Rightarrow> Config option"
  ue_parse_float :: "bytes \<Rightarrow> float64 option"
  ue_url_ok :: "bytes \<Rightarrow> bool"
  ue_environ :: environment
  ue_sdk :: sdk
  ue_buildinfo :: "BuildInfo option"
  ue_vars :: build_vars
  ue_target_host :: "bytes \<Rightarrow> bytes option"
  ue_counter :: "bytes \<Rightarrow> bytes option"
  ue_load_pricing :: "bytes \<Rightarrow> bool \<Rightarrow> pricing_error + 'f Table"
  ue_version :: int
  ue_numCPU :: nat
  ue_providers :: "'f Registry"
  ue_fs :: fs
  ue_x509 :: x509
  ue_parse_cert :: "bytes \<Rightarrow> bytes option"
  ue_pem_pool :: "bytes \<Rightarrow> 'p option"
  ue_boot :: nat
  ue_listenErr :: "bytes option"
  ue_select :: select_result

record up_result =
  up_err :: "cli_error option option"
  up_tel :: "tel_event list"
  up_acts :: "run_action list"

text \<open>
  \<open>up_err\<close> is the error returned, \<open>None\<close> while the server is still running. The telemetry shutdown's
  own error is only logged.
\<close>

definition runUp :: "('f, 'p) up_env \<Rightarrow> bytes list \<Rightarrow> up_result" where
  "runUp e args =
     (case parse_flags [''config'' \<mapsto> [], ''log-level'' \<mapsto> ''info''] args of
        Inl ErrHelp \<Rightarrow> \<lparr>up_err = Some None, up_tel = [], up_acts = []\<rparr>
      | Inl err \<Rightarrow> \<lparr>up_err = Some (Some (FlagError err)), up_tel = [], up_acts = []\<rparr>
      | Inr vals \<Rightarrow>
      case Load (ue_read_file e) (ue_yaml e) (ue_parse_float e) (ue_url_ok e) (ue_environ e) (the (vals ''config'')) of
        Inl err \<Rightarrow> \<lparr>up_err = Some (Some (ConfigError err)), up_tel = [], up_acts = []\<rparr>
      | Inr cfg \<Rightarrow>
      case Setup (ue_sdk e) (fst (fst (Resolve (ue_buildinfo e) (ue_vars e)))) cfg of
        (Inl err, ev) \<Rightarrow> \<lparr>up_err = Some (Some (TelemetryError err)), up_tel = ev, up_acts = []\<rparr>
      | (Inr prov, ev) \<Rightarrow>
      case newLogger (the (vals ''log-level'')) (s_Name (cfg_Service cfg)) (fst (fst (Resolve (ue_buildinfo e) (ue_vars e)))) of
        Inl err \<Rightarrow> \<lparr>up_err = Some (Some err), up_tel = ev, up_acts = []\<rparr>
      | Inr logger \<Rightarrow>
      case New (ue_target_host e) (ue_counter e) (ue_load_pricing e) (ue_version e) (ue_numCPU e) cfg (ue_providers e) of
        Inl err \<Rightarrow> \<lparr>up_err = Some (Some (ProxyError err)), up_tel = ev, up_acts = []\<rparr>
      | Inr handler \<Rightarrow>
      case NewServer (ue_fs e) (ue_x509 e) (ue_parse_cert e) (ue_read_file e) (ue_pem_pool e) (ue_boot e) cfg of
        Inl err \<Rightarrow> \<lparr>up_err = Some (Some (ServerError err)), up_tel = ev, up_acts = []\<rparr>
      | Inr srv \<Rightarrow>
      case Run srv (ue_listenErr e) (ue_select e) of
        (acts, None) \<Rightarrow> \<lparr>up_err = None, up_tel = ev, up_acts = acts\<rparr>
      | (acts, Some runErr) \<Rightarrow>
          \<lparr>up_err = Some (map_option RunError runErr), up_tel = ev @ snd (Providers_Shutdown (ue_sdk e)), up_acts = acts\<rparr>)"

subsection \<open>Commands\<close>

record run_result =
  out_err :: "cli_error option option"
  out_stdout :: bytes
  out_usage :: bool
  out_version :: "(bytes \<times> bytes \<times> bytes) option"

definition run ::
  "idkey \<Rightarrow> (nat \<Rightarrow> bytes option) \<Rightarrow> ('f, 'p) up_env \<Rightarrow> bytes option \<Rightarrow> bytes list \<Rightarrow> run_result" where
  "run idkey rand e stdin args =
     (case args of
        [] \<Rightarrow> \<lparr>out_err = Some (Some NoCommand), out_stdout = [], out_usage = True, out_version = None\<rparr>
      | cmd # rest \<Rightarrow>
          if cmd = ''up'' then \<lparr>out_err = up_err (runUp e rest), out_stdout = [], out_usage = False, out_version = None\<rparr>
          else if cmd = ''hash-token'' then
            (case runHashToken idkey (ue_version e) rand rest stdin of
               (err, out) \<Rightarrow> \<lparr>out_err = Some err, out_stdout = out, out_usage = False, out_version = None\<rparr>)
          else if cmd \<in> {''version'', ''--version'', ''-v''} then
            \<lparr>out_err = Some None, out_stdout = [], out_usage = False,
             out_version = Some (fst (Resolve (ue_buildinfo e) (ue_vars e)))\<rparr>
          else if cmd \<in> {''help'', ''--help'', ''-h''} then
            \<lparr>out_err = Some None, out_stdout = [], out_usage = True, out_version = None\<rparr>
          else \<lparr>out_err = Some (Some (UnknownCommand cmd)), out_stdout = [], out_usage = True, out_version = None\<rparr>)"

text \<open>The exit status of \<open>main\<close>, once \<open>run\<close> has returned.\<close>

definition main_exit :: "run_result \<Rightarrow> nat option" where
  "main_exit r = (case out_err r of None \<Rightarrow> None | Some None \<Rightarrow> Some 0 | Some (Some e) \<Rightarrow> Some 1)"

subsection \<open>Lemmas\<close>

lemma trim_crlf_line:
  assumes "tok \<noteq> []" and "last tok \<noteq> CHR 0x0D" and "last tok \<noteq> CHR 0x0A"
    and "set nl \<subseteq> {CHR 0x0D, CHR 0x0A}"
  shows "trim_crlf (tok @ nl) = tok"
proof -
  have "dropWhile (\<lambda>c. c = CHR 0x0D \<or> c = CHR 0x0A) (rev nl @ rev tok) = dropWhile (\<lambda>c. c = CHR 0x0D \<or> c = CHR 0x0A) (rev tok)"
    using assms(4) by (intro dropWhile_append2) auto
  also have "\<dots> = rev tok"
    using assms(1-3) by (cases tok rule: rev_cases) auto
  finally show ?thesis by (simp add: trim_crlf_def)
qed

text \<open>A verifier with the one hash just made.\<close>

lemma Hash_verifier:
  assumes "\<And>tok salt t m p n. length (idkey tok salt t m p n) = n"
    and "0 \<le> version" and "in_int64 version" and "rand argonSaltLen = Some salt" and "tok \<noteq> []" and "0 < numCPU"
  shows "\<exists>encoded v. Hash idkey version rand tok = Inr encoded \<and> NewVerifier version numCPU [encoded] = Inr v
     \<and> fst (Verify idkey sha now now' tok v) = (hasValidShape tok, False)"
proof -
  let ?p = "\<lparr>p_time = argonTime, p_memory = argonMemory, p_threads = argonThreads, p_salt = salt,
    p_key = idkey tok salt argonTime argonMemory argonThreads argonKeyLen\<rparr>"
  let ?v = "\<lparr>allow = [?p], sem_cap = numCPU, sem = 0, cache = [], cacheOrder = []\<rparr>"
  obtain e where e: "Hash idkey version rand tok = Inr e" "parseEncoded version e = Inr ?p"
    "Verify_encoded idkey version tok e = Inr True"
    using Hash_roundtrip [where idkey = idkey and rand = rand and plain = tok, OF assms(1-4)] by blast
  then have "matches idkey tok ?p" by (simp add: Verify_encoded_def)
  then have "fst (Verify idkey sha now now' tok ?v) = (hasValidShape tok, False)"
    using assms(5,6) by (simp add: Verify_def Verifier_Enabled_def cacheLookup_def matched_def Let_def)
  moreover have "NewVerifier version numCPU [e] = Inr ?v" using e(2) by (simp add: NewVerifier_def)
  ultimately show ?thesis using e(1) by blast
qed

text \<open>Attributes and groups never change which levels pass.\<close>

definition two_sinks :: "int \<Rightarrow> log_ctx list \<Rightarrow> slog_handler" where
  "two_sinks lvl ctx = MultiHandler [TextHandler lvl ctx, LeveledHandler (OtelHandler ctx) lvl]"

lemma two_sinks_With: "foldl (\<lambda>h c. handler_With c h) (two_sinks lvl ctx) cs = two_sinks lvl (ctx @ cs)"
  by (induction cs arbitrary: ctx) (simp_all add: two_sinks_def)

lemma newLogger_two_sinks:
  "newLogger level name version = Inr h \<Longrightarrow>
   \<exists>lvl. h = two_sinks lvl [WithAttrs [(''service.name'', name), (''service.version'', version)]]
     \<and> lvl = (if level = ''debug'' then LevelDebug else if level = ''warn'' then LevelWarn
              else if level = ''error'' then LevelError else LevelInfo)"
  by (auto simp: newLogger_def two_sinks_def Let_def split: if_splits)

lemma two_sinks_record:
  "log_record fails (two_sinks lvl ctx) l =
     (if l \<ge> lvl then ([TextSink ctx, OtelSink ctx],
        (case fails (TextSink ctx) of None \<Rightarrow> [] | Some e \<Rightarrow> [e]) @ (case fails (OtelSink ctx) of None \<Rightarrow> [] | Some e \<Rightarrow> [e]))
      else ([], []))"
  by (simp add: log_record_def two_sinks_def)

lemma Setup_created:
  "Setup sdk v cfg = (Inr p, ev) \<Longrightarrow> created ev = [Traces, Metrics, Logs] \<and> shut_down ev = []"
  "Setup sdk v cfg = (Inl e, ev) \<Longrightarrow> shut_down ev = rev (created ev)"
  by (auto simp: Setup_def Let_def split: sum.splits)

lemma shut_down_append [simp]: "shut_down (xs @ ys) = shut_down xs @ shut_down ys"
  by (induction xs rule: shut_down.induct) auto

lemma created_append [simp]: "created (xs @ ys) = created xs @ created ys"
  by (induction xs rule: created.induct) auto

lemma Shutdown_events [simp]:
  "shut_down (snd (Providers_Shutdown sdk)) = [Logs, Metrics, Traces]" "created (snd (Providers_Shutdown sdk)) = []"
  by (simp_all add: Providers_Shutdown_def)

lemma newLogger_Inl: "newLogger level name version = Inl err \<Longrightarrow> err = BadLogLevel level"
  by (auto simp: newLogger_def Let_def split: if_splits)

lemma Run_acts: "Run srv listenErr sel = (acts, res) \<Longrightarrow> acts \<noteq> []"
  by (auto simp: Run_def Let_def case_prod_unfold split: option.splits select_result.splits)

text \<open>How far \<open>up\<close> gets.\<close>

lemma runUp_cases:
  obtains (early) err where "runUp e args = \<lparr>up_err = Some err, up_tel = [], up_acts = []\<rparr>"
  | (unset) cfg err ev where "Setup (ue_sdk e) (fst (fst (Resolve (ue_buildinfo e) (ue_vars e)))) cfg = (Inl err, ev)"
      "runUp e args = \<lparr>up_err = Some (Some (TelemetryError err)), up_tel = ev, up_acts = []\<rparr>"
  | (built) cfg prov ev err where "Setup (ue_sdk e) (fst (fst (Resolve (ue_buildinfo e) (ue_vars e)))) cfg = (Inr prov, ev)"
      "runUp e args = \<lparr>up_err = Some (Some err), up_tel = ev, up_acts = []\<rparr>" "\<And>x. err \<noteq> TelemetryError x"
  | (ran) path cfg prov ev srv acts res where
      "Load (ue_read_file e) (ue_yaml e) (ue_parse_float e) (ue_url_ok e) (ue_environ e) path = Inr cfg"
      "Setup (ue_sdk e) (fst (fst (Resolve (ue_buildinfo e) (ue_vars e)))) cfg = (Inr prov, ev)"
      "NewServer (ue_fs e) (ue_x509 e) (ue_parse_cert e) (ue_read_file e) (ue_pem_pool e) (ue_boot e) cfg = Inr srv"
      "Run srv (ue_listenErr e) (ue_select e) = (acts, res)"
      "runUp e args = \<lparr>up_err = map_option (map_option RunError) res,
         up_tel = ev @ (if res = None then [] else snd (Providers_Shutdown (ue_sdk e))), up_acts = acts\<rparr>"
proof (cases "parse_flags [''config'' \<mapsto> [], ''log-level'' \<mapsto> ''info''] args")
  case (Inl fe)
  then show thesis by (cases fe) (auto intro: early simp: runUp_def)
next
  case (Inr vals)
  note pf = Inr
  show thesis
  proof (cases "Load (ue_read_file e) (ue_yaml e) (ue_parse_float e) (ue_url_ok e) (ue_environ e) (the (vals ''config''))")
    case (Inl err)
    then show thesis using pf by (intro early) (simp add: runUp_def)
  next
    case ld: (Inr cfg)
    obtain s ev where su: "Setup (ue_sdk e) (fst (fst (Resolve (ue_buildinfo e) (ue_vars e)))) cfg = (s, ev)" by fastforce
    show thesis
    proof (cases s)
      case (Inl err)
      then show thesis using pf ld su by (intro unset) (simp_all add: runUp_def)
    next
      case (Inr prov)
      have su': "Setup (ue_sdk e) (fst (fst (Resolve (ue_buildinfo e) (ue_vars e)))) cfg = (Inr prov, ev)" using su Inr by simp
      let ?lg = "newLogger (the (vals ''log-level'')) (s_Name (cfg_Service cfg)) (fst (fst (Resolve (ue_buildinfo e) (ue_vars e))))"
      let ?h = "New (ue_target_host e) (ue_counter e) (ue_load_pricing e) (ue_version e) (ue_numCPU e) cfg (ue_providers e)"
      let ?sv = "NewServer (ue_fs e) (ue_x509 e) (ue_parse_cert e) (ue_read_file e) (ue_pem_pool e) (ue_boot e) cfg"
      show thesis
      proof (cases "\<exists>lg h sv. ?lg = Inr lg \<and> ?h = Inr h \<and> ?sv = Inr sv")
        case True
        then obtain lg h sv where l: "?lg = Inr lg" "?h = Inr h" "?sv = Inr sv" by blast
        obtain acts res where r: "Run sv (ue_listenErr e) (ue_select e) = (acts, res)" by fastforce
        show thesis
          by (rule ran [OF ld su' l(3) r]) (cases res; simp add: runUp_def pf ld su' l r)
      next
        case False
        then show thesis
          by (cases ?lg; cases ?h; cases ?sv) (auto intro!: built [OF su'] dest: newLogger_Inl simp: runUp_def pf ld su')
      qed
    qed
  qed
qed

subsection \<open>A concrete process\<close>

text \<open>The default configuration with an SDK, an upstream parser and a price table that all work.\<close>

definition plain_env :: "(rat, unit) up_env" where
  "plain_env =
     \<lparr>ue_read_file = (\<lambda>_. None), ue_yaml = (\<lambda>_ _. None), ue_parse_float = (\<lambda>_. None), ue_url_ok = (\<lambda>_. True),
      ue_environ = no_env, ue_sdk = working_sdk, ue_buildinfo = None,
      ue_vars = \<lparr>Version = ''v1'', Commit = [], Date = [], resolveOnce = False\<rparr>,
      ue_target_host = (\<lambda>_. Some ''api''), ue_counter = (\<lambda>_. None), ue_load_pricing = (\<lambda>_ _. Inr defaultTable), ue_version = 19, ue_numCPU = 1,
      ue_providers = demo_providers, ue_fs = rotating, ue_x509 = same_bytes, ue_parse_cert = (\<lambda>_. None),
      ue_pem_pool = (\<lambda>_. None), ue_boot = 0, ue_listenErr = None, ue_select = SelCtxDone 0 [] None\<rparr>"

lemma plain_Load:
  "Load (ue_read_file plain_env) (ue_yaml plain_env) (ue_parse_float plain_env) (ue_url_ok plain_env)
     (ue_environ plain_env) [] = Inr Default"
  by (simp add: plain_env_def Load_Default)

lemma plain_NewServer:
  "\<exists>srv. NewServer (ue_fs plain_env) (ue_x509 plain_env) (ue_parse_cert plain_env) (ue_read_file plain_env)
     (ue_pem_pool plain_env) (ue_boot plain_env) Default = Inr srv"
  by (simp add: NewServer_def TLS_Enabled_def Default_def Let_def)

lemma plain_New:
  "\<exists>h. New (ue_target_host plain_env) (ue_counter plain_env) (ue_load_pricing plain_env) (ue_version plain_env) (ue_numCPU plain_env) Default
     (ue_providers plain_env) = Inr h"
proof -
  have "named ''openai'' ''anthropic'' = Default" by (simp add: named_def Default_def zero_Upstream_def)
  then show ?thesis using named_New [of "''openai''" "''anthropic''"] by (auto simp: plain_env_def)
qed

lemma plain_Setup: "\<exists>p ev. Setup (ue_sdk plain_env) v Default = (Inr p, ev)"
  using working_Setup by (simp add: plain_env_def)

lemma plain_runUp: "up_err (runUp plain_env []) = Some None \<and> up_acts (runUp plain_env []) \<noteq> []"
proof -
  let ?v = "fst (fst (Resolve (ue_buildinfo plain_env) (ue_vars plain_env)))"
  obtain p ev where su: "Setup (ue_sdk plain_env) ?v Default = (Inr p, ev)" using plain_Setup by blast
  obtain lg where lg: "newLogger ''info'' (s_Name (cfg_Service Default)) ?v = Inr lg" by (simp add: newLogger_def Let_def)
  obtain h where h: "New (ue_target_host plain_env) (ue_counter plain_env) (ue_load_pricing plain_env) (ue_version plain_env) (ue_numCPU plain_env)
      Default (ue_providers plain_env) = Inr h" using plain_New by blast
  obtain srv where srv: "NewServer (ue_fs plain_env) (ue_x509 plain_env) (ue_parse_cert plain_env) (ue_read_file plain_env)
     (ue_pem_pool plain_env) (ue_boot plain_env) Default = Inr srv" using plain_NewServer by blast
  have "snd (Run srv (ue_listenErr plain_env) (ue_select plain_env)) = Some None"
    by (simp add: plain_env_def Run_def shutdown_branch_def WaitForStreams_def)
  then obtain acts where "Run srv (ue_listenErr plain_env) (ue_select plain_env) = (acts, Some None)" by (metis prod.collapse)
  with su lg h srv plain_Load Run_acts show ?thesis by (simp add: runUp_def)
qed

text \<open>
  A failure between \<open>Setup\<close> and \<open>Run\<close>, here an unknown log level, returns with all three providers
  created and none shut down.
\<close>

lemma bad_level_leaves_providers:
  assumes "newLogger level (s_Name (cfg_Service Default)) ''v1'' = Inl err"
  shows "created (up_tel (runUp plain_env [''--log-level'', level])) = [Traces, Metrics, Logs]
     \<and> shut_down (up_tel (runUp plain_env [''--log-level'', level])) = []"
proof -
  obtain p ev where su: "Setup (ue_sdk plain_env) ''v1'' Default = (Inr p, ev)" using plain_Setup by blast
  have "fst (fst (Resolve (ue_buildinfo plain_env) (ue_vars plain_env))) = ''v1''"
    by (simp add: plain_env_def Resolve_def resolveFromBuildInfo_def)
  then have "up_tel (runUp plain_env [''--log-level'', level]) = ev"
    using su assms plain_Load by (simp add: runUp_def cut_flag_def)
  then show ?thesis using Setup_created(1) [OF su] by simp
qed

subsection \<open>Properties\<close>

text \<open>
  C31: \<open>hash-token\<close> round trip. Whatever line endings follow the token on standard input, the hash
  printed is accepted by \<open>NewVerifier\<close> as an entry of \<open>auth.tokens\<close>, and a verifier configured with
  it accepts that token at once, provided the token has the shape the verifier admits.
\<close>

theorem hash_token_usable:
  assumes "\<And>tok salt t m p n. length (idkey tok salt t m p n) = n"
    and "0 \<le> version" and "in_int64 version" and "rand argonSaltLen = Some salt" and "0 < numCPU"
    and "tok \<noteq> []" and "last tok \<noteq> CHR 0x0D" and "last tok \<noteq> CHR 0x0A" and "set nl \<subseteq> {CHR 0x0D, CHR 0x0A}"
  shows "\<exists>encoded v. runHashToken idkey version rand [] (Some (tok @ nl)) = (None, encoded @ [CHR 0x0A])
     \<and> NewVerifier version numCPU [encoded] = Inr v
     \<and> fst (Verify idkey sha now now' tok v) = (hasValidShape tok, False)"
proof -
  obtain encoded v where "Hash idkey version rand tok = Inr encoded" "NewVerifier version numCPU [encoded] = Inr v"
    "fst (Verify idkey sha now now' tok v) = (hasValidShape tok, False)"
    using Hash_verifier [where idkey = idkey and rand = rand, OF assms(1-4,6,5)] by blast
  moreover have "trim_crlf (tok @ nl) = tok" by (rule trim_crlf_line [OF assms(6-9)])
  ultimately show ?thesis using assms(6) by (auto simp: runHashToken_def)
qed

theorem hash_token_usable_witness:
  "\<exists>encoded v. runHashToken pad_key 19 (\<lambda>n. Some (replicate n CHR ''s'')) [] (Some (''tok'' @ [CHR 0x0D, CHR 0x0A]))
       = (None, encoded @ [CHR 0x0A])
     \<and> NewVerifier 19 1 [encoded] = Inr v \<and> fst (Verify pad_key id 0 0 ''tok'' v) = (True, False)"
proof -
  have "length (pad_key tok salt t m p n) = n" for tok salt t m p n by (simp add: pad_key_def)
  then have "\<exists>encoded v. runHashToken pad_key 19 (\<lambda>n. Some (replicate n CHR ''s'')) [] (Some (''tok'' @ [CHR 0x0D, CHR 0x0A]))
       = (None, encoded @ [CHR 0x0A])
     \<and> NewVerifier 19 1 [encoded] = Inr v \<and> fst (Verify pad_key id 0 0 ''tok'' v) = (hasValidShape ''tok'', False)"
    by (rule hash_token_usable) (simp_all add: in_int64_def int64_min_def int64_max_def)
  then show ?thesis by (simp add: pad_shape)
qed

text \<open>
  The logger filters both of its sinks at the one configured level. However attributes and
  groups are attached to it, a record at or above the level reaches the terminal and the
  OpenTelemetry bridge, both with all of them, a record below reaches neither; and an error of
  one sink neither keeps the record from the other nor is lost.
\<close>

lemma logger_sinks:
  assumes "newLogger level name version = Inr h"
  defines "lvl \<equiv> (if level = ''debug'' then LevelDebug else if level = ''warn'' then LevelWarn
                   else if level = ''error'' then LevelError else LevelInfo)"
    and "ctx \<equiv> \<lambda>cs. WithAttrs [(''service.name'', name), (''service.version'', version)] # cs"
  shows "log_record fails (foldl (\<lambda>h c. handler_With c h) h cs) l =
     (if l \<ge> lvl
      then ([TextSink (ctx cs), OtelSink (ctx cs)],
            (case fails (TextSink (ctx cs)) of None \<Rightarrow> [] | Some err \<Rightarrow> [err])
            @ (case fails (OtelSink (ctx cs)) of None \<Rightarrow> [] | Some err \<Rightarrow> [err]))
      else ([], []))"
  using newLogger_two_sinks [OF assms(1)]
  by (auto simp: two_sinks_With two_sinks_record lvl_def ctx_def)

text \<open>
  C32: The life of \<open>up\<close>. The server does anything at all only with a configuration that was loaded
  and with all three telemetry providers up; what it does is a run of the server built from that
  configuration. When that run returns, each provider is shut down exactly once, last created
  first, and \<open>up\<close> returns the error of the run; while it lasts, none is shut down. A failing
  \<open>Setup\<close> leaves no provider behind.
\<close>

theorem up_lifecycle:
  "(up_acts (runUp e args) \<noteq> [] \<longrightarrow>
     (\<exists>path cfg srv res.
        Load (ue_read_file e) (ue_yaml e) (ue_parse_float e) (ue_url_ok e) (ue_environ e) path = Inr cfg
        \<and> NewServer (ue_fs e) (ue_x509 e) (ue_parse_cert e) (ue_read_file e) (ue_pem_pool e) (ue_boot e) cfg = Inr srv
        \<and> Run srv (ue_listenErr e) (ue_select e) = (up_acts (runUp e args), res)
        \<and> up_err (runUp e args) = map_option (map_option RunError) res
        \<and> created (up_tel (runUp e args)) = [Traces, Metrics, Logs]
        \<and> shut_down (up_tel (runUp e args)) = (if res = None then [] else [Logs, Metrics, Traces])))
   \<and> (up_err (runUp e args) = None \<longrightarrow> up_acts (runUp e args) \<noteq> [])
   \<and> (\<forall>err. up_err (runUp e args) = Some (Some (TelemetryError err)) \<longrightarrow>
        shut_down (up_tel (runUp e args)) = rev (created (up_tel (runUp e args))))"
proof (cases rule: runUp_cases [of e args])
  case (early err)
  then show ?thesis by simp
next
  case (unset cfg err ev)
  then show ?thesis using Setup_created(2) by simp
next
  case (built cfg prov ev err)
  then show ?thesis by simp
next
  case (ran path cfg prov ev srv acts res)
  have c: "created ev = [Traces, Metrics, Logs]" "shut_down ev = []" using Setup_created(1) [OF ran(2)] by simp_all
  have "acts \<noteq> []" by (rule Run_acts [OF ran(4)])
  moreover have "up_err (runUp e args) \<noteq> Some (Some (TelemetryError err))" for err using ran(5) by (cases res) auto
  moreover have "Load (ue_read_file e) (ue_yaml e) (ue_parse_float e) (ue_url_ok e) (ue_environ e) path = Inr cfg
        \<and> NewServer (ue_fs e) (ue_x509 e) (ue_parse_cert e) (ue_read_file e) (ue_pem_pool e) (ue_boot e) cfg = Inr srv
        \<and> Run srv (ue_listenErr e) (ue_select e) = (up_acts (runUp e args), res)
        \<and> up_err (runUp e args) = map_option (map_option RunError) res
        \<and> created (up_tel (runUp e args)) = [Traces, Metrics, Logs]
        \<and> shut_down (up_tel (runUp e args)) = (if res = None then [] else [Logs, Metrics, Traces])"
    using ran(1,3,4,5) c by simp
  ultimately show ?thesis using ran(5) by simp blast
qed

theorem up_lifecycle_witness:
  "up_acts (runUp plain_env []) \<noteq> [] \<and> up_err (runUp plain_env []) = Some None
   \<and> shut_down (up_tel (runUp plain_env [])) = [Logs, Metrics, Traces]"
proof -
  have "up_err (runUp plain_env []) = Some None \<and> up_acts (runUp plain_env []) \<noteq> []" by (rule plain_runUp)
  with up_lifecycle [of plain_env "[]"] show ?thesis by force
qed

end
