(* ===== verification/Content_Flow.thy ===== *)
theory Content_Flow
  imports Pipeline
begin

text \<open>
  Where prompt and completion text can flow. Two runs of the enriched pipeline are compared whose
  decoders read the same metadata but different texts: what the telemetry records is then the
  same, except for what capture lets through the redactor. The relations below say which parts of
  a decoded message may differ; none of them mentions the telemetry.
\<close>

subsection \<open>Decoded messages that differ in their text\<close>

text \<open>
  With capture off, messages and embedding input are arbitrary. With capture on, messages
  agree in number and role, and their texts agree once redacted.
\<close>

definition openai_message_flow :: "ContentOpts \<Rightarrow> openAIMessage \<Rightarrow> openAIMessage \<Rightarrow> bool" where
  "openai_message_flow opts m m' \<longleftrightarrow>
     om_Role m = om_Role m' \<and> Clean opts (om_Content m) = Clean opts (om_Content m')"

definition openai_request_flow :: "ContentOpts \<Rightarrow> 'f openAIRequest \<Rightarrow> 'f openAIRequest \<Rightarrow> bool" where
  "openai_request_flow opts req req' \<longleftrightarrow>
     (\<exists>msgs inp. req' = req\<lparr>or_Messages := msgs, or_Input := inp\<rparr>
        \<and> (Capture opts \<longrightarrow> list_all2 (openai_message_flow opts) (or_Messages req) msgs))"

text \<open>
  Of a choice, index, finish reason and whether its delta carries a token agree. With capture on
  the text of a complete message agrees once redacted, and a delta, which is redacted only when
  the completion has been put together, agrees.
\<close>

definition is_token :: "openAIChoice \<Rightarrow> bool" where
  "is_token c \<longleftrightarrow> om_Content (oc_Delta c) \<noteq> [] \<or> hasToolCalls (om_ToolCalls (oc_Delta c))"

definition openai_choice_flow :: "ContentOpts \<Rightarrow> openAIChoice \<Rightarrow> openAIChoice \<Rightarrow> bool" where
  "openai_choice_flow opts c c' \<longleftrightarrow>
     oc_Index c = oc_Index c' \<and> oc_FinishReason c = oc_FinishReason c' \<and> is_token c = is_token c'
     \<and> (Capture opts \<longrightarrow> Clean opts (om_Content (oc_Message c)) = Clean opts (om_Content (oc_Message c'))
          \<and> om_Content (oc_Delta c) = om_Content (oc_Delta c'))"

definition openai_response_flow :: "ContentOpts \<Rightarrow> openAIResponse \<Rightarrow> openAIResponse \<Rightarrow> bool" where
  "openai_response_flow opts r r' \<longleftrightarrow>
     os_ID r = os_ID r' \<and> os_Model r = os_Model r' \<and> os_Usage r = os_Usage r'
     \<and> list_all2 (openai_choice_flow opts) (os_Choices r) (os_Choices r')"

definition openai_flow :: "ContentOpts \<Rightarrow> 'f openai_json \<Rightarrow> 'f openai_json \<Rightarrow> bool" where
  "openai_flow opts js js' \<longleftrightarrow>
     (\<forall>b. rel_option (openai_response_flow opts) (unmarshal_response js b) (unmarshal_response js' b))
     \<and> unmarshal_string js = unmarshal_string js' \<and> unmarshal_strings js = unmarshal_strings js'"

definition anthropic_request_flow :: "ContentOpts \<Rightarrow> 'f anthropicRequest \<Rightarrow> 'f anthropicRequest \<Rightarrow> bool" where
  "anthropic_request_flow opts req req' \<longleftrightarrow>
     (\<exists>msgs sys. req' = req\<lparr>ar_Messages := msgs, ar_System := sys\<rparr>
        \<and> (Capture opts \<longrightarrow> (ar_System req = [] \<longleftrightarrow> sys = []) \<and> Clean opts (ar_System req) = Clean opts sys
             \<and> list_all2 (\<lambda>m m'. am_Role m = am_Role m' \<and> Clean opts (am_Content m) = Clean opts (am_Content m'))
                 (ar_Messages req) msgs))"

definition anthropic_response_flow :: "ContentOpts \<Rightarrow> anthropicResponse \<Rightarrow> anthropicResponse \<Rightarrow> bool" where
  "anthropic_response_flow opts r r' \<longleftrightarrow>
     as_ID r = as_ID r' \<and> as_Model r = as_Model r' \<and> as_StopReason r = as_StopReason r' \<and> as_Usage r = as_Usage r'
     \<and> (Capture opts \<longrightarrow> (text_of (as_Content r) = [] \<longleftrightarrow> text_of (as_Content r') = [])
          \<and> Clean opts (text_of (as_Content r)) = Clean opts (text_of (as_Content r')))"

definition anthropic_delta_flow :: "ContentOpts \<Rightarrow> anthropicDelta \<Rightarrow> anthropicDelta \<Rightarrow> bool" where
  "anthropic_delta_flow opts d d' \<longleftrightarrow>
     ad_Type d = ad_Type d' \<and> ad_StopReason d = ad_StopReason d' \<and> (ad_Text d = [] \<longleftrightarrow> ad_Text d' = [])
     \<and> (Capture opts \<longrightarrow> ad_Text d = ad_Text d')"

definition anthropic_event_flow :: "ContentOpts \<Rightarrow> anthropicStreamEvent \<Rightarrow> anthropicStreamEvent \<Rightarrow> bool" where
  "anthropic_event_flow opts e e' \<longleftrightarrow>
     ae_Type e = ae_Type e' \<and> rel_option (anthropic_response_flow opts) (ae_Message e) (ae_Message e')
     \<and> rel_option (anthropic_delta_flow opts) (ae_Delta e) (ae_Delta e') \<and> ae_Usage e = ae_Usage e'"

definition anthropic_flow :: "ContentOpts \<Rightarrow> 'f anthropic_json \<Rightarrow> 'f anthropic_json \<Rightarrow> bool" where
  "anthropic_flow opts js js' \<longleftrightarrow>
     (\<forall>b. rel_option (anthropic_response_flow opts) (unmarshal_aresponse js b) (unmarshal_aresponse js' b))
     \<and> (\<forall>b. rel_option (anthropic_event_flow opts) (unmarshal_aevent js b) (unmarshal_aevent js' b))"

subsection \<open>The parsers\<close>

lemma map_flow: "list_all2 R xs ys \<Longrightarrow> (\<And>x y. R x y \<Longrightarrow> f x = f y) \<Longrightarrow> map f xs = map f ys"
  by (induction rule: list_all2_induct) auto

lemma foldl_flow: "list_all2 R xs ys \<Longrightarrow> (\<And>s x y. R x y \<Longrightarrow> f s x = f s y) \<Longrightarrow> foldl f s xs = foldl f s ys"
  by (induction arbitrary: s rule: list_all2_induct) auto

lemma OpenAI_ParseRequest_flow:
  fixes js js' :: "'f openai_json"
  assumes "rel_option (openai_request_flow opts) (unmarshal_request js body) (unmarshal_request js' body')"
    and "unmarshal_string js = unmarshal_string js'" and "unmarshal_strings js = unmarshal_strings js'"
  shows "OpenAI_ParseRequest js now path body opts = OpenAI_ParseRequest js' now path body' opts"
proof (cases "unmarshal_request js body")
  case None
  then show ?thesis using assms(1) by (simp add: OpenAI_ParseRequest_def)
next
  case (Some req)
  then obtain msgs inp where req': "unmarshal_request js' body' = Some (req\<lparr>or_Messages := msgs, or_Input := inp\<rparr>)"
    and m: "Capture opts \<longrightarrow> list_all2 (openai_message_flow opts) (or_Messages req) msgs"
    using assms(1) by (auto simp: openai_request_flow_def option_rel_Some1)
  have stop: "decodeStopSequences js raw = decodeStopSequences js' raw" for raw
    unfolding decodeStopSequences_def assms(2,3) by (rule refl)
  have "(emitOpenAIRequestEvents (or_Messages req) opts :: 'f span_op list) = emitOpenAIRequestEvents msgs opts" if "Capture opts"
    unfolding emitOpenAIRequestEvents_def
    by (rule map_flow [OF mp [OF m that]]) (simp add: openai_message_flow_def)
  then show ?thesis
    using Some req'
    by (cases "or_MaxComplTokens req") (simp_all add: OpenAI_ParseRequest_def openai_request_attrs_def stop Let_def)
qed

lemma OpenAI_ParseResponseJSON_flow:
  fixes js js' :: "'f openai_json"
  assumes "openai_flow opts js js'"
  shows "OpenAI_ParseResponseJSON js info b opts = OpenAI_ParseResponseJSON js' info b opts"
proof (cases "unmarshal_response js b")
  case None
  then have "unmarshal_response js' b = None" using assms by (metis openai_flow_def option.rel_distinct(1) option.exhaust)
  with None show ?thesis by (simp add: OpenAI_ParseResponseJSON_def)
next
  case (Some r)
  then obtain r' where r': "unmarshal_response js' b = Some r'" and f: "openai_response_flow opts r r'"
    using assms unfolding openai_flow_def by (metis option_rel_Some1)
  have choices: "list_all2 (openai_choice_flow opts) (os_Choices r) (os_Choices r')"
    and eq: "os_ID r = os_ID r'" "os_Model r = os_Model r'" "os_Usage r = os_Usage r'"
    using f by (auto simp: openai_response_flow_def)
  have "map oc_FinishReason (os_Choices r) = map oc_FinishReason (os_Choices r')"
    by (rule map_flow [OF choices]) (simp add: openai_choice_flow_def)
  moreover have "(map (\<lambda>c. AddEvent EventChoice
        [(''index'', AInt (oc_Index c)), (''finish_reason'', AString (oc_FinishReason c)),
         (''message'', AString (Clean opts (om_Content (oc_Message c))))]) (os_Choices r) :: 'f span_op list)
      = map (\<lambda>c. AddEvent EventChoice
        [(''index'', AInt (oc_Index c)), (''finish_reason'', AString (oc_FinishReason c)),
         (''message'', AString (Clean opts (om_Content (oc_Message c))))]) (os_Choices r')" if "Capture opts"
    by (rule map_flow [OF choices]) (use that in \<open>simp add: openai_choice_flow_def\<close>)
  ultimately show ?thesis using Some r' eq by (simp add: OpenAI_ParseResponseJSON_def Let_def)
qed

lemma openai_choice_token:
  "openai_choice clk opts st c =
     (let st = st\<lparr>st_info := add_finish (st_info st) (oc_FinishReason c)\<rparr>; delta = om_Content (oc_Delta c) in
      if is_token c then
        (let st = first_token clk st in
         if Capture opts \<and> delta \<noteq> [] then st\<lparr>assembled := assembled st @ delta\<rparr> else st)
      else st)"
  by (simp add: openai_choice_def is_token_def Let_def)

lemma openai_choice_step:
  "openai_choice_flow opts c c' \<Longrightarrow> openai_choice clk opts st c = openai_choice clk opts st c'"
  by (cases "Capture opts") (simp_all add: openai_choice_token openai_choice_flow_def Let_def)

lemma OpenAI_onEvent_flow:
  assumes "openai_flow opts js js'"
  shows "OpenAI_onEvent js clk opts d st = OpenAI_onEvent js' clk opts d st"
proof (cases "unmarshal_response js d")
  case None
  then have "unmarshal_response js' d = None" using assms by (metis openai_flow_def option.rel_distinct(1) option.exhaust)
  with None show ?thesis by (simp add: OpenAI_onEvent_def)
next
  case (Some r)
  then obtain r' where r': "unmarshal_response js' d = Some r'" and f: "openai_response_flow opts r r'"
    using assms unfolding openai_flow_def by (metis option_rel_Some1)
  have "foldl (openai_choice clk opts) s (os_Choices r) = foldl (openai_choice clk opts) s (os_Choices r')" for s :: "'a stream"
    by (rule foldl_flow [of "openai_choice_flow opts"]) (use f openai_choice_step in \<open>auto simp: openai_response_flow_def\<close>)
  with Some r' f show ?thesis by (simp add: OpenAI_onEvent_def openai_response_flow_def Let_def)
qed

lemma Anthropic_ParseRequest_flow:
  fixes js js' :: "'f anthropic_json"
  assumes "rel_option (anthropic_request_flow opts) (unmarshal_arequest js body) (unmarshal_arequest js' body')"
  shows "Anthropic_ParseRequest js now path body opts = Anthropic_ParseRequest js' now path body' opts"
proof (cases "unmarshal_arequest js body")
  case None
  then show ?thesis using assms by (simp add: Anthropic_ParseRequest_def)
next
  case (Some req)
  then obtain msgs sys where req': "unmarshal_arequest js' body' = Some (req\<lparr>ar_Messages := msgs, ar_System := sys\<rparr>)"
    and m: "Capture opts \<longrightarrow> (ar_System req = [] \<longleftrightarrow> sys = []) \<and> Clean opts (ar_System req) = Clean opts sys
      \<and> list_all2 (\<lambda>m m'. am_Role m = am_Role m' \<and> Clean opts (am_Content m) = Clean opts (am_Content m'))
          (ar_Messages req) msgs"
    using assms by (auto simp: anthropic_request_flow_def option_rel_Some1)
  have "(map (\<lambda>m. AddEvent (if am_Role m = ''assistant'' then EventAssistantMessage else EventUserMessage)
        [(''role'', AString (am_Role m)), (''content'', AString (Clean opts (am_Content m)))]) (ar_Messages req) :: 'f span_op list)
      = map (\<lambda>m. AddEvent (if am_Role m = ''assistant'' then EventAssistantMessage else EventUserMessage)
        [(''role'', AString (am_Role m)), (''content'', AString (Clean opts (am_Content m)))]) msgs" if "Capture opts"
    by (rule map_flow [OF conjunct2 [OF conjunct2 [OF mp [OF m that]]]]) simp
  then show ?thesis
    using Some req' m
    by (simp add: Anthropic_ParseRequest_def anthropic_request_attrs_def anthropic_request_events_def Let_def)
qed

lemma Anthropic_ParseResponseJSON_flow:
  assumes "anthropic_flow opts js js'"
  shows "Anthropic_ParseResponseJSON js info b opts = Anthropic_ParseResponseJSON js' info b opts"
proof (cases "unmarshal_aresponse js b")
  case None
  then have "unmarshal_aresponse js' b = None"
    using assms by (metis anthropic_flow_def option.rel_distinct(1) option.exhaust)
  with None show ?thesis by (simp add: Anthropic_ParseResponseJSON_def)
next
  case (Some r)
  then obtain r' where "unmarshal_aresponse js' b = Some r'" "anthropic_response_flow opts r r'"
    using assms unfolding anthropic_flow_def by (metis option_rel_Some1)
  with Some show ?thesis
    by (simp add: Anthropic_ParseResponseJSON_def anthropic_response_flow_def Let_def)
qed

lemma anthropic_delta_step:
  "anthropic_delta_flow opts d d' \<Longrightarrow> anthropic_delta clk opts d st = anthropic_delta clk opts d' st"
  by (cases "Capture opts") (simp_all add: anthropic_delta_def anthropic_delta_flow_def)

lemma Anthropic_onEvent_flow:
  assumes "anthropic_flow opts js js'"
  shows "Anthropic_onEvent js clk opts d st = Anthropic_onEvent js' clk opts d st"
proof (cases "unmarshal_aevent js d")
  case None
  then have "unmarshal_aevent js' d = None"
    using assms by (metis anthropic_flow_def option.rel_distinct(1) option.exhaust)
  with None show ?thesis by (simp add: Anthropic_onEvent_def)
next
  case (Some e)
  then obtain e' where e': "unmarshal_aevent js' d = Some e'" and f: "anthropic_event_flow opts e e'"
    using assms unfolding anthropic_flow_def by (metis option_rel_Some1)
  have start: "(case ae_Message e of None \<Rightarrow> st | Some msg \<Rightarrow> st\<lparr>st_info := anthropic_start msg (st_info st)\<rparr>)
      = (case ae_Message e' of None \<Rightarrow> st | Some msg \<Rightarrow> st\<lparr>st_info := anthropic_start msg (st_info st)\<rparr>)"
    using f by (cases "ae_Message e"; cases "ae_Message e'")
      (auto simp: anthropic_event_flow_def anthropic_response_flow_def anthropic_start_def Let_def)
  have delta: "(case ae_Delta e of None \<Rightarrow> st | Some d \<Rightarrow> anthropic_delta clk opts d st)
      = (case ae_Delta e' of None \<Rightarrow> st | Some d \<Rightarrow> anthropic_delta clk opts d st)"
    using f anthropic_delta_step by (cases "ae_Delta e"; cases "ae_Delta e'") (auto simp: anthropic_event_flow_def)
  have "anthropic_message_delta e i = anthropic_message_delta e' i" for i
    using f by (cases "ae_Delta e"; cases "ae_Delta e'")
      (auto simp: anthropic_event_flow_def anthropic_delta_flow_def anthropic_message_delta_def Let_def)
  with Some e' f start delta show ?thesis
    by (simp add: Anthropic_onEvent_def anthropic_event_flow_def)
qed

subsection \<open>The interceptor\<close>

text \<open>Two providers that parse responses alike under the options of a call are interchangeable in it.\<close>

definition responses_alike :: "ContentOpts \<Rightarrow> 'f provider \<Rightarrow> 'f provider \<Rightarrow> bool" where
  "responses_alike opts p p' \<longleftrightarrow>
     (\<forall>info b. prv_ParseResponseJSON p info b opts = prv_ParseResponseJSON p' info b opts)
     \<and> (\<forall>clk d st. prv_onEvent p clk opts d st = prv_onEvent p' clk opts d st)"

lemma icfg_prv:
  "ic_content (ic\<lparr>ic_prv := p\<rparr>) = ic_content ic" "ic_upstream (ic\<lparr>ic_prv := p\<rparr>) = ic_upstream ic"
  "ic_pricing (ic\<lparr>ic_prv := p\<rparr>) = ic_pricing ic" "ic_clk (ic\<lparr>ic_prv := p\<rparr>) = ic_clk ic"
  "ic_seconds (ic\<lparr>ic_prv := p\<rparr>) = ic_seconds ic" "ic_of_int (ic\<lparr>ic_prv := p\<rparr>) = ic_of_int ic"
  "ic_uni (ic\<lparr>ic_prv := p\<rparr>) = ic_uni ic"
  by simp_all

lemma finalize_prv: "finalize (ic\<lparr>ic_prv := p\<rparr>) it = finalize ic it"
  by (simp only: finalize_def recordMetrics_def finishSpan_def icfg_prv)

lemma tee_call_prv:
  "responses_alike (ic_content ic) (ic_prv ic) p \<Longrightarrow> tee_call (ic\<lparr>ic_prv := p\<rparr>) n it c = tee_call ic n it c"
  by (cases c) (simp_all add: responses_alike_def finalize_prv)

lemma parse_json_prv:
  "responses_alike (ic_content ic) (ic_prv ic) p \<Longrightarrow> parse_json (ic\<lparr>ic_prv := p\<rparr>) b it = parse_json ic b it"
  by (simp add: responses_alike_def parse_json_def)

lemma icept_step_prv:
  assumes "responses_alike (ic_content ic) (ic_prv ic) p"
  shows "icept_step (ic\<lparr>ic_prv := p\<rparr>) it x = icept_step ic it x"
proof (cases x)
  case (Modify status ct)
  then show ?thesis by (simp only: icept_step.simps modify_def icfg_prv)
next
  case (Body y)
  have "tee_call (ic\<lparr>ic_prv := p\<rparr>) n = tee_call ic n" for n
    using tee_call_prv [OF assms] by (intro ext)
  then show ?thesis
    using Body by (simp add: body_step_def Let_def finalize_prv parse_json_prv [OF assms] split: resp_body.split)
next
  case Finalize
  then show ?thesis by (simp add: finalize_prv)
qed

lemma enrich_flow:
  assumes "responses_alike (content_opts (h_cfg h)) p p'"
    and "\<forall>now. prv_ParseRequest p now path body (content_opts (h_cfg h)) = prv_ParseRequest p' now path body' (content_opts (h_cfg h))"
  shows "enrich env h u p op path body calls = enrich env h u p' op path body' calls"
proof -
  let ?ic = "call_cfg env h u p"
  have ic': "call_cfg env h u p' = ?ic\<lparr>ic_prv := p'\<rparr>" and ic: "ic_content ?ic = content_opts (h_cfg h)" "ic_prv ?ic = p"
    by (simp_all add: call_cfg_def)
  have "icept_step (?ic\<lparr>ic_prv := p'\<rparr>) = icept_step ?ic"
    using icept_step_prv [of ?ic p'] assms(1) ic by (intro ext) simp
  then show ?thesis
    using assms(2) by (simp add: enrich_def ic' ic finalize_prv Let_def)
qed

subsection \<open>Property\<close>



end
