(* ===== verification/Spec2Isabelle.thy ===== *)
theory Spec2Isabelle
  imports Command Content_Flow
begin

text \<open>
  Verification of llmtap, a reverse proxy in front of LLM provider APIs that emits OpenTelemetry
  traces, metrics and logs for the calls it forwards.

  \<^bold>\<open>The program.\<close> A request enters \<open>Handler.ServeHTTP\<close> (\<open>src/internal/proxy/proxy.go\<close>), passes the
  health probes, the authentication gate (\<open>internal/auth\<close>), the choice of an upstream by longest
  path prefix (\<open>internal/config\<close>) and the admission gate (circuit breaker, \<open>internal/proxy/breaker.go\<close>,
  and concurrency semaphore). Paths that a provider family (\<open>internal/provider\<close>) recognises are
  enriched: the head of the body is captured and parsed, the response is read through a tee, a
  server-sent-event parser for streams, and when it ends the span and the metrics are completed
  with token counts, a cost from the price table (\<open>internal/pricing\<close>) and model labels of bounded
  cardinality (\<open>internal/labels\<close>); captured content is redacted first (\<open>internal/redact\<close>). The HTTP
  server (\<open>internal/proxy/server.go\<close>) terminates TLS with a certificate that a watcher reloads
  (\<open>internal/proxy/certmgr.go\<close>) and drains streams on shutdown. \<open>cmd/llmtap/main.go\<close> loads the
  configuration, sets up telemetry (\<open>internal/telemetry\<close>), and runs the server.

  \<^bold>\<open>The theories\<close>, in the order of their imports.

  \<^item> \<open>Prelude\<close>, \<open>Go_Strings\<close>, \<open>Go_Net\<close>, \<open>Go_Encoding\<close>, \<open>Go_Regexp\<close>: what the source uses of Go and its
    standard library: bytes as \<open>char\<close> lists, 64-bit durations and instants with their saturation,
    prefix and split functions, IP and host parsing, base64 and hexadecimal, scanning of numbers,
    and leftmost-first matching of the regular expressions that occur.
  \<^item> \<open>Breaker\<close>: the three-state breaker. \<open>Config\<close>: data, defaults, environment, validation, matching.
  \<^item> \<open>Once\<close>: the locale of wrappers that run a callback exactly once, interpreted on the stream tee
    in \<open>SSE\<close> and on the response wrapper in \<open>Body\<close>. \<open>SSE\<close>: the tee with its buffer and parser.
  \<^item> \<open>Labels\<close>: \<open>ModelLabel\<close>, sequentially and as interleaved atomic steps. \<open>Longest_Prefix\<close>: the contract
    of a longest-prefix table as a locale, interpreted on the trie in \<open>Pricing\<close>.
  \<^item> \<open>Token_Cache\<close>: the contract of a cache with expiry, interpreted on the verified-token cache in
    \<open>Auth\<close>, which also holds PHC strings and \<open>Verify\<close>, sequentially and interleaved.
  \<^item> \<open>Genai\<close>, \<open>Provider\<close>, \<open>OpenAI\<close>, \<open>Anthropic\<close>: names, \<open>Info\<close>, the shared stream wrapper, the two families.
  \<^item> \<open>Body\<close>: capture and forwarding of request bodies, tees, status capture. \<open>Pins\<close>: the upstream
    transport and certificate pinning. \<open>Admission\<close>: admit and release as steps of concurrent
    requests, over the locale \<open>probe_gate\<close>, which \<open>Breaker\<close>'s operations interpret.
  \<^item> \<open>Redact\<close>: patterns and profiles over \<open>Go_Regexp\<close>, with the locale \<open>masker\<close> of replacers that only mask.
  \<^item> \<open>Interceptor\<close>: \<open>responseInterceptor\<close>. \<open>Handler\<close>: \<open>New\<close>, the gates, dispatch, \<open>ServeHTTP\<close>. \<open>Pipeline\<close>: what a
    whole request leaves behind. \<open>Content_Flow\<close>: two runs that differ in prompt and completion text.
  \<^item> \<open>CertMgr\<close>, \<open>Server\<close>, \<open>Buildinfo\<close>, \<open>Telemetry\<close>, \<open>Command\<close>: certificate reload against a changing
    file system, listener and shutdown, build information, telemetry setup, the command line.

  \<^bold>\<open>Correspondence.\<close> Structures are records with the source's field names, prefixed where names
  clash; enumerations are datatypes; a method is a function of the same name from the old state to
  the result and the new state. Errors are values of a sum or option type, one constructor per
  error the source returns. Code that runs concurrently on shared state (\<open>Normalize\<close>, \<open>Verify\<close>,
  \<open>admit\<close>/\<open>release\<close>) is also given as a step function on program points, one step per atomic operation,
  and an inductive set of reachable states over multisets of calls. A span is the list of calls
  made on it, an instrument the list of recorded values.

  Arguments stand for what is outside the repository: the JSON and YAML decoders, URL and float
  parsing, argon2 and SHA-256, X.509, the clock, the file system as a function of the instant of
  each system call, the OpenTelemetry SDK as the errors of its constructors, and
  \<open>httputil.ReverseProxy\<close> as the calls it makes on the response hook, the response body and the
  response writer. Floating-point arithmetic is a type parameter with the source's operators;
  the built-in price catalogue is given in exact rationals, and no property computes with them.

  \<^bold>\<open>What is shown.\<close> End to end: no upstream is contacted before every gate has passed and the token
  is not forwarded; a refused request gets the status of the first gate that fails; a configuration
  that loads builds a handler that routes every configured prefix; each enriched request ends its
  span and is counted once and leaks no active stream; content reaches spans only when configured
  and only redacted, the telemetry does not otherwise depend on it (noninterference), and
  standalone credentials do not survive redaction; plaintext is served only where the
  configuration allows it, and the option to export telemetry in the clear is passed to the
  exporters only then; \<open>up\<close> starts and stops its parts in order. Per component: the breaker's
  invariant, tripping and recovery; balance of semaphore and probe slot under concurrency, and that
  a half-open breaker does not stay so for longer than its pending requests run; soundness, freshness and bounds of authentication; independence of
  the stream parser from the chunking of reads, its round trip and memory bound; prefix
  matching; byte-exact body forwarding and what the body limit enforces; pinning; no torn certificate pair and prompt
  rotation; label cardinality; longest-prefix pricing and overrides.

  Some lemmas record behaviour at odds with the comments: a concurrency refusal closes the breaker
  (\<open>concurrency_refusal_resets_breaker\<close>), an informational status hides the final one from it
  (\<open>breaker_sees_first_header\<close>), duplicate upstream names misroute (\<open>duplicate_names_misroute\<close>), the
  label cap can be overshot (\<open>label_overshoot\<close>), upper-case price prefixes never match
  (\<open>uppercase_prefix_never_matches\<close>), the cache order grows (\<open>cacheOrder_unbounded\<close>), an empty key
  matches every token (\<open>empty_key_matches_all\<close>), an empty delta counts as a token
  (\<open>openai_empty_delta_is_token\<close>), a failure between telemetry setup and run leaves the providers up
  (\<open>bad_level_leaves_providers\<close>), a body above both the limit and the capture size is not refused
  but forwarded until a read fails (\<open>large_body_not_refused\<close>), the breaker's window bounds the gap between
  failures and not their span (\<open>breaker_window_is_gap\<close>), a late response to an ordinary request
  resolves a half-open breaker (\<open>stale_report_resolves\<close>), a sample ratio that is not a number passes
  validation (\<open>nan_ratio_passes\<close>), and Anthropic's paths need neither a version nor a positive one
  (\<open>OperationFor_liberal\<close>).

  \<^bold>\<open>Bounds and fuel.\<close> \<open>drain_cap\<close> reads a capped body with one unit of fuel per byte left and one for
  the end, which suffices since each read returns at least one byte; \<open>pieces\<close>, the scan for matches,
  terminates by the length of the rest; the waits for streams and for ticks recurse on the list of
  wake-ups and are undefined (\<open>None\<close>) where it ends before the loop does. Everything else recurses
  structurally.

  \<^bold>\<open>Not modelled.\<close> \<open>WrapWithOTel\<close>, which only hands the handler to third-party middleware; log messages
  and the usage text; the URL that \<open>Rewrite\<close> sets, which is the target of the upstream; the timing of
  the ticker in \<open>WaitForStreams\<close>; the test hooks of \<open>auth\<close>; what the OTLP exporters
  merge from the \<open>OTEL_EXPORTER_OTLP_*\<close> environment into the options they are given. Panics of the reverse proxy are outside
  the model of \<open>rp_call\<close> sequences.
\<close>

end
